(* ===== verification/Xr_Prelude.thy ===== *)
theory Xr_Prelude
  imports Main "HOL-Library.Word" "HOL-Library.Sublist"
begin

text \<open>
  Shared vocabulary of the development: the machine integers and byte strings of the Rust
  sources, fallible results, slices with their range checks, big-endian integer fields, and the
  generic list and word facts the component theories rest on. \<open>usize\<close> values are \<open>nat\<close>: they
  only ever hold lengths and offsets of buffers that exist, so their additions do not wrap; every
  truncating cast (\<open>as u8\<close>, \<open>as u16\<close>) is an explicit \<open>of_nat\<close> into a word.
\<close>

unbundle bit_operations_syntax

section \<open>Types\<close>

type_synonym u8 = "8 word"
type_synonym u16 = "16 word"
type_synonym u32 = "32 word"
type_synonym u64 = "64 word"
type_synonym u128 = "128 word"
type_synonym bytes = "8 word list"

named_theorems be_simps \<open>reading back big-endian fields\<close>
named_theorems res_simps \<open>evaluation of fallible results\<close>
named_theorems res_elims \<open>inversion of fallible results that succeeded\<close>

section \<open>Fallible results\<close>

text \<open>\<open>Result<T, E>\<close> is \<open>'e + 'a\<close>; \<open>rbind\<close> is the \<open>?\<close> operator.\<close>

definition rbind :: "'e + 'a \<Rightarrow> ('a \<Rightarrow> 'e + 'b) \<Rightarrow> 'e + 'b" where
  "rbind r f = (case r of Inl e \<Rightarrow> Inl e | Inr x \<Rightarrow> f x)"

definition ok_or :: "'e \<Rightarrow> 'a option \<Rightarrow> 'e + 'a" where
  "ok_or e o' = (case o' of None \<Rightarrow> Inl e | Some x \<Rightarrow> Inr x)"

definition map_err :: "('e \<Rightarrow> 'f) \<Rightarrow> 'e + 'a \<Rightarrow> 'f + 'a" where
  "map_err f r = (case r of Inl e \<Rightarrow> Inl (f e) | Inr x \<Rightarrow> Inr x)"

definition ok :: "'e + 'a \<Rightarrow> 'a option" where
  "ok r = (case r of Inl e \<Rightarrow> None | Inr x \<Rightarrow> Some x)"

lemma rbind_Inl [simp, res_simps]: "rbind (Inl e) f = Inl e"
  by (simp add: rbind_def)

lemma rbind_Inr [simp, res_simps]: "rbind (Inr x) f = f x"
  by (simp add: rbind_def)

lemma rbind_eq_Inr: "rbind r f = Inr y \<longleftrightarrow> (\<exists>x. r = Inr x \<and> f x = Inr y)"
  by (cases r) auto

lemma rbind_eq_Inl: "rbind r f = Inl e \<longleftrightarrow> r = Inl e \<or> (\<exists>x. r = Inr x \<and> f x = Inl e)"
  by (cases r) auto

lemma rbind_InrE [res_elims]:
  assumes "rbind r f = Inr y"
  obtains x where "r = Inr x" "f x = Inr y"
  using assms by (auto simp: rbind_eq_Inr)

lemma ok_or_simps [simp, res_simps]: "ok_or e None = Inl e" "ok_or e (Some x) = Inr x"
  by (simp_all add: ok_or_def)

lemma ok_or_eq_Inr [simp]: "ok_or e r = Inr y \<longleftrightarrow> r = Some y"
  by (cases r) auto

lemma ok_or_eq_Inl [simp]: "ok_or e r = Inl e' \<longleftrightarrow> r = None \<and> e' = e"
  by (cases r) auto

lemma map_err_simps [simp, res_simps]: "map_err f (Inl e) = Inl (f e)" "map_err f (Inr x) = Inr x"
  by (simp_all add: map_err_def)

lemma map_err_eq_Inr [simp]: "map_err f r = Inr y \<longleftrightarrow> r = Inr y"
  by (cases r) auto

lemma ok_simps [simp, res_simps]: "ok (Inl e) = None" "ok (Inr x) = Some x"
  by (simp_all add: ok_def)

lemma ok_eq_Some [simp]: "ok r = Some x \<longleftrightarrow> r = Inr x"
  by (cases r) auto

text \<open>\<open>std::io::Error\<close>: a kind and a message.\<close>

datatype io_kind =
    InvalidData | InvalidInput | UnexpectedEof | BrokenPipe | ConnectionAborted | WriteZero | OtherKind

datatype io_error = Io io_kind string

section \<open>Slices\<close>

text \<open>\<open>xs.get(i..j)\<close>: the bytes from \<open>i\<close> below \<open>j\<close>, or \<open>None\<close> when the range leaves the slice.\<close>

definition slice_get :: "'a list \<Rightarrow> nat \<Rightarrow> nat \<Rightarrow> 'a list option" where
  "slice_get xs i j = (if i \<le> j \<and> j \<le> length xs then Some (take (j - i) (drop i xs)) else None)"

text \<open>\<open>xs.get(i)\<close> and \<open>xs.first()\<close>.\<close>

definition nth_get :: "'a list \<Rightarrow> nat \<Rightarrow> 'a option" where
  "nth_get xs i = (if i < length xs then Some (xs ! i) else None)"

lemma slice_get_prefix [simp]:
  "i \<le> j \<Longrightarrow> j \<le> length xs \<Longrightarrow> slice_get (xs @ ys) i j = Some (take (j - i) (drop i xs))"
  by (simp add: slice_get_def)

lemma slice_get_Some:
  "slice_get xs i j = Some ys \<longleftrightarrow> i \<le> j \<and> j \<le> length xs \<and> ys = take (j - i) (drop i xs)"
  by (auto simp: slice_get_def)

lemma slice_get_None: "slice_get xs i j = None \<longleftrightarrow> \<not> (i \<le> j \<and> j \<le> length xs)"
  by (auto simp: slice_get_def)

lemma slice_get_length: "slice_get xs i j = Some ys \<Longrightarrow> length ys = j - i"
  by (auto simp: slice_get_def split: if_splits)

lemma nth_get_Some: "nth_get xs i = Some x \<longleftrightarrow> i < length xs \<and> x = xs ! i"
  by (auto simp: nth_get_def)

section \<open>Checked conversions\<close>

text \<open>\<open>u8::try_from(n)\<close> and \<open>u16::try_from(n)\<close>.\<close>

definition try_u8 :: "nat \<Rightarrow> u8 option" where
  "try_u8 n = (if n < 256 then Some (of_nat n) else None)"

definition try_u16 :: "nat \<Rightarrow> u16 option" where
  "try_u16 n = (if n < 65536 then Some (of_nat n) else None)"

lemma unat_of_nat_u8 [simp]: "n < 256 \<Longrightarrow> unat (of_nat n :: u8) = n"
  by (simp add: unat_of_nat)

lemma unat_of_nat_u16 [simp]: "n < 65536 \<Longrightarrow> unat (of_nat n :: u16) = n"
  by (simp add: unat_of_nat)

lemma unat_u8_lt [simp]: "unat (b :: u8) < 256"
  using unsigned_less [of b] by simp

lemma unat_u16_lt [simp]: "unat (b :: u16) < 65536"
  using unsigned_less [of b] by simp

lemma unat_u8_le [simp]: "unat (b :: u8) \<le> 255"
  using unat_u8_lt [of b] by linarith

lemma unat_u16_le [simp]: "unat (b :: u16) \<le> 65535"
  using unat_u16_lt [of b] by linarith

lemma unat_u32_lt [simp]: "unat (b :: u32) < 4294967296"
  using unsigned_less [of b] by simp

lemma try_u8_Some: "try_u8 n = Some b \<longleftrightarrow> n < 256 \<and> b = of_nat n"
  by (auto simp: try_u8_def)

lemma try_u16_Some: "try_u16 n = Some b \<longleftrightarrow> n < 65536 \<and> b = of_nat n"
  by (auto simp: try_u16_def)

section \<open>Big-endian fields\<close>

text \<open>
  \<open>be_bytes n w\<close> are the \<open>n\<close> low bytes of \<open>w\<close>, most significant first (\<open>to_be_bytes\<close>, \<open>octets\<close>);
  \<open>from_be\<close> reads a byte string back (\<open>from_be_bytes\<close>).
\<close>

definition be_bytes :: "nat \<Rightarrow> 'a::len word \<Rightarrow> bytes" where
  "be_bytes n w = map (\<lambda>i. ucast (drop_bit (8 * i) w)) (rev [0..<n])"

definition from_be :: "bytes \<Rightarrow> 'a::len word" where
  "from_be bs = foldl (\<lambda>acc b. push_bit 8 acc OR ucast b) 0 bs"

lemma length_be_bytes [simp, be_simps]: "length (be_bytes n w) = n"
  by (simp add: be_bytes_def)

lemma from_be_snoc: "from_be (bs @ [b]) = push_bit 8 (from_be bs) OR ucast b"
  by (simp add: from_be_def)

lemma bit_from_be:
  "bit (from_be bs :: 'a::len word) k \<longleftrightarrow>
     k < LENGTH('a) \<and> k < 8 * length bs \<and> bit (bs ! (length bs - 1 - k div 8)) (k mod 8)"
proof (induction bs arbitrary: k rule: rev_induct)
  case Nil
  then show ?case by (simp add: from_be_def)
next
  case (snoc b bs)
  show ?case
  proof (cases "k < 8")
    case True
    then show ?thesis
      by (auto simp: from_be_snoc bit_or_iff bit_push_bit_iff bit_ucast_iff nth_append)
  next
    case False
    have b: "\<not> bit b k" using False bit_imp_le_length [of b k] by auto
    have k: "k div 8 = Suc ((k - 8) div 8)" "k mod 8 = (k - 8) mod 8"
      using False by (simp_all add: le_div_geq le_mod_geq)
    have "bit (from_be (bs @ [b]) :: 'a word) k \<longleftrightarrow>
        k < LENGTH('a) \<and> bit (from_be bs :: 'a word) (k - 8)"
      using False b by (auto simp: from_be_snoc bit_or_iff bit_push_bit_iff bit_ucast_iff)
    also have "\<dots> \<longleftrightarrow> k < LENGTH('a) \<and> k - 8 < 8 * length bs \<and>
        bit (bs ! (length bs - 1 - (k - 8) div 8)) ((k - 8) mod 8)"
      by (auto simp: snoc.IH)
    also have "\<dots> \<longleftrightarrow> k < LENGTH('a) \<and> k < 8 * length (bs @ [b]) \<and>
        bit ((bs @ [b]) ! (length (bs @ [b]) - 1 - k div 8)) (k mod 8)"
      using False by (auto simp: k nth_append)
    finally show ?thesis .
  qed
qed

lemma nth_be_bytes: "i < n \<Longrightarrow> be_bytes n w ! i = ucast (drop_bit (8 * (n - 1 - i)) w)"
  by (simp add: be_bytes_def rev_nth)

lemma from_be_be_bytes:
  fixes w :: "'a::len word"
  assumes "LENGTH('a) \<le> 8 * n"
  shows "from_be (be_bytes n w) = w"
proof (rule bit_word_eqI)
  fix k assume k: "k < LENGTH('a)"
  then have "k div 8 < n" using assms by (simp add: less_mult_imp_div_less)
  then have "be_bytes n w ! (n - 1 - k div 8) = ucast (drop_bit (8 * (k div 8)) w)"
    by (simp add: nth_be_bytes)
  then show "bit (from_be (be_bytes n w) :: 'a word) k = bit w k"
    using k assms by (auto simp: bit_from_be bit_ucast_iff bit_drop_bit_eq)
qed

lemma be_bytes_from_be:
  assumes "length bs = n" "8 * n \<le> LENGTH('a)"
  shows "be_bytes n (from_be bs :: 'a::len word) = bs"
proof (rule nth_equalityI)
  show "length (be_bytes n (from_be bs :: 'a word)) = length bs" using assms by simp
next
  fix i assume "i < length (be_bytes n (from_be bs :: 'a word))"
  then have i: "i < n" by simp
  have "ucast (drop_bit (8 * (n - 1 - i)) (from_be bs :: 'a word)) = bs ! i"
  proof (rule bit_word_eqI)
    fix k assume k: "k < LENGTH(8)"
    have d: "(8 * (n - 1 - i) + k) div 8 = n - 1 - i" "(8 * (n - 1 - i) + k) mod 8 = k"
      using k by simp_all
    have lt: "8 * (n - 1 - i) + k < 8 * n" using k i by simp
    show "bit (ucast (drop_bit (8 * (n - 1 - i)) (from_be bs :: 'a word)) :: u8) k = bit (bs ! i) k"
      using k i lt assms by (simp add: bit_ucast_iff bit_drop_bit_eq bit_from_be d)
  qed
  with i show "be_bytes n (from_be bs :: 'a word) ! i = bs ! i" by (simp add: nth_be_bytes)
qed

section \<open>Flags above a number\<close>

lemma not_bit_small: "v < 2 ^ k \<Longrightarrow> k \<le> j \<Longrightarrow> \<not> bit (of_nat v :: 'a::len word) j"
proof -
  assume "v < 2 ^ k" "k \<le> j"
  then have "v < 2 ^ j" by (meson le_less_trans less_le_trans not_le one_le_numeral power_increasing)
  then have "\<not> bit v j" by (simp add: bit_iff_odd)
  then show ?thesis by (auto simp: bit_of_nat_iff)
qed

lemma flagged:
  fixes f g :: "'a::len word"
  assumes v: "v < 2 ^ k" and f: "f = push_bit k g" and g: "take_bit (LENGTH('a) - k) g = g"
  shows "drop_bit k (of_nat v OR f) = g" and "take_bit k (of_nat v OR f) = of_nat v"
proof -
  show "drop_bit k (of_nat v OR f) = g"
  proof (rule bit_word_eqI)
    fix j assume "j < LENGTH('a)"
    have "bit g j \<Longrightarrow> k + j < LENGTH('a)" using g by (metis bit_take_bit_iff less_diff_conv add.commute)
    then show "bit (drop_bit k (of_nat v OR f)) j = bit g j"
      using not_bit_small [OF v, of "k + j"] by (auto simp: f bit_drop_bit_eq bit_or_iff bit_push_bit_iff)
  qed
  show "take_bit k (of_nat v OR f) = of_nat v"
  proof (rule bit_word_eqI)
    fix j assume "j < LENGTH('a)"
    show "bit (take_bit k (of_nat v OR f)) j = bit (of_nat v :: 'a word) j"
      using not_bit_small [OF v, of j] by (cases "j < k") (auto simp: f bit_or_iff bit_push_bit_iff bit_take_bit_iff)
  qed
qed

section \<open>Chunks\<close>

text \<open>\<open>slice::chunks\<close>\<close>

function chunks :: "nat \<Rightarrow> 'a list \<Rightarrow> 'a list list" where
  "chunks n xs = (if xs = [] \<or> n = 0 then [] else take n xs # chunks n (drop n xs))"
  by pat_completeness auto
termination
  by (relation "measure (\<lambda>(n, xs). length xs)") auto

declare chunks.simps [simp del]

lemma chunks_Nil [simp]: "chunks n [] = []"
  by (simp add: chunks.simps)

lemma chunks_concat: "0 < n \<Longrightarrow> concat (chunks n xs) = xs"
  by (induction n xs rule: chunks.induct) (subst chunks.simps, auto)

lemma chunks_lengths: "c \<in> set (chunks n xs) \<Longrightarrow> c \<noteq> [] \<and> length c \<le> n"
proof (induction n xs rule: chunks.induct)
  case (1 n xs)
  have "chunks n xs = (if xs = [] \<or> n = 0 then [] else take n xs # chunks n (drop n xs))" by (rule chunks.simps)
  then show ?case using 1 by (auto split: if_splits)
qed

lemma chunks_length: "0 < n \<Longrightarrow> length (chunks n xs) = (length xs + (n - 1)) div n"
proof (induction n xs rule: chunks.induct)
  case (1 n xs)
  show ?case
  proof (cases "xs = []")
    case True
    then show ?thesis using 1(2) by simp
  next
    case False
    then have "length (chunks n xs) = Suc ((length (drop n xs) + (n - 1)) div n)"
      using 1 by (subst chunks.simps) simp
    also have "\<dots> = (length xs + (n - 1)) div n"
    proof (cases "length xs \<le> n")
      case True
      have "(length xs + (n - 1)) div n = Suc ((length xs - 1) div n)"
        using False 1(2) div_add_self1 [of n "length xs - 1"] by (cases xs) (simp_all add: add.commute)
      then show ?thesis using True False 1(2) by (cases xs) simp_all
    next
      case far: False
      then have "length xs + (n - 1) = n + (length (drop n xs) + (n - 1))" by simp
      then show ?thesis using 1(2) by (simp only: div_add_self1)
    qed
    finally show ?thesis .
  qed
qed

end
