(* ===== verification/Xr_Text.thy ===== *)
theory Xr_Text
  imports Xr_Prelude
begin

text \<open>
  Text as the Rust sources handle it. A \<open>str\<close> is its UTF-8 byte string; \<open>utf8_split\<close> is the strict
  decoder behind \<open>str::from_utf8\<close> and \<open>chars\<close> (no overlong forms, no surrogates, nothing above
  U+10FFFF), giving each scalar value with the bytes that encode it. The ASCII case operations
  and the two character classes the wire codecs test are here too.
\<close>

section \<open>UTF-8\<close>

definition utf8_cont :: "u8 \<Rightarrow> bool" where
  "utf8_cont b \<longleftrightarrow> 0x80 \<le> b \<and> b \<le> 0xBF"

definition utf8_ok2 :: "u8 \<Rightarrow> u8 \<Rightarrow> bool" where
  "utf8_ok2 a b \<longleftrightarrow> 0xC2 \<le> a \<and> a \<le> 0xDF \<and> utf8_cont b"

definition utf8_ok3 :: "u8 \<Rightarrow> u8 \<Rightarrow> u8 \<Rightarrow> bool" where
  "utf8_ok3 a b c \<longleftrightarrow> 0xE0 \<le> a \<and> a \<le> 0xEF \<and> utf8_cont b \<and> utf8_cont c \<and>
     (a = 0xE0 \<longrightarrow> 0xA0 \<le> b) \<and> (a = 0xED \<longrightarrow> b \<le> 0x9F)"

definition utf8_ok4 :: "u8 \<Rightarrow> u8 \<Rightarrow> u8 \<Rightarrow> u8 \<Rightarrow> bool" where
  "utf8_ok4 a b c d \<longleftrightarrow> 0xF0 \<le> a \<and> a \<le> 0xF4 \<and> utf8_cont b \<and> utf8_cont c \<and> utf8_cont d \<and>
     (a = 0xF0 \<longrightarrow> 0x90 \<le> b) \<and> (a = 0xF4 \<longrightarrow> b \<le> 0x8F)"

definition low6 :: "u8 \<Rightarrow> nat" where
  "low6 b = unat b mod 64"

fun utf8_split :: "bytes \<Rightarrow> (nat \<times> bytes) list option" where
  "utf8_split [] = Some []"
| "utf8_split (a # rest) =
    (if a < 0x80 then map_option ((#) (unat a, [a])) (utf8_split rest)
     else if a < 0xE0 then
       (case rest of
          b # r \<Rightarrow>
            if utf8_ok2 a b
            then map_option ((#) ((unat a mod 32) * 64 + low6 b, [a, b])) (utf8_split r)
            else None
        | _ \<Rightarrow> None)
     else if a < 0xF0 then
       (case rest of
          b # c # r \<Rightarrow>
            if utf8_ok3 a b c
            then map_option ((#) ((unat a mod 16) * 4096 + low6 b * 64 + low6 c, [a, b, c]))
                   (utf8_split r)
            else None
        | _ \<Rightarrow> None)
     else
       (case rest of
          b # c # d # r \<Rightarrow>
            if utf8_ok4 a b c d
            then map_option
                   ((#) ((unat a mod 8) * 262144 + low6 b * 4096 + low6 c * 64 + low6 d, [a, b, c, d]))
                   (utf8_split r)
            else None
        | _ \<Rightarrow> None))"

declare utf8_split.simps(2) [simp del]

definition utf8_valid :: "bytes \<Rightarrow> bool" where
  "utf8_valid s \<longleftrightarrow> utf8_split s \<noteq> None"

text \<open>\<open>std::str::from_utf8\<close>\<close>

definition from_utf8 :: "bytes \<Rightarrow> bytes option" where
  "from_utf8 s = (if utf8_valid s then Some s else None)"

text \<open>The scalar values of \<open>s.chars()\<close>.\<close>

definition chars :: "bytes \<Rightarrow> nat list" where
  "chars s = (case utf8_split s of None \<Rightarrow> [] | Some cs \<Rightarrow> map fst cs)"

lemma from_utf8_valid [simp]: "utf8_valid s \<Longrightarrow> from_utf8 s = Some s"
  by (simp add: from_utf8_def)

lemma from_utf8_Some [simp]: "from_utf8 s = Some t \<longleftrightarrow> utf8_valid s \<and> t = s"
  by (auto simp: from_utf8_def)

lemma from_utf8_None [simp]: "from_utf8 s = None \<longleftrightarrow> \<not> utf8_valid s"
  by (auto simp: from_utf8_def)

lemma utf8_split_concat: "utf8_split s = Some cs \<Longrightarrow> concat (map snd cs) = s"
proof (induction s arbitrary: cs rule: utf8_split.induct)
  case 1
  then show ?case by simp
next
  case (2 a rest)
  show ?case
    using "2.prems"
    by (auto simp: utf8_split.simps(2) split: if_splits list.splits intro: "2.IH")
qed

lemma utf8_split_ascii:
  "\<forall>b \<in> set s. b < 0x80 \<Longrightarrow> utf8_split s = Some (map (\<lambda>b. (unat b, [b])) s)"
  by (induction s) (simp_all add: utf8_split.simps(2))

lemma utf8_valid_ascii: "\<forall>b \<in> set s. b < 0x80 \<Longrightarrow> utf8_valid s"
  by (simp add: utf8_valid_def utf8_split_ascii)

section \<open>Character classes\<close>

text \<open>\<open>char::is_whitespace\<close> (the White_Space property) and \<open>char::is_control\<close> (category Cc).\<close>

definition is_whitespace :: "nat \<Rightarrow> bool" where
  "is_whitespace c \<longleftrightarrow> 0x09 \<le> c \<and> c \<le> 0x0D \<or> c = 0x20 \<or> c = 0x85 \<or> c = 0xA0 \<or> c = 0x1680 \<or>
     0x2000 \<le> c \<and> c \<le> 0x200A \<or> c = 0x2028 \<or> c = 0x2029 \<or> c = 0x202F \<or> c = 0x205F \<or> c = 0x3000"

definition is_control :: "nat \<Rightarrow> bool" where
  "is_control c \<longleftrightarrow> c \<le> 0x1F \<or> 0x7F \<le> c \<and> c \<le> 0x9F"

text \<open>\<open>name.chars().any(|c| c.is_control() || c.is_whitespace())\<close>\<close>

definition has_control_or_space :: "bytes \<Rightarrow> bool" where
  "has_control_or_space s \<longleftrightarrow> list_ex (\<lambda>c. is_control c \<or> is_whitespace c) (chars s)"

text \<open>\<open>str::trim\<close>\<close>

definition trim_str :: "bytes \<Rightarrow> bytes" where
  "trim_str s =
     (case utf8_split s of
        None \<Rightarrow> s
      | Some cs \<Rightarrow>
          concat (map snd (rev (dropWhile (\<lambda>c. is_whitespace (fst c))
            (rev (dropWhile (\<lambda>c. is_whitespace (fst c)) cs))))))"

section \<open>ASCII\<close>

definition is_ascii_uppercase :: "u8 \<Rightarrow> bool" where
  "is_ascii_uppercase b \<longleftrightarrow> 65 \<le> b \<and> b \<le> 90"

definition is_ascii_digit :: "u8 \<Rightarrow> bool" where
  "is_ascii_digit b \<longleftrightarrow> 48 \<le> b \<and> b \<le> 57"

definition is_ascii_alphanumeric :: "u8 \<Rightarrow> bool" where
  "is_ascii_alphanumeric b \<longleftrightarrow>
     is_ascii_digit b \<or> is_ascii_uppercase b \<or> 97 \<le> b \<and> b \<le> 122"

definition ascii_lower :: "u8 \<Rightarrow> u8" where
  "ascii_lower b = (if is_ascii_uppercase b then b + 32 else b)"

definition to_ascii_lowercase :: "bytes \<Rightarrow> bytes" where
  "to_ascii_lowercase s = map ascii_lower s"

definition eq_ignore_ascii_case :: "bytes \<Rightarrow> bytes \<Rightarrow> bool" where
  "eq_ignore_ascii_case s t \<longleftrightarrow> list_all2 (\<lambda>a b. ascii_lower a = ascii_lower b) s t"

text \<open>A byte string literal.\<close>

definition b_str :: "string \<Rightarrow> bytes" where
  "b_str s = map of_char s"

lemma length_to_ascii_lowercase [simp]: "length (to_ascii_lowercase s) = length s"
  by (simp add: to_ascii_lowercase_def)

lemma to_ascii_lowercase_append [simp]:
  "to_ascii_lowercase (s @ t) = to_ascii_lowercase s @ to_ascii_lowercase t"
  by (simp add: to_ascii_lowercase_def)

lemma to_ascii_lowercase_Cons [simp]:
  "to_ascii_lowercase (b # s) = ascii_lower b # to_ascii_lowercase s"
  by (simp add: to_ascii_lowercase_def)

lemma to_ascii_lowercase_Nil [simp]: "to_ascii_lowercase [] = []"
  by (simp add: to_ascii_lowercase_def)

lemma to_ascii_lowercase_drop [simp]:
  "to_ascii_lowercase (drop n s) = drop n (to_ascii_lowercase s)"
  by (simp add: to_ascii_lowercase_def drop_map)

lemma to_ascii_lowercase_take [simp]:
  "to_ascii_lowercase (take n s) = take n (to_ascii_lowercase s)"
  by (simp add: to_ascii_lowercase_def take_map)

lemma eq_ignore_ascii_case_iff:
  "eq_ignore_ascii_case s t \<longleftrightarrow> to_ascii_lowercase s = to_ascii_lowercase t"
  by (auto simp: eq_ignore_ascii_case_def to_ascii_lowercase_def list_eq_iff_nth_eq
      list_all2_conv_all_nth)

lemma ascii_lower_idem [simp]: "ascii_lower (ascii_lower b) = ascii_lower b"
proof -
  have "\<not> is_ascii_uppercase (b + 32)" if "is_ascii_uppercase b"
    using that by (auto simp: is_ascii_uppercase_def word_le_nat_alt unat_plus_if')
  then show ?thesis by (simp add: ascii_lower_def)
qed

lemma to_ascii_lowercase_idem [simp]:
  "to_ascii_lowercase (to_ascii_lowercase s) = to_ascii_lowercase s"
  by (simp add: to_ascii_lowercase_def)

lemma ascii_lower_dot [simp]: "ascii_lower b = 46 \<longleftrightarrow> b = 46" "ascii_lower 46 = 46"
proof -
  have "b + 32 \<noteq> 46" if "is_ascii_uppercase b"
    using that by (auto simp: is_ascii_uppercase_def word_le_nat_alt word_unat_eq_iff unat_plus_if')
  then show "ascii_lower b = 46 \<longleftrightarrow> b = 46"
    by (auto simp: ascii_lower_def is_ascii_uppercase_def)
  show "ascii_lower 46 = 46"
    by (simp add: ascii_lower_def is_ascii_uppercase_def)
qed

lemma lowercase_no_upper:
  "\<not> list_ex is_ascii_uppercase s \<Longrightarrow> to_ascii_lowercase s = s"
  by (induction s) (auto simp: ascii_lower_def)

text \<open>A number in a message: \<open>format!("{}", n)\<close>.\<close>

fun show_nat :: "nat \<Rightarrow> string" where
  "show_nat n =
     (if n < 10 then [char_of (48 + n)] else show_nat (n div 10) @ [char_of (48 + n mod 10)])"

declare show_nat.simps [simp del]

end
