(* ===== verification/Xr_Net.thy ===== *)
theory Xr_Net
  imports Xr_Text
begin

text \<open>
  Addresses, targets and sessions (\<open>crates/xray-routing/src/lib.rs\<close>), with the parts of
  \<open>std::net\<close> the sources call: octets, IPv4-mapped addresses and the address parser. An
  \<open>Ipv4Addr\<close> is its 32-bit value and an \<open>Ipv6Addr\<close> its 128-bit value, the integers
  \<open>u32::from\<close> and \<open>u128::from\<close> give.
\<close>

section \<open>Addresses\<close>

datatype ip_addr = V4 u32 | V6 u128

definition v4_octets :: "u32 \<Rightarrow> bytes" where
  "v4_octets a = be_bytes 4 a"

definition v6_octets :: "u128 \<Rightarrow> bytes" where
  "v6_octets a = be_bytes 16 a"

definition v4_from_octets :: "bytes \<Rightarrow> u32" where
  "v4_from_octets bs = from_be bs"

definition v6_from_octets :: "bytes \<Rightarrow> u128" where
  "v6_from_octets bs = from_be bs"

lemma length_v4_octets [simp, be_simps]: "length (v4_octets a) = 4"
  by (simp add: v4_octets_def)

lemma length_v6_octets [simp, be_simps]: "length (v6_octets a) = 16"
  by (simp add: v6_octets_def)

lemma v4_from_octets_octets [simp, be_simps]: "v4_from_octets (v4_octets a) = a"
  by (simp add: v4_from_octets_def v4_octets_def from_be_be_bytes)

lemma v6_from_octets_octets [simp, be_simps]: "v6_from_octets (v6_octets a) = a"
  by (simp add: v6_from_octets_def v6_octets_def from_be_be_bytes)

lemma v4_octets_from_octets [be_simps]: "length bs = 4 \<Longrightarrow> v4_octets (v4_from_octets bs) = bs"
  by (simp add: v4_from_octets_def v4_octets_def be_bytes_from_be)

lemma v6_octets_from_octets [be_simps]: "length bs = 16 \<Longrightarrow> v6_octets (v6_from_octets bs) = bs"
  by (simp add: v6_from_octets_def v6_octets_def be_bytes_from_be)

text \<open>Port and length fields: \<open>u16::to_be_bytes\<close>, \<open>u32::to_be_bytes\<close> and their inverses.\<close>

definition be16 :: "u16 \<Rightarrow> bytes" where
  "be16 w = be_bytes 2 w"

definition be32 :: "u32 \<Rightarrow> bytes" where
  "be32 w = be_bytes 4 w"

definition from_be16 :: "bytes \<Rightarrow> u16" where
  "from_be16 bs = from_be bs"

definition from_be32 :: "bytes \<Rightarrow> u32" where
  "from_be32 bs = from_be bs"

lemma length_be16 [simp, be_simps]: "length (be16 w) = 2"
  by (simp add: be16_def)

lemma length_be32 [simp, be_simps]: "length (be32 w) = 4"
  by (simp add: be32_def)

lemma from_be16_be16 [simp, be_simps]: "from_be16 (be16 w) = w"
  by (simp add: from_be16_def be16_def from_be_be_bytes)

lemma from_be32_be32 [simp, be_simps]: "from_be32 (be32 w) = w"
  by (simp add: from_be32_def be32_def from_be_be_bytes)

lemma be16_from_be16 [be_simps]: "length bs = 2 \<Longrightarrow> be16 (from_be16 bs) = bs"
  by (simp add: from_be16_def be16_def be_bytes_from_be)

lemma be32_from_be32 [be_simps]: "length bs = 4 \<Longrightarrow> be32 (from_be32 bs) = bs"
  by (simp add: from_be32_def be32_def be_bytes_from_be)

lemma be16_inj [simp]: "be16 a = be16 b \<longleftrightarrow> a = b"
  by (metis from_be16_be16)

lemma be16_split:
  obtains a b where "be16 w = [a, b]" "from_be16 [a, b] = w"
proof -
  have w: "be16 w = [ucast (drop_bit 8 w), ucast w]"
    by (simp add: be16_def be_bytes_def upt_conv_Cons)
  show thesis using from_be16_be16 [of w] by (intro that [OF w]) (simp add: w)
qed

text \<open>\<open>IpAddr::to_canonical\<close>: \<open>::ffff:a.b.c.d\<close> is \<open>a.b.c.d\<close>.\<close>

definition to_ipv4_mapped :: "u128 \<Rightarrow> u32 option" where
  "to_ipv4_mapped a = (if drop_bit 32 a = 0xFFFF then Some (ucast a) else None)"

definition to_canonical :: "ip_addr \<Rightarrow> ip_addr" where
  "to_canonical a =
     (case a of
        V6 w \<Rightarrow> (case to_ipv4_mapped w of Some m \<Rightarrow> V4 m | None \<Rightarrow> V6 w)
      | V4 w \<Rightarrow> V4 w)"

section \<open>Targets and sessions\<close>

datatype network = Tcp | Udp

datatype target_addr = TIp ip_addr | TDomain bytes

record target =
  t_addr :: target_addr
  t_port :: u16
  t_network :: network

definition target_new :: "target_addr \<Rightarrow> u16 \<Rightarrow> network \<Rightarrow> target" where
  "target_new a p n = \<lparr>t_addr = a, t_port = p, t_network = n\<rparr>"

lemma target_new_sel [simp]:
  "t_addr (target_new a p n) = a" "t_port (target_new a p n) = p" "t_network (target_new a p n) = n"
  by (simp_all add: target_new_def)

lemma target_new_eq [simp]: "target_new (t_addr t) (t_port t) (t_network t) = t"
  by (simp add: target_new_def)

record session =
  inbound_tag :: bytes
  s_target :: target

definition session_new :: "bytes \<Rightarrow> target \<Rightarrow> session" where
  "session_new tag t = \<lparr>inbound_tag = tag, s_target = t\<rparr>"

text \<open>A datagram a UDP session delivers (\<open>crates/xray-core-rs/src/outbound/datagram.rs\<close>).\<close>

record datagram =
  d_source :: target
  d_payload :: bytes

datatype routing_error = NoOutbound

record static_router =
  default_outbound :: bytes

definition static_router_new :: "bytes \<Rightarrow> static_router" where
  "static_router_new d = \<lparr>default_outbound = d\<rparr>"

definition pick_outbound :: "static_router \<Rightarrow> session \<Rightarrow> routing_error + bytes" where
  "pick_outbound r s =
     (if default_outbound r = [] then Inl NoOutbound else Inr (default_outbound r))"

text \<open>A target is well formed when its domain is text, as the type \<open>String\<close> guarantees.\<close>

fun addr_wf :: "target_addr \<Rightarrow> bool" where
  "addr_wf (TIp _) = True"
| "addr_wf (TDomain d) = utf8_valid d"

section \<open>Parsing addresses\<close>

text \<open>
  \<open>core::net::parser\<close>: every reader either consumes what it matched or fails and leaves its input
  where it was. \<open>read_number radix max zeros bound\<close> reads at most \<open>max\<close> digits of a number below
  \<open>bound\<close>; \<open>read_separator c i p\<close> expects \<open>c\<close> before every group but the first.
\<close>

definition digit_of :: "nat \<Rightarrow> u8 \<Rightarrow> nat option" where
  "digit_of radix b =
     (let d = (if is_ascii_digit b then Some (unat b - 48)
               else if 97 \<le> b \<and> b \<le> 122 then Some (unat b - 87)
               else if 65 \<le> b \<and> b \<le> 90 then Some (unat b - 55)
               else None)
      in case d of None \<Rightarrow> None | Some v \<Rightarrow> if v < radix then Some v else None)"

definition read_number ::
    "nat \<Rightarrow> nat \<Rightarrow> bool \<Rightarrow> nat \<Rightarrow> bytes \<Rightarrow> (nat \<times> bytes) option" where
  "read_number radix max_digits allow_zero_prefix bound s =
     (let ds = takeWhile (\<lambda>b. digit_of radix b \<noteq> None) s;
          v = foldl (\<lambda>acc b. acc * radix + the (digit_of radix b)) 0 ds
      in if ds = [] \<or> max_digits < length ds then None
         else if \<not> allow_zero_prefix \<and> hd ds = 48 \<and> 1 < length ds then None
         else if v < bound then Some (v, drop (length ds) s) else None)"

definition read_separator ::
    "u8 \<Rightarrow> nat \<Rightarrow> (bytes \<Rightarrow> ('a \<times> bytes) option) \<Rightarrow> bytes \<Rightarrow> ('a \<times> bytes) option" where
  "read_separator c i p s =
     (if i = 0 then p s
      else case s of b # r \<Rightarrow> if b = c then p r else None | [] \<Rightarrow> None)"

fun read_ipv4_groups :: "nat \<Rightarrow> nat \<Rightarrow> bytes \<Rightarrow> (bytes \<times> bytes) option" where
  "read_ipv4_groups 0 i s = Some ([], s)"
| "read_ipv4_groups (Suc n) i s =
     (case read_separator 46 i (read_number 10 3 False 256) s of
        None \<Rightarrow> None
      | Some (v, r) \<Rightarrow> map_option (\<lambda>(gs, r'). (of_nat v # gs, r')) (read_ipv4_groups n (Suc i) r))"

definition read_ipv4_addr :: "bytes \<Rightarrow> (bytes \<times> bytes) option" where
  "read_ipv4_addr s = read_ipv4_groups 4 0 s"

fun read_groups :: "nat \<Rightarrow> nat \<Rightarrow> bytes \<Rightarrow> bytes \<times> bool \<times> bytes" where
  "read_groups 0 i s = ([], False, s)"
| "read_groups (Suc n) i s =
     (case (if n = 0 then None else read_separator 58 i read_ipv4_addr s) of
        Some (octets, r) \<Rightarrow> (octets, True, r)
      | None \<Rightarrow>
          (case read_separator 58 i (read_number 16 4 True 65536) s of
             None \<Rightarrow> ([], False, s)
           | Some (g, r) \<Rightarrow>
               (case read_groups n (Suc i) r of
                  (gs, v4, r') \<Rightarrow> (be16 (of_nat g) @ gs, v4, r'))))"

definition read_ipv6_addr :: "bytes \<Rightarrow> (bytes \<times> bytes) option" where
  "read_ipv6_addr s =
     (case read_groups 8 0 s of
        (head, v4, r) \<Rightarrow>
          if length head = 16 then Some (head, r)
          else if v4 then None
          else (case r of
                  c1 # c2 # r1 \<Rightarrow>
                    if c1 = 58 \<and> c2 = 58
                    then (case read_groups (8 - (length head div 2 + 1)) 0 r1 of
                            (tail, _, r2) \<Rightarrow>
                              Some (head @ replicate (16 - length head - length tail) 0 @ tail, r2))
                    else None
                | _ \<Rightarrow> None))"

text \<open>\<open>str::parse::<IpAddr>\<close>: IPv4 first, then IPv6, and nothing may be left over.\<close>

definition parse_ip :: "bytes \<Rightarrow> ip_addr option" where
  "parse_ip s =
     (case read_ipv4_addr s of
        Some (o4, r) \<Rightarrow> if r = [] then Some (V4 (v4_from_octets o4)) else None
      | None \<Rightarrow>
          (case read_ipv6_addr s of
             Some (o6, r) \<Rightarrow> if r = [] then Some (V6 (v6_from_octets o6)) else None
           | None \<Rightarrow> None))"

end
