(* ===== verification/Xr_IpSet.thy ===== *)
theory Xr_IpSet
  imports Xr_Net "HOL-Library.Product_Lexorder"
begin

text \<open>
  The sorted, merged IP range index of \<open>crates/xray-routing/src/ip_range_set.rs\<close> and the DNS
  response filter of \<open>ip_filter.rs\<close> on top of it. The trait \<open>AddressBits\<close> with its two
  implementations is the word length: every range operation is polymorphic in \<open>'a::len word\<close> and
  used at 32 and 128 bits. The in-place merge loop is modelled with its read and write
  indices and shown equal to a fold over the sorted ranges; membership through the binary
  search is shown equal to membership in one of the inserted prefixes.
\<close>

section \<open>Prefixes\<close>

definition canonicalize_ip :: "ip_addr \<Rightarrow> ip_addr" where
  "canonicalize_ip a =
     (case a of
        V6 w \<Rightarrow> (case to_ipv4_mapped w of Some m \<Rightarrow> V4 m | None \<Rightarrow> V6 w)
      | V4 w \<Rightarrow> V4 w)"

fun family_width :: "ip_addr \<Rightarrow> u8" where
  "family_width (V4 _) = 32"
| "family_width (V6 _) = 128"

record invalid_cidr_prefix =
  e_address :: ip_addr
  e_prefix_len :: u8
  e_max_prefix :: u8

record cidr =
  cidr_network :: ip_addr
  cidr_prefix_len :: u8

definition cidr_new :: "ip_addr \<Rightarrow> u8 \<Rightarrow> invalid_cidr_prefix + cidr" where
  "cidr_new a p =
     (let network = canonicalize_ip a; max_prefix = family_width network
      in if p > max_prefix
         then Inl \<lparr>e_address = network, e_prefix_len = p, e_max_prefix = max_prefix\<rparr>
         else Inr \<lparr>cidr_network = network, cidr_prefix_len = p\<rparr>)"

text \<open>\<open>None\<close> is the compile-time panic.\<close>

definition cidr_new_const :: "ip_addr \<Rightarrow> u8 \<Rightarrow> cidr option" where
  "cidr_new_const a p = (case cidr_new a p of Inr c \<Rightarrow> Some c | Inl _ \<Rightarrow> None)"

definition cidr_host :: "ip_addr \<Rightarrow> cidr" where
  "cidr_host a =
     (let address = canonicalize_ip a
      in \<lparr>cidr_network = address, cidr_prefix_len = family_width address\<rparr>)"

definition ipv4_new :: "u8 \<Rightarrow> u8 \<Rightarrow> u8 \<Rightarrow> u8 \<Rightarrow> ip_addr" where
  "ipv4_new a b c d = V4 (v4_from_octets [a, b, c, d])"

definition private_table :: "(ip_addr \<times> u8) list" where
  "private_table =
     [(ipv4_new 0 0 0 0, 8), (ipv4_new 10 0 0 0, 8), (ipv4_new 100 64 0 0, 10),
      (ipv4_new 127 0 0 0, 8), (ipv4_new 169 254 0 0, 16), (ipv4_new 172 16 0 0, 12),
      (ipv4_new 192 0 0 0, 24), (ipv4_new 192 0 2 0, 24), (ipv4_new 192 88 99 0, 24),
      (ipv4_new 192 168 0 0, 16), (ipv4_new 198 18 0 0, 15), (ipv4_new 198 51 100 0, 24),
      (ipv4_new 203 0 113 0, 24), (ipv4_new 224 0 0 0, 3),
      (V6 0, 127), (V6 (push_bit 112 0xfc00), 7), (V6 (push_bit 112 0xfe80), 10),
      (V6 (push_bit 112 0xff00), 8)]"

definition private_networks :: "cidr list" where
  "private_networks = List.map_filter (\<lambda>(a, p). cidr_new_const a p) private_table"

section \<open>Ranges\<close>

record 'a inclusive_range =
  r_start :: 'a
  r_end :: 'a

definition prefix_mask :: "u8 \<Rightarrow> 'a::len word" where
  "prefix_mask p = (if p = 0 then 0 else push_bit (LENGTH('a) - unat p) (- 1))"

definition saturating_successor :: "'a::len word \<Rightarrow> 'a word" where
  "saturating_successor w = (if w = - 1 then - 1 else w + 1)"

definition from_prefix :: "'a::len word \<Rightarrow> u8 \<Rightarrow> 'a word inclusive_range" where
  "from_prefix network p =
     (let m = prefix_mask p; s = network AND m in \<lparr>r_start = s, r_end = s OR NOT m\<rparr>)"

definition range_contains :: "'a::len word inclusive_range \<Rightarrow> 'a word \<Rightarrow> bool" where
  "range_contains r a \<longleftrightarrow> r_start r \<le> a \<and> a \<le> r_end r"

definition cidr_contains :: "cidr \<Rightarrow> ip_addr \<Rightarrow> bool" where
  "cidr_contains c a =
     (case (cidr_network c, canonicalize_ip a) of
        (V4 n, V4 x) \<Rightarrow> range_contains (from_prefix n (cidr_prefix_len c)) x
      | (V6 n, V6 x) \<Rightarrow> range_contains (from_prefix n (cidr_prefix_len c)) x
      | _ \<Rightarrow> False)"

text \<open>One turn of the loop of \<open>merge_ranges\<close>: \<open>ranges\<close> is the buffer, \<open>w\<close> the write index.\<close>

definition merge_step ::
    "'a::len word inclusive_range list \<times> nat \<Rightarrow> nat \<Rightarrow> 'a word inclusive_range list \<times> nat" where
  "merge_step st i =
     (case st of (ranges, w) \<Rightarrow>
        let current = ranges ! i in
        if 0 < w \<and> r_start current \<le> saturating_successor (r_end (ranges ! (w - 1)))
        then (ranges[w - 1 := (ranges ! (w - 1))
                \<lparr>r_end := max (r_end (ranges ! (w - 1))) (r_end current)\<rparr>], w)
        else (ranges[w := current], Suc w))"

definition sort_ranges :: "'a::len word inclusive_range list \<Rightarrow> 'a word inclusive_range list" where
  "sort_ranges rs = sort_key (\<lambda>r. (r_start r, r_end r)) rs"

definition merge_ranges :: "'a::len word inclusive_range list \<Rightarrow> 'a word inclusive_range list" where
  "merge_ranges rs =
     (case foldl merge_step (sort_ranges rs, 0) [0..<length rs] of
        (ranges, w) \<Rightarrow> take w ranges)"

text \<open>
  \<open>slice::partition_point\<close> is a binary search: \<open>base\<close> and \<open>size\<close> delimit the window, halved until
  one element is left.
\<close>

function partition_loop :: "('a \<Rightarrow> bool) \<Rightarrow> 'a list \<Rightarrow> nat \<Rightarrow> nat \<Rightarrow> nat" where
  "partition_loop p xs base size' =
     (if 1 < size'
      then partition_loop p xs (if p (xs ! (base + size' div 2)) then base + size' div 2 else base)
             (size' - size' div 2)
      else base)"
  by pat_completeness auto
termination
  by (relation "measure (\<lambda>(p, xs, base, size'). size')") auto

declare partition_loop.simps [simp del]

definition partition_point :: "('a \<Rightarrow> bool) \<Rightarrow> 'a list \<Rightarrow> nat" where
  "partition_point p xs =
     (if xs = [] then 0
      else let base = partition_loop p xs 0 (length xs) in base + (if p (xs ! base) then 1 else 0))"

definition ranges_contain :: "'a::len word inclusive_range list \<Rightarrow> 'a word \<Rightarrow> bool" where
  "ranges_contain ranges a =
     (case ranges of
        [r] \<Rightarrow> range_contains r a
      | _ \<Rightarrow> let insertion = partition_point (\<lambda>r. r_start r \<le> a) ranges
             in 0 < insertion \<and> a \<le> r_end (ranges ! (insertion - 1)))"

section \<open>Range sets\<close>

record ip_range_set =
  set_ipv4 :: "u32 inclusive_range list"
  set_ipv6 :: "u128 inclusive_range list"

definition range_set_is_empty :: "ip_range_set \<Rightarrow> bool" where
  "range_set_is_empty s \<longleftrightarrow> set_ipv4 s = [] \<and> set_ipv6 s = []"

definition range_count :: "ip_range_set \<Rightarrow> nat" where
  "range_count s = length (set_ipv4 s) + length (set_ipv6 s)"

definition range_set_lookup :: "ip_range_set \<Rightarrow> ip_addr \<Rightarrow> bool option" where
  "range_set_lookup s a =
     (case canonicalize_ip a of
        V4 x \<Rightarrow> if set_ipv4 s \<noteq> [] then Some (ranges_contain (set_ipv4 s) x) else None
      | V6 x \<Rightarrow> if set_ipv6 s \<noteq> [] then Some (ranges_contain (set_ipv6 s) x) else None)"

definition range_set_contains :: "ip_range_set \<Rightarrow> ip_addr \<Rightarrow> bool" where
  "range_set_contains s a =
     (case canonicalize_ip a of
        V4 x \<Rightarrow> ranges_contain (set_ipv4 s) x
      | V6 x \<Rightarrow> ranges_contain (set_ipv6 s) x)"

record ip_range_set_builder =
  b_ipv4 :: "u32 inclusive_range list"
  b_ipv6 :: "u128 inclusive_range list"

definition range_builder_new :: ip_range_set_builder where
  "range_builder_new = \<lparr>b_ipv4 = [], b_ipv6 = []\<rparr>"

definition range_insert_cidr :: "cidr \<Rightarrow> ip_range_set_builder \<Rightarrow> ip_range_set_builder" where
  "range_insert_cidr c b =
     (case cidr_network c of
        V4 n \<Rightarrow> b\<lparr>b_ipv4 := b_ipv4 b @ [from_prefix n (cidr_prefix_len c)]\<rparr>
      | V6 n \<Rightarrow> b\<lparr>b_ipv6 := b_ipv6 b @ [from_prefix n (cidr_prefix_len c)]\<rparr>)"

definition range_insert_ip :: "ip_addr \<Rightarrow> ip_range_set_builder \<Rightarrow> ip_range_set_builder" where
  "range_insert_ip a b = range_insert_cidr (cidr_host a) b"

definition range_insert_private :: "ip_range_set_builder \<Rightarrow> ip_range_set_builder" where
  "range_insert_private b = fold range_insert_cidr private_networks b"

definition range_build :: "ip_range_set_builder \<Rightarrow> ip_range_set" where
  "range_build b = \<lparr>set_ipv4 = merge_ranges (b_ipv4 b), set_ipv6 = merge_ranges (b_ipv6 b)\<rparr>"

section \<open>Matcher sets\<close>

record ip_matcher_set =
  positive :: ip_range_set
  inverse_set :: ip_range_set

definition ip_matcher_is_empty :: "ip_matcher_set \<Rightarrow> bool" where
  "ip_matcher_is_empty s \<longleftrightarrow> range_set_is_empty (positive s) \<and> range_set_is_empty (inverse_set s)"

definition ip_matcher_range_count :: "ip_matcher_set \<Rightarrow> nat" where
  "ip_matcher_range_count s = range_count (positive s) + range_count (inverse_set s)"

definition ip_matcher_matches :: "ip_matcher_set \<Rightarrow> ip_addr \<Rightarrow> bool" where
  "ip_matcher_matches s a \<longleftrightarrow>
     range_set_contains (positive s) a \<or>
     (\<not> range_set_is_empty (inverse_set s) \<and> range_set_lookup (inverse_set s) a = Some False)"

record ip_matcher_set_builder =
  b_positive :: ip_range_set_builder
  b_inverse :: ip_range_set_builder
  b_matcher_count :: nat

definition matcher_builder_new :: ip_matcher_set_builder where
  "matcher_builder_new =
     \<lparr>b_positive = range_builder_new, b_inverse = range_builder_new, b_matcher_count = 0\<rparr>"

definition update_ranges ::
    "bool \<Rightarrow> (ip_range_set_builder \<Rightarrow> ip_range_set_builder) \<Rightarrow>
     ip_matcher_set_builder \<Rightarrow> ip_matcher_set_builder" where
  "update_ranges inverted f b =
     (if inverted then b\<lparr>b_inverse := f (b_inverse b)\<rparr> else b\<lparr>b_positive := f (b_positive b)\<rparr>)"

definition matcher_insert_cidr ::
    "cidr \<Rightarrow> bool \<Rightarrow> ip_matcher_set_builder \<Rightarrow> ip_matcher_set_builder" where
  "matcher_insert_cidr c inverted b =
     (let b' = update_ranges inverted (range_insert_cidr c) b
      in b'\<lparr>b_matcher_count := b_matcher_count b' + 1\<rparr>)"

definition matcher_insert_ip ::
    "ip_addr \<Rightarrow> bool \<Rightarrow> ip_matcher_set_builder \<Rightarrow> ip_matcher_set_builder" where
  "matcher_insert_ip a inverted b = matcher_insert_cidr (cidr_host a) inverted b"

definition matcher_insert_private :: "bool \<Rightarrow> ip_matcher_set_builder \<Rightarrow> ip_matcher_set_builder" where
  "matcher_insert_private inverted b =
     (let b' = update_ranges inverted range_insert_private b
      in b'\<lparr>b_matcher_count := b_matcher_count b' + 1\<rparr>)"

definition matcher_build :: "ip_matcher_set_builder \<Rightarrow> ip_matcher_set" where
  "matcher_build b =
     \<lparr>positive = range_build (b_positive b), inverse_set = range_build (b_inverse b)\<rparr>"

section \<open>DNS response filters\<close>

record dns_ip_filter =
  f_custom :: ip_matcher_set
  f_geoip :: ip_matcher_set
  f_soft :: bool
  f_matcher_count :: nat

definition filter_is_empty :: "dns_ip_filter \<Rightarrow> bool" where
  "filter_is_empty f \<longleftrightarrow> ip_matcher_is_empty (f_custom f) \<and> ip_matcher_is_empty (f_geoip f)"

definition compiled_range_count :: "dns_ip_filter \<Rightarrow> nat" where
  "compiled_range_count f = ip_matcher_range_count (f_custom f) + ip_matcher_range_count (f_geoip f)"

definition filter_matches :: "dns_ip_filter \<Rightarrow> ip_addr \<Rightarrow> bool" where
  "filter_matches f a \<longleftrightarrow> ip_matcher_matches (f_custom f) a \<or> ip_matcher_matches (f_geoip f) a"

text \<open>\<open>retain_preferred\<close> returns the kept addresses with its verdict.\<close>

definition retain_preferred ::
    "dns_ip_filter \<Rightarrow> ip_addr list \<Rightarrow> bool \<Rightarrow> ip_addr list \<times> bool" where
  "retain_preferred f addresses keep_matches =
     (if filter_is_empty f then (addresses, True)
      else let preferred = (\<lambda>a. filter_matches f a = keep_matches) in
           if f_soft f \<and> \<not> list_ex preferred addresses then (addresses, True)
           else let kept = filter preferred addresses in (kept, kept \<noteq> []))"

definition apply_expected :: "dns_ip_filter \<Rightarrow> ip_addr list \<Rightarrow> ip_addr list \<times> bool" where
  "apply_expected f addresses = retain_preferred f addresses True"

definition apply_unexpected :: "dns_ip_filter \<Rightarrow> ip_addr list \<Rightarrow> ip_addr list \<times> bool" where
  "apply_unexpected f addresses = retain_preferred f addresses False"

record dns_ip_filter_builder =
  fb_custom :: ip_matcher_set_builder
  fb_geoip :: ip_matcher_set_builder
  fb_soft :: bool

definition filter_builder_new :: dns_ip_filter_builder where
  "filter_builder_new =
     \<lparr>fb_custom = matcher_builder_new, fb_geoip = matcher_builder_new, fb_soft = False\<rparr>"

definition filter_build :: "dns_ip_filter_builder \<Rightarrow> dns_ip_filter" where
  "filter_build b =
     \<lparr>f_custom = matcher_build (fb_custom b), f_geoip = matcher_build (fb_geoip b),
      f_soft = fb_soft b,
      f_matcher_count = b_matcher_count (fb_custom b) + b_matcher_count (fb_geoip b)\<rparr>"

section \<open>Prefix membership\<close>

lemma prefix_mask_eq: "prefix_mask p = (NOT (mask (LENGTH('a) - unat p)) :: 'a::len word)"
proof (cases "p = 0")
  case True
  then show ?thesis by (simp add: prefix_mask_def)
next
  case False
  show ?thesis
    by (rule bit_word_eqI) (auto simp: prefix_mask_def False bit_push_bit_iff bit_not_iff bit_mask_iff)
qed

lemma unat_prefix_start:
  "unat (r_start (from_prefix n p :: 'a::len word inclusive_range)) =
     unat n div 2 ^ (LENGTH('a) - unat p) * 2 ^ (LENGTH('a) - unat p)"
proof -
  let ?k = "LENGTH('a) - unat p"
  have "n AND NOT (mask ?k) = push_bit ?k (drop_bit ?k n)"
    by (rule bit_word_eqI)
      (auto simp: bit_and_iff bit_not_iff bit_mask_iff bit_push_bit_iff bit_drop_bit_eq)
  moreover have "unat (push_bit ?k (drop_bit ?k n)) = push_bit ?k (drop_bit ?k (unat n))"
  proof (rule bit_eqI)
    fix i
    show "bit (unat (push_bit ?k (drop_bit ?k n))) i = bit (push_bit ?k (drop_bit ?k (unat n))) i"
      using bit_imp_le_length [of n i]
      by (auto simp: bit_unsigned_iff bit_push_bit_iff bit_drop_bit_eq)
  qed
  ultimately show ?thesis
    by (simp add: from_prefix_def prefix_mask_eq Let_def push_bit_eq_mult drop_bit_eq_div)
qed

lemma unat_prefix_end:
  "unat (r_end (from_prefix n p :: 'a::len word inclusive_range)) =
     unat n div 2 ^ (LENGTH('a) - unat p) * 2 ^ (LENGTH('a) - unat p) + (2 ^ (LENGTH('a) - unat p) - 1)"
proof -
  let ?k = "LENGTH('a) - unat p" and ?r = "from_prefix n p :: 'a word inclusive_range"
  have e: "r_end ?r = r_start ?r OR mask ?k"
    by (simp add: from_prefix_def prefix_mask_eq Let_def)
  have "unat (r_end ?r) = unat (r_start ?r) OR unat (mask ?k :: 'a word)"
    by (simp add: e unsigned_or_eq)
  also have "unat (mask ?k :: 'a word) = mask ?k"
    by (rule bit_eqI) (auto simp: bit_unsigned_iff bit_mask_iff)
  also have "unat (r_start ?r) OR mask ?k = unat (r_start ?r) + mask ?k"
  proof (rule disjunctive_add_eq_or [symmetric])
    have s: "unat (r_start ?r) = push_bit ?k (drop_bit ?k (unat n))"
      by (simp add: unat_prefix_start push_bit_eq_mult drop_bit_eq_div)
    show "unat (r_start ?r) AND mask ?k = 0"
      by (rule bit_eqI) (auto simp: s bit_and_iff bit_push_bit_iff bit_mask_iff)
  qed
  finally show ?thesis by (simp add: unat_prefix_start mask_eq_exp_minus_1)
qed

lemma div_block:
  assumes "0 < (m::nat)"
  shows "q * m \<le> x \<and> x \<le> q * m + (m - 1) \<longleftrightarrow> x div m = q"
proof
  assume "q * m \<le> x \<and> x \<le> q * m + (m - 1)"
  with assms show "x div m = q" by (intro div_nat_eqI) (auto simp: algebra_simps)
next
  assume q: "x div m = q"
  have "x = q * m + x mod m" using div_mult_mod_eq [of x m] q by simp
  moreover have "x mod m \<le> m - 1" using assms mod_less_divisor [of m x] by linarith
  ultimately show "q * m \<le> x \<and> x \<le> q * m + (m - 1)" by linarith
qed

theorem range_contains_from_prefix:
  fixes a n :: "'a::len word"
  shows "range_contains (from_prefix n p) a \<longleftrightarrow>
    drop_bit (LENGTH('a) - unat p) a = drop_bit (LENGTH('a) - unat p) n"
proof -
  let ?k = "LENGTH('a) - unat p"
  have d: "unat (drop_bit ?k w) = unat w div 2 ^ ?k" for w :: "'a word"
  proof -
    have "unat (drop_bit ?k w) = drop_bit ?k (unat w)"
      by (rule bit_eqI) (auto simp: bit_unsigned_iff bit_drop_bit_eq dest: bit_imp_le_length)
    then show ?thesis by (simp add: drop_bit_eq_div)
  qed
  have "range_contains (from_prefix n p) a \<longleftrightarrow> unat a div 2 ^ ?k = unat n div 2 ^ ?k"
    using div_block [of "2 ^ ?k" "unat n div 2 ^ ?k" "unat a"]
    by (simp add: range_contains_def word_le_nat_alt unat_prefix_start unat_prefix_end)
  then show ?thesis by (simp add: word_unat_eq_iff d)
qed

definition range_valid :: "'a::len word inclusive_range \<Rightarrow> bool" where
  "range_valid r \<longleftrightarrow> r_start r \<le> r_end r"

lemma from_prefix_valid: "range_valid (from_prefix n p)"
  by (simp only: range_valid_def word_le_nat_alt unat_prefix_start unat_prefix_end le_add1)

section \<open>Binary search\<close>

lemma partition_loop_inv:
  assumes "0 < size'" "base + size' \<le> length xs" "n \<le> base + size'" "base = 0 \<or> base < n"
    and "\<And>i. i < n \<Longrightarrow> p (xs ! i)" "\<And>i. n \<le> i \<Longrightarrow> i < length xs \<Longrightarrow> \<not> p (xs ! i)"
  shows "let b = partition_loop p xs base size' in
    b < length xs \<and> n \<le> Suc b \<and> (b = 0 \<or> b < n)"
  using assms
proof (induction p xs base size' rule: partition_loop.induct)
  case (1 p xs base size')
  show ?case
  proof (cases "1 < size'")
    case True
    let ?m = "base + size' div 2"
    have m: "?m < length xs" using True 1(3) by linarith
    have "p (xs ! ?m) \<longleftrightarrow> ?m < n" using 1(6,7) m by (meson not_le_imp_less)
    then have "let b = partition_loop p xs (if p (xs ! ?m) then ?m else base) (size' - size' div 2) in
        b < length xs \<and> n \<le> Suc b \<and> (b = 0 \<or> b < n)"
      by (intro "1.IH") (use True 1(2-7) in auto)
    then show ?thesis
      using True by (subst partition_loop.simps) simp
  next
    case False
    then show ?thesis using 1(2-5) by (subst partition_loop.simps) (auto simp: Let_def)
  qed
qed

lemma partition_point_eq:
  assumes "n \<le> length xs" "\<And>i. i < n \<Longrightarrow> p (xs ! i)"
    and "\<And>i. n \<le> i \<Longrightarrow> i < length xs \<Longrightarrow> \<not> p (xs ! i)"
  shows "partition_point p xs = n"
proof (cases "xs = []")
  case True
  then show ?thesis using assms(1) by (simp add: partition_point_def)
next
  case False
  let ?b = "partition_loop p xs 0 (length xs)"
  have b: "?b < length xs \<and> n \<le> Suc ?b \<and> (?b = 0 \<or> ?b < n)"
    using partition_loop_inv [of "length xs" 0 xs n p] assms False by (simp add: Let_def)
  then have "p (xs ! ?b) \<longleftrightarrow> ?b < n" using assms(2,3) by (meson not_le_imp_less)
  with b False show ?thesis by (auto simp: partition_point_def Let_def)
qed

section \<open>Merging\<close>

definition merge_absorb ::
    "'a::len word inclusive_range list \<Rightarrow> 'a word inclusive_range \<Rightarrow> 'a word inclusive_range list" where
  "merge_absorb acc cur =
     (if acc \<noteq> [] \<and> r_start cur \<le> saturating_successor (r_end (last acc))
      then butlast acc @ [(last acc)\<lparr>r_end := max (r_end (last acc)) (r_end cur)\<rparr>]
      else acc @ [cur])"

lemma take_list_update_last:
  "0 < w \<Longrightarrow> w \<le> length xs \<Longrightarrow> take w (xs[w - 1 := y]) = butlast (take w xs) @ [y]"
  by (cases w) (simp_all add: take_Suc_conv_app_nth)

lemma last_take_nth: "0 < w \<Longrightarrow> w \<le> length xs \<Longrightarrow> last (take w xs) = xs ! (w - 1)"
  by (cases w) (simp_all add: take_Suc_conv_app_nth)

lemma merge_loop:
  "n \<le> length xs \<Longrightarrow> foldl merge_step (xs, 0) [0..<n] = (ys, w) \<Longrightarrow>
     length ys = length xs \<and> w \<le> n \<and> take w ys = foldl merge_absorb [] (take n xs) \<and>
     drop n ys = drop n xs"
proof (induction n arbitrary: ys w)
  case 0
  then show ?case by simp
next
  case (Suc n)
  obtain zs v where z: "foldl merge_step (xs, 0) [0..<n] = (zs, v)" by fastforce
  have IH: "length zs = length xs" "v \<le> n" "take v zs = foldl merge_absorb [] (take n xs)"
      "drop n zs = drop n xs"
    using Suc.IH [OF _ z] Suc.prems(1) by auto
  have step: "merge_step (zs, v) n = (ys, w)" using Suc.prems(2) z by simp
  have n: "n < length xs" using Suc.prems(1) by simp
  have cur: "zs ! n = xs ! n" using IH(1,4) n by (metis hd_drop_conv_nth)
  have acc: "foldl merge_absorb [] (take (Suc n) xs) = merge_absorb (take v zs) (xs ! n)"
    using n IH(3) by (simp add: take_Suc_conv_app_nth)
  have drop_Suc_eq: "drop (Suc n) zs = drop (Suc n) xs"
    using IH(4) by (metis drop_Suc tl_drop)
  have last: "0 < v \<Longrightarrow> last (take v zs) = zs ! (v - 1)" and ne: "take v zs \<noteq> [] \<longleftrightarrow> 0 < v"
    using IH(1,2) n by (auto simp: last_take_nth)
  show ?case
  proof (cases "0 < v \<and> r_start (xs ! n) \<le> saturating_successor (r_end (zs ! (v - 1)))")
    case True
    let ?l = "(zs ! (v - 1))\<lparr>r_end := max (r_end (zs ! (v - 1))) (r_end (xs ! n))\<rparr>"
    have y: "ys = zs[v - 1 := ?l]" "w = v"
      using True step cur by (auto simp: merge_step_def Let_def)
    have "merge_absorb (take v zs) (xs ! n) = butlast (take v zs) @ [?l]"
      using True ne last by (simp add: merge_absorb_def)
    also have "\<dots> = take v (zs[v - 1 := ?l])"
      using True IH(1,2) n by (simp only: take_list_update_last)
    finally have "take w ys = foldl merge_absorb [] (take (Suc n) xs)"
      using y by (simp only: acc)
    then show ?thesis using y IH(1,2) True drop_Suc_eq by (auto simp: drop_update_cancel)
  next
    case False
    have y: "ys = zs[v := xs ! n]" "w = Suc v"
      using False step cur by (auto simp: merge_step_def Let_def)
    have "merge_absorb (take v zs) (xs ! n) = take v zs @ [xs ! n]"
      using False ne last by (auto simp: merge_absorb_def)
    also have "\<dots> = take (Suc v) (zs[v := xs ! n])"
      using IH(1,2) n by (simp add: take_Suc_conv_app_nth)
    finally have "take w ys = foldl merge_absorb [] (take (Suc n) xs)"
      using y by (simp only: acc)
    then show ?thesis using y IH(1,2) drop_Suc_eq by (auto simp: drop_update_cancel)
  qed
qed

lemma length_sort_ranges [simp]: "length (sort_ranges rs) = length rs"
  by (simp add: sort_ranges_def)

lemma set_sort_ranges [simp]: "set (sort_ranges rs) = set rs"
  by (simp add: sort_ranges_def)

theorem merge_ranges_fold: "merge_ranges rs = foldl merge_absorb [] (sort_ranges rs)"
proof -
  obtain ys w where "foldl merge_step (sort_ranges rs, 0) [0..<length rs] = (ys, w)" by fastforce
  then show ?thesis
    using merge_loop [of "length rs" "sort_ranges rs" ys w] by (simp add: merge_ranges_def)
qed

definition ranges_ok :: "'a::len word inclusive_range list \<Rightarrow> bool" where
  "ranges_ok rs \<longleftrightarrow> list_all range_valid rs \<and>
     sorted_wrt (\<lambda>a b. Suc (unat (r_end a)) < unat (r_start b)) rs"

lemma saturating_successor_le:
  "s \<le> saturating_successor e \<longleftrightarrow> e = - 1 \<or> unat s \<le> Suc (unat e)"
proof (cases "e = - 1")
  case True
  then show ?thesis by (simp add: saturating_successor_def)
next
  case False
  then have "unat (e + 1) = Suc (unat e)"
    by (metis add.commute add_eq_0_iff unatSuc)
  with False show ?thesis by (simp add: saturating_successor_def word_le_nat_alt)
qed

lemma unat_le_minus_one: "unat (x :: 'a::len word) \<le> unat (- 1 :: 'a word)"
  by (metis word_le_nat_alt word_n1_ge)

lemma ranges_ok_snoc:
  "ranges_ok (xs @ [r]) \<longleftrightarrow>
     ranges_ok xs \<and> range_valid r \<and> (\<forall>x \<in> set xs. Suc (unat (r_end x)) < unat (r_start r))"
  by (auto simp: ranges_ok_def sorted_wrt_append)

lemma merge_absorb_ok:
  assumes ok: "ranges_ok acc" and v: "range_valid cur"
    and le: "\<And>r. r \<in> set acc \<Longrightarrow> r_start r \<le> r_start cur"
  shows "ranges_ok (merge_absorb acc cur)"
    and "(\<exists>r \<in> set (merge_absorb acc cur). range_contains r a) \<longleftrightarrow>
      (\<exists>r \<in> set acc. range_contains r a) \<or> range_contains cur a"
    and "\<forall>r \<in> set (merge_absorb acc cur). r_start r \<le> r_start cur"
proof -
  show "\<forall>r \<in> set (merge_absorb acc cur). r_start r \<le> r_start cur"
    using le by (auto simp: merge_absorb_def dest: in_set_butlastD)
  show "ranges_ok (merge_absorb acc cur)"
  proof (cases "acc = []")
    case True
    then show ?thesis using v by (simp add: merge_absorb_def ranges_ok_def)
  next
    case False
    then obtain xs l where acc: "acc = xs @ [l]" by (metis rev_exhaust)
    have l: "ranges_ok xs" "range_valid l" "r_start l \<le> r_start cur"
        "\<And>x. x \<in> set xs \<Longrightarrow> Suc (unat (r_end x)) < unat (r_start l)"
      using ok le by (auto simp: acc ranges_ok_snoc)
    have far: "Suc (unat (r_end x)) < unat (r_start cur)" if "x \<in> set xs" for x
      using l(4) [OF that] l(3) by (simp add: word_le_nat_alt)
    show ?thesis
    proof (cases "r_start cur \<le> saturating_successor (r_end l)")
      case True
      then show ?thesis
        using l by (auto simp: acc merge_absorb_def ranges_ok_snoc range_valid_def le_max_iff_disj)
    next
      case False
      then have "Suc (unat (r_end l)) < unat (r_start cur)" by (simp add: saturating_successor_le)
      then show ?thesis
        using False far v ok ranges_ok_snoc [of "xs @ [l]" cur] by (auto simp: acc merge_absorb_def)
    qed
  qed
  show "(\<exists>r \<in> set (merge_absorb acc cur). range_contains r a) \<longleftrightarrow>
      (\<exists>r \<in> set acc. range_contains r a) \<or> range_contains cur a"
  proof (cases "acc \<noteq> [] \<and> r_start cur \<le> saturating_successor (r_end (last acc))")
    case True
    then obtain xs l where acc: "acc = xs @ [l]" by (metis rev_exhaust)
    have lv: "range_valid l" "r_start l \<le> r_start cur" using ok le by (auto simp: acc ranges_ok_def)
    have "r_end l = - 1 \<or> unat (r_start cur) \<le> Suc (unat (r_end l))"
      using True by (simp add: acc saturating_successor_le)
    then have "range_contains (l\<lparr>r_end := max (r_end l) (r_end cur)\<rparr>) a \<longleftrightarrow>
        range_contains l a \<or> range_contains cur a"
      using lv v
      by (auto simp: range_contains_def range_valid_def max_def word_le_nat_alt
          intro: unat_le_minus_one)
    then show ?thesis using True by (auto simp: acc merge_absorb_def)
  next
    case False
    then show ?thesis by (auto simp: merge_absorb_def)
  qed
qed

lemma merge_fold_ok:
  assumes "ranges_ok acc" "list_all range_valid rs" "sorted (map r_start rs)"
    and "\<And>r s. r \<in> set acc \<Longrightarrow> s \<in> set rs \<Longrightarrow> r_start r \<le> r_start s"
  shows "ranges_ok (foldl merge_absorb acc rs) \<and>
    ((\<exists>r \<in> set (foldl merge_absorb acc rs). range_contains r a) \<longleftrightarrow>
       (\<exists>r \<in> set acc \<union> set rs. range_contains r a))"
  using assms
proof (induction rs arbitrary: acc)
  case Nil
  then show ?case by simp
next
  case (Cons c rs)
  have v: "range_valid c" "\<And>r. r \<in> set acc \<Longrightarrow> r_start r \<le> r_start c"
    using Cons.prems by auto
  note absorb = merge_absorb_ok [OF Cons.prems(1) v]
  have c: "r_start c \<le> r_start s" if "s \<in> set rs" for s
    using Cons.prems(3) that by simp
  have "ranges_ok (foldl merge_absorb (merge_absorb acc c) rs) \<and>
    ((\<exists>r \<in> set (foldl merge_absorb (merge_absorb acc c) rs). range_contains r a) \<longleftrightarrow>
       (\<exists>r \<in> set (merge_absorb acc c) \<union> set rs. range_contains r a))"
    using Cons.prems(2,3) absorb(1,3) c
    by (intro Cons.IH) (auto intro: order_trans)
  then show ?case using absorb(2) [of a] by auto
qed

lemma sorted_sort_ranges: "sorted (map r_start (sort_ranges rs))"
proof -
  have "sorted (map (\<lambda>r. (r_start r, r_end r)) (sort_ranges rs))"
    by (simp add: sort_ranges_def)
  then show ?thesis
    by (auto simp: sorted_wrt_map less_eq_prod_def elim!: sorted_wrt_mono_rel [rotated])
qed

lemma merge_ranges_ok:
  assumes "list_all range_valid rs"
  shows "ranges_ok (merge_ranges rs)"
    and "(\<exists>r \<in> set (merge_ranges rs). range_contains r a) \<longleftrightarrow> (\<exists>r \<in> set rs. range_contains r a)"
  using merge_fold_ok [of "[]" "sort_ranges rs" a] assms
  by (simp_all add: merge_ranges_fold sorted_sort_ranges ranges_ok_def list_all_iff)

lemma merge_absorb_nonempty: "merge_absorb acc c \<noteq> []"
  by (simp add: merge_absorb_def)

lemma foldl_merge_absorb_empty: "foldl merge_absorb acc rs = [] \<longleftrightarrow> acc = [] \<and> rs = []"
  by (induction rs arbitrary: acc) (auto simp: merge_absorb_nonempty)

lemma merge_ranges_empty [simp]: "merge_ranges rs = [] \<longleftrightarrow> rs = []"
  using length_sort_ranges [of rs]
  by (auto simp: merge_ranges_fold foldl_merge_absorb_empty simp del: length_sort_ranges)

lemma ranges_ok_partition:
  assumes "ranges_ok rs"
  shows "(\<exists>r \<in> set rs. range_contains r a) \<longleftrightarrow>
    (let n = partition_point (\<lambda>r. r_start r \<le> a) rs in 0 < n \<and> a \<le> r_end (rs ! (n - 1)))"
proof -
  define n where "n = length (takeWhile (\<lambda>r. r_start r \<le> a) rs)"
  have lt: "r_end (rs ! i) < r_start (rs ! j)" if "i < j" "j < length rs" for i j
    using assms that
    by (auto simp: ranges_ok_def sorted_wrt_iff_nth_less word_less_nat_alt intro: Suc_lessD)
  have val: "r_start (rs ! i) \<le> r_end (rs ! i)" if "i < length rs" for i
    using assms that by (simp add: ranges_ok_def list_all_length range_valid_def)
  have n: "n \<le> length rs" by (simp add: n_def length_takeWhile_le)
  have below: "r_start (rs ! i) \<le> a" if "i < n" for i
    using that by (metis n_def nth_mem set_takeWhileD takeWhile_nth)
  have at: "\<not> r_start (rs ! n) \<le> a" if "n < length rs"
    using that nth_length_takeWhile [of "\<lambda>r. r_start r \<le> a" rs] by (simp add: n_def)
  have above: "\<not> r_start (rs ! i) \<le> a" if "n \<le> i" "i < length rs" for i
  proof (cases "i = n")
    case True
    then show ?thesis using at that by simp
  next
    case False
    then have ni: "n < i" using that by simp
    have "r_start (rs ! n) \<le> r_end (rs ! n)" using ni that by (intro val) simp
    also have "\<dots> < r_start (rs ! i)" using ni that by (intro lt)
    finally have "r_start (rs ! n) < r_start (rs ! i)" .
    then show ?thesis using at that by (meson le_less_trans less_imp_le order_trans)
  qed
  have pp: "partition_point (\<lambda>r. r_start r \<le> a) rs = n"
    by (rule partition_point_eq) (use n below above in auto)
  have "(\<exists>r \<in> set rs. range_contains r a) \<longleftrightarrow>
      (\<exists>i < length rs. r_start (rs ! i) \<le> a \<and> a \<le> r_end (rs ! i))"
    unfolding range_contains_def Bex_def in_set_conv_nth by blast
  also have "\<dots> \<longleftrightarrow> 0 < n \<and> a \<le> r_end (rs ! (n - 1))"
  proof
    assume "\<exists>i < length rs. r_start (rs ! i) \<le> a \<and> a \<le> r_end (rs ! i)"
    then obtain i where i: "i < length rs" "r_start (rs ! i) \<le> a" "a \<le> r_end (rs ! i)" by blast
    then have "i < n" using above not_le by blast
    moreover have "\<not> i < n - 1"
      using lt [of i "n - 1"] below [of "n - 1"] i n by fastforce
    ultimately have "i = n - 1" by linarith
    with i \<open>i < n\<close> show "0 < n \<and> a \<le> r_end (rs ! (n - 1))" by auto
  next
    assume "0 < n \<and> a \<le> r_end (rs ! (n - 1))"
    then show "\<exists>i < length rs. r_start (rs ! i) \<le> a \<and> a \<le> r_end (rs ! i)"
      using n below by (intro exI [of _ "n - 1"]) auto
  qed
  finally show ?thesis by (simp add: pp Let_def)
qed

lemma ranges_contain_ok:
  assumes "ranges_ok rs"
  shows "ranges_contain rs a \<longleftrightarrow> (\<exists>r \<in> set rs. range_contains r a)"
proof (cases "\<exists>r. rs = [r]")
  case True
  then show ?thesis by (auto simp: ranges_contain_def)
next
  case False
  then have "ranges_contain rs a \<longleftrightarrow>
      (let n = partition_point (\<lambda>r. r_start r \<le> a) rs in 0 < n \<and> a \<le> r_end (rs ! (n - 1)))"
    by (auto simp: ranges_contain_def split: list.splits)
  then show ?thesis using ranges_ok_partition [OF assms] by simp
qed

lemma ranges_contain_merge:
  "list_all range_valid rs \<Longrightarrow>
     ranges_contain (merge_ranges rs) a \<longleftrightarrow> (\<exists>r \<in> set rs. range_contains r a)"
  by (simp add: ranges_contain_ok merge_ranges_ok)

section \<open>Range sets hold exactly the inserted prefixes\<close>

lemma canonicalize_ip_idem [simp]: "canonicalize_ip (canonicalize_ip a) = canonicalize_ip a"
  by (auto simp: canonicalize_ip_def split: ip_addr.splits option.splits)

text \<open>The address families of \<open>Contains\<close> and of \<open>lookup\<close>.\<close>

fun same_family :: "ip_addr \<Rightarrow> ip_addr \<Rightarrow> bool" where
  "same_family (V4 _) (V4 _) = True"
| "same_family (V6 _) (V6 _) = True"
| "same_family _ _ = False"

definition v4_ranges :: "cidr list \<Rightarrow> u32 inclusive_range list" where
  "v4_ranges cs =
     concat (map (\<lambda>c. case cidr_network c of V4 n \<Rightarrow> [from_prefix n (cidr_prefix_len c)] | V6 _ \<Rightarrow> []) cs)"

definition v6_ranges :: "cidr list \<Rightarrow> u128 inclusive_range list" where
  "v6_ranges cs =
     concat (map (\<lambda>c. case cidr_network c of V6 n \<Rightarrow> [from_prefix n (cidr_prefix_len c)] | V4 _ \<Rightarrow> []) cs)"

lemma fold_range_insert:
  "fold range_insert_cidr cs b =
     b\<lparr>b_ipv4 := b_ipv4 b @ v4_ranges cs, b_ipv6 := b_ipv6 b @ v6_ranges cs\<rparr>"
  by (induction cs arbitrary: b)
    (auto simp: v4_ranges_def v6_ranges_def range_insert_cidr_def split: ip_addr.splits)

lemma v4_ranges_valid: "list_all range_valid (v4_ranges cs)"
  by (auto simp: v4_ranges_def list_all_iff from_prefix_valid split: ip_addr.splits)

lemma v6_ranges_valid: "list_all range_valid (v6_ranges cs)"
  by (auto simp: v6_ranges_def list_all_iff from_prefix_valid split: ip_addr.splits)

lemma v4_ranges_contain:
  "canonicalize_ip a = V4 x \<Longrightarrow>
     (\<exists>r \<in> set (v4_ranges cs). range_contains r x) \<longleftrightarrow> (\<exists>c \<in> set cs. cidr_contains c a)"
  by (induction cs) (auto simp: v4_ranges_def cidr_contains_def split: ip_addr.splits)

lemma v6_ranges_contain:
  "canonicalize_ip a = V6 x \<Longrightarrow>
     (\<exists>r \<in> set (v6_ranges cs). range_contains r x) \<longleftrightarrow> (\<exists>c \<in> set cs. cidr_contains c a)"
  by (induction cs) (auto simp: v6_ranges_def cidr_contains_def split: ip_addr.splits)

lemma v4_ranges_nonempty:
  "(\<exists>c \<in> set cs. same_family (cidr_network c) (V4 x)) \<longleftrightarrow> v4_ranges cs \<noteq> []"
  by (induction cs) (auto simp: v4_ranges_def split: ip_addr.splits)

lemma v6_ranges_nonempty:
  "(\<exists>c \<in> set cs. same_family (cidr_network c) (V6 x)) \<longleftrightarrow> v6_ranges cs \<noteq> []"
  by (induction cs) (auto simp: v6_ranges_def split: ip_addr.splits)

lemma range_set_contains_build:
  "range_set_contains (range_build (fold range_insert_cidr cs range_builder_new)) a \<longleftrightarrow>
     (\<exists>c \<in> set cs. cidr_contains c a)"
  by (cases "canonicalize_ip a")
    (simp_all add: range_set_contains_def range_build_def fold_range_insert range_builder_new_def
      ranges_contain_merge v4_ranges_valid v6_ranges_valid v4_ranges_contain v6_ranges_contain)

lemma range_set_lookup_build:
  "range_set_lookup (range_build (fold range_insert_cidr cs range_builder_new)) a =
     (if \<exists>c \<in> set cs. same_family (cidr_network c) (canonicalize_ip a)
      then Some (\<exists>c \<in> set cs. cidr_contains c a) else None)"
  by (cases "canonicalize_ip a")
    (simp_all add: range_set_lookup_def range_build_def fold_range_insert range_builder_new_def
      ranges_contain_merge v4_ranges_valid v6_ranges_valid v4_ranges_contain v6_ranges_contain
      v4_ranges_nonempty v6_ranges_nonempty)

lemma range_set_is_empty_build:
  "range_set_is_empty (range_build (fold range_insert_cidr cs range_builder_new)) \<longleftrightarrow> cs = []"
proof -
  have "v4_ranges cs = [] \<and> v6_ranges cs = [] \<longleftrightarrow> cs = []"
    by (cases cs) (auto simp: v4_ranges_def v6_ranges_def split: ip_addr.splits)
  then show ?thesis
    by (simp add: range_set_is_empty_def range_build_def fold_range_insert range_builder_new_def)
qed

section \<open>The interface a matcher set relies on\<close>

text \<open>
  What \<open>IpMatcherSet\<close> needs of a range index: after any sequence of insertions, \<open>contains\<close> and
  \<open>lookup\<close> answer for exactly the inserted prefixes, and \<open>lookup\<close> knows a family only when a
  prefix of that family was inserted.
\<close>

locale ip_index =
  fixes empty :: 'b
    and insert_cidr :: "cidr \<Rightarrow> 'b \<Rightarrow> 'b"
    and build :: "'b \<Rightarrow> 's"
    and contains :: "'s \<Rightarrow> ip_addr \<Rightarrow> bool"
    and lookup :: "'s \<Rightarrow> ip_addr \<Rightarrow> bool option"
    and is_empty :: "'s \<Rightarrow> bool"
  assumes contains_build:
      "contains (build (fold insert_cidr cs empty)) a \<longleftrightarrow> (\<exists>c \<in> set cs. cidr_contains c a)"
    and lookup_build:
      "lookup (build (fold insert_cidr cs empty)) a =
         (if \<exists>c \<in> set cs. same_family (cidr_network c) (canonicalize_ip a)
          then Some (\<exists>c \<in> set cs. cidr_contains c a) else None)"
    and is_empty_build: "is_empty (build (fold insert_cidr cs empty)) \<longleftrightarrow> cs = []"
begin

lemma inverse_matches:
  "\<not> is_empty (build (fold insert_cidr cs empty)) \<and>
     lookup (build (fold insert_cidr cs empty)) a = Some False \<longleftrightarrow>
   (\<exists>c \<in> set cs. same_family (cidr_network c) (canonicalize_ip a)) \<and>
     \<not> (\<exists>c \<in> set cs. cidr_contains c a)"
  by (auto simp: lookup_build is_empty_build)

lemma order_irrelevant:
  "set cs = set ds \<Longrightarrow>
     contains (build (fold insert_cidr cs empty)) a = contains (build (fold insert_cidr ds empty)) a \<and>
     lookup (build (fold insert_cidr cs empty)) a = lookup (build (fold insert_cidr ds empty)) a"
  by (simp add: contains_build lookup_build)

end

interpretation rs: ip_index range_builder_new range_insert_cidr range_build range_set_contains
  range_set_lookup range_set_is_empty
  by unfold_locales
    (rule range_set_contains_build range_set_lookup_build range_set_is_empty_build)+

section \<open>Matcher sets\<close>

text \<open>The calls a client makes on an \<open>IpMatcherSetBuilder\<close>, and the prefixes a call stands for.\<close>

datatype matcher_call =
    InsertCidr cidr bool
  | InsertIp ip_addr bool
  | InsertPrivate bool

fun matcher_apply :: "matcher_call \<Rightarrow> ip_matcher_set_builder \<Rightarrow> ip_matcher_set_builder" where
  "matcher_apply (InsertCidr c inverted) b = matcher_insert_cidr c inverted b"
| "matcher_apply (InsertIp a inverted) b = matcher_insert_ip a inverted b"
| "matcher_apply (InsertPrivate inverted) b = matcher_insert_private inverted b"

fun call_prefixes :: "bool \<Rightarrow> matcher_call \<Rightarrow> cidr list" where
  "call_prefixes sel (InsertCidr c inverted) = (if inverted = sel then [c] else [])"
| "call_prefixes sel (InsertIp a inverted) = (if inverted = sel then [cidr_host a] else [])"
| "call_prefixes sel (InsertPrivate inverted) = (if inverted = sel then private_networks else [])"

definition prefixes_of :: "bool \<Rightarrow> matcher_call list \<Rightarrow> cidr list" where
  "prefixes_of sel calls = concat (map (call_prefixes sel) calls)"

lemma fold_matcher_apply:
  "fold matcher_apply calls b =
     b\<lparr>b_positive := fold range_insert_cidr (prefixes_of False calls) (b_positive b),
       b_inverse := fold range_insert_cidr (prefixes_of True calls) (b_inverse b),
       b_matcher_count := b_matcher_count b + length calls\<rparr>"
proof (induction calls arbitrary: b)
  case Nil
  then show ?case by (simp add: prefixes_of_def)
next
  case (Cons c calls)
  then show ?case
    by (cases c) (auto simp: prefixes_of_def matcher_insert_cidr_def matcher_insert_ip_def
        matcher_insert_private_def update_ranges_def range_insert_private_def Let_def)
qed

definition compiled :: "matcher_call list \<Rightarrow> ip_matcher_set" where
  "compiled calls = matcher_build (fold matcher_apply calls matcher_builder_new)"

lemma compiled_fields:
  "positive (compiled calls) = range_build (fold range_insert_cidr (prefixes_of False calls) range_builder_new)"
  "inverse_set (compiled calls) = range_build (fold range_insert_cidr (prefixes_of True calls) range_builder_new)"
  by (simp_all add: compiled_def matcher_build_def fold_matcher_apply matcher_builder_new_def)

lemma compiled_is_empty:
  "ip_matcher_is_empty (compiled calls) \<longleftrightarrow> prefixes_of False calls = [] \<and> prefixes_of True calls = []"
  by (simp add: ip_matcher_is_empty_def compiled_fields rs.is_empty_build)

lemma compiled_matches:
  "ip_matcher_matches (compiled calls) a \<longleftrightarrow>
     (\<exists>c. c \<in> set (prefixes_of False calls) \<and> cidr_contains c a) \<or>
     (\<exists>c. c \<in> set (prefixes_of True calls) \<and> same_family (cidr_network c) (canonicalize_ip a)) \<and>
     \<not> (\<exists>c. c \<in> set (prefixes_of True calls) \<and> cidr_contains c a)"
  unfolding ip_matcher_matches_def
  by (simp only: compiled_fields rs.inverse_matches rs.contains_build Bex_def)

lemma cidr_new_Inr:
  "cidr_new n p = Inr c \<longleftrightarrow>
     p \<le> family_width (canonicalize_ip n) \<and> c = \<lparr>cidr_network = canonicalize_ip n, cidr_prefix_len = p\<rparr>"
  by (auto simp: cidr_new_def Let_def)

lemma cidr_host_contains: "cidr_contains (cidr_host a) b \<longleftrightarrow> canonicalize_ip a = canonicalize_ip b"
  by (auto simp: cidr_host_def Let_def cidr_contains_def range_contains_from_prefix
      split: ip_addr.splits)

lemma length_private_networks: "length private_networks = length private_table"
  by (simp add: private_networks_def private_table_def map_filter_simps cidr_new_const_def
      cidr_new_def Let_def ipv4_new_def canonicalize_ip_def to_ipv4_mapped_def)

lemma private_networks_not_empty: "private_networks \<noteq> []"
  using length_private_networks by (auto simp: private_table_def)

lemma prefixes_of_empty:
  "prefixes_of False calls = [] \<and> prefixes_of True calls = [] \<longleftrightarrow> calls = []"
proof (cases calls)
  case Nil
  then show ?thesis by (simp add: prefixes_of_def)
next
  case (Cons c cs)
  then show ?thesis by (cases c) (auto simp: prefixes_of_def private_networks_not_empty)
qed

text \<open>What builder calls match: a plain prefix contains the address, or inverted ones of its family exist and none does.\<close>

definition calls_match :: "matcher_call list \<Rightarrow> ip_addr \<Rightarrow> bool" where
  "calls_match calls a \<longleftrightarrow>
     list_ex (\<lambda>c. cidr_contains c a) (prefixes_of False calls) \<or>
     list_ex (\<lambda>c. same_family (cidr_network c) (canonicalize_ip a)) (prefixes_of True calls) \<and>
     \<not> list_ex (\<lambda>c. cidr_contains c a) (prefixes_of True calls)"

lemma compiled_calls_match: "ip_matcher_matches (compiled calls) a = calls_match calls a"
  using compiled_matches [of calls a] by (simp add: calls_match_def list_ex_iff Bex_def)

lemma filter_of_calls:
  "filter_matches (filter_build \<lparr>fb_custom = fold matcher_apply cs matcher_builder_new,
       fb_geoip = fold matcher_apply gs matcher_builder_new, fb_soft = soft\<rparr>) a = (calls_match cs a \<or> calls_match gs a)"
  "filter_is_empty (filter_build \<lparr>fb_custom = fold matcher_apply cs matcher_builder_new,
       fb_geoip = fold matcher_apply gs matcher_builder_new, fb_soft = soft\<rparr>) = (cs = [] \<and> gs = [])"
  "f_soft (filter_build \<lparr>fb_custom = fold matcher_apply cs matcher_builder_new,
       fb_geoip = fold matcher_apply gs matcher_builder_new, fb_soft = soft\<rparr>) = soft"
  by (simp_all add: filter_matches_def filter_is_empty_def filter_build_def compiled_def [symmetric] compiled_is_empty
      prefixes_of_empty compiled_calls_match)

lemma retain_preferred_cases:
  "retain_preferred f as keep =
     (if filter_is_empty f then (as, True)
      else if list_ex (\<lambda>a. filter_matches f a = keep) as then (filter (\<lambda>a. filter_matches f a = keep) as, True)
      else if f_soft f then (as, True) else ([], False))"
proof -
  have "filter P as = [] \<longleftrightarrow> \<not> list_ex P as" for P by (auto simp: list_ex_iff filter_empty_conv)
  then show ?thesis by (simp add: retain_preferred_def Let_def)
qed

section \<open>Properties\<close>

text \<open>
  C31. Membership in a valid prefix, computed by \<open>Cidr::contains\<close> through a mask and an
  inclusive range, is agreement on the leading prefix bits after canonicalisation: an
  IPv4-mapped IPv6 address counts as its IPv4 address, and the families never mix.
\<close>

theorem cidr_contains_prefix_bits:
  assumes "cidr_new n p = Inr c"
  shows "cidr_contains c a \<longleftrightarrow>
    (case (canonicalize_ip n, canonicalize_ip a) of
       (V4 x, V4 y) \<Rightarrow> drop_bit (32 - unat p) y = drop_bit (32 - unat p) x
     | (V6 x, V6 y) \<Rightarrow> drop_bit (128 - unat p) y = drop_bit (128 - unat p) x
     | _ \<Rightarrow> False)"
  using assms
  by (auto simp: cidr_new_Inr cidr_contains_def range_contains_from_prefix split: ip_addr.splits)

theorem cidr_contains_prefix_bits_witness:
  "cidr_new (V4 0x0A000000) 8 = Inr \<lparr>cidr_network = V4 0x0A000000, cidr_prefix_len = 8\<rparr> \<and>
   cidr_contains \<lparr>cidr_network = V4 0x0A000000, cidr_prefix_len = 8\<rparr> (V6 0xFFFF0A010203)"
proof -
  have n: "cidr_new (V4 0x0A000000) 8 = Inr \<lparr>cidr_network = V4 0x0A000000, cidr_prefix_len = 8\<rparr>"
    by (simp add: cidr_new_def Let_def canonicalize_ip_def)
  have "canonicalize_ip (V6 0xFFFF0A010203) = V4 0x0A010203" "canonicalize_ip (V4 0x0A000000) = V4 0x0A000000"
    by code_simp+
  moreover have "drop_bit 24 (0x0A010203 :: u32) = drop_bit 24 0x0A000000" by code_simp
  ultimately show ?thesis using n cidr_contains_prefix_bits [OF n, of "V6 0xFFFF0A010203"] by simp
qed

text \<open>
  C3. The compiled range set (sorted, merged in place, binary searched) holds exactly the
  inserted prefixes: \<open>contains\<close> is membership in one of them, and \<open>lookup\<close> is \<open>None\<close> exactly for
  a family no prefix was inserted for, whatever the order of the insertions.
\<close>

theorem range_set_exact:
  "range_set_contains (range_build (fold range_insert_cidr cs range_builder_new)) a =
     list_ex (\<lambda>c. cidr_contains c a) cs \<and>
   range_set_lookup (range_build (fold range_insert_cidr cs range_builder_new)) a =
     (if list_ex (\<lambda>c. same_family (cidr_network c) (canonicalize_ip a)) cs
      then Some (list_ex (\<lambda>c. cidr_contains c a) cs) else None)"
  by (simp add: rs.contains_build rs.lookup_build list_ex_iff)

text \<open>
  C30. The index \<open>IpRangeSetBuilder::build\<close> leaves is in normal form in both families: every
  range is non-empty, the ranges ascend, and no two of them overlap or touch (between two
  neighbours at least one address is missing), so the number of ranges is minimal.
\<close>

theorem range_build_ok:
  "ranges_ok (set_ipv4 (range_build (fold range_insert_cidr cs range_builder_new))) \<and>
   ranges_ok (set_ipv6 (range_build (fold range_insert_cidr cs range_builder_new)))"
  by (simp add: range_build_def fold_range_insert range_builder_new_def merge_ranges_ok
      v4_ranges_valid v6_ranges_valid)

text \<open>
  C29. After any sequence of builder calls (prefixes, single addresses, the private table,
  each plain or inverted), an \<open>IpMatcherSet\<close> matches an address when some plain prefix contains
  it, or when inverted prefixes of its family exist and none of them contains it; the source
  count is the number of calls.
\<close>

theorem ip_matcher_matches_calls:
  "ip_matcher_matches (matcher_build (fold matcher_apply calls matcher_builder_new)) a =
     (list_ex (\<lambda>c. cidr_contains c a) (prefixes_of False calls) \<or>
      list_ex (\<lambda>c. same_family (cidr_network c) (canonicalize_ip a)) (prefixes_of True calls) \<and>
      \<not> list_ex (\<lambda>c. cidr_contains c a) (prefixes_of True calls)) \<and>
   b_matcher_count (fold matcher_apply calls matcher_builder_new) = length calls"
  using compiled_matches [of calls a]
  by (auto simp: compiled_def list_ex_iff fold_matcher_apply matcher_builder_new_def)

text \<open>
  Every entry of the static private-network table is a valid prefix, so the
  compile-time constructor never panics and the table keeps all of its 18 entries.
\<close>

theorem private_networks_table:
  "length private_networks = 18 \<and> \<not> list_ex (\<lambda>(a, p). cidr_new_const a p = None) private_table"
  by (simp add: private_networks_def private_table_def map_filter_simps cidr_new_const_def
      cidr_new_def Let_def ipv4_new_def canonicalize_ip_def to_ipv4_mapped_def)

text \<open>
  C32. A filter built from custom and GeoIP builder calls, applied as \<open>expectedIPs\<close> or \<open>unexpectedIPs\<close>: without
  a call it keeps every answer; when some answers are preferred (they match one of the calls, or none of them for \<open>unexpectedIPs\<close>), it
  keeps exactly those in their order; when none is, a soft filter keeps all answers and a hard one keeps none and rejects.
\<close>

theorem dns_filter_verdict:
  "apply_expected (filter_build \<lparr>fb_custom = fold matcher_apply cs matcher_builder_new,
       fb_geoip = fold matcher_apply gs matcher_builder_new, fb_soft = soft\<rparr>) as =
     (if cs = [] \<and> gs = [] then (as, True)
      else if list_ex (\<lambda>a. calls_match cs a \<or> calls_match gs a) as
      then (filter (\<lambda>a. calls_match cs a \<or> calls_match gs a) as, True)
      else if soft then (as, True) else ([], False)) \<and>
   apply_unexpected (filter_build \<lparr>fb_custom = fold matcher_apply cs matcher_builder_new,
       fb_geoip = fold matcher_apply gs matcher_builder_new, fb_soft = soft\<rparr>) as =
     (if cs = [] \<and> gs = [] then (as, True)
      else if list_ex (\<lambda>a. \<not> calls_match cs a \<and> \<not> calls_match gs a) as
      then (filter (\<lambda>a. \<not> calls_match cs a \<and> \<not> calls_match gs a) as, True)
      else if soft then (as, True) else ([], False))"
  by (simp add: apply_expected_def apply_unexpected_def retain_preferred_cases filter_of_calls)

end
