(* ===== verification/Xr_Domain.thy ===== *)
theory Xr_Domain
  imports Xr_Text Xr_Net "HOL-Library.Sublist"
begin

text \<open>
  Domain rules of \<open>crates/xray-routing/src\<close>: the linear reference matcher (\<open>domain_matcher.rs\<close>), the
  compiled set that must agree with it (\<open>domain_matcher_set.rs\<close>) and the host table
  (\<open>domain_host_index.rs\<close>).

  The regex engine is a parameter \<open>rx\<close> (pattern, then text); a compiled regex is identified by its
  pattern, as its equality in the code is. The Aho-Corasick automaton is a pair of parameters
  \<open>ac_build\<close> and \<open>ac_is_match\<close>; what the code relies on is that a built automaton matches the
  texts that contain one of its keywords. A hash set is a set and a hash map a map.
\<close>

section \<open>The linear reference matcher\<close>

record regex_matcher =
  rm_pattern :: bytes

record domain_regex_error =
  dre_pattern :: bytes
  dre_message :: bytes

datatype domain_matcher = Keyword bytes | Full bytes | Suffix bytes | Regex regex_matcher

datatype domain_name_mode = Routing | Dns

definition trim_end_dots :: "bytes \<Rightarrow> bytes" where
  "trim_end_dots s = rev (dropWhile (\<lambda>b. b = 46) (rev s))"

fun mode_pattern :: "domain_name_mode \<Rightarrow> bytes \<Rightarrow> bytes" where
  "mode_pattern Routing p = p"
| "mode_pattern Dns p = trim_end_dots p"

definition regex_matcher_new ::
    "(bytes \<Rightarrow> bytes + unit) \<Rightarrow> bytes \<Rightarrow> domain_regex_error + regex_matcher" where
  "regex_matcher_new compile pattern =
     rbind (map_err (\<lambda>e. \<lparr>dre_pattern = pattern, dre_message = e\<rparr>) (compile pattern))
       (\<lambda>_. Inr \<lparr>rm_pattern = pattern\<rparr>)"

definition lowercase_ascii :: "bytes \<Rightarrow> bytes" where
  "lowercase_ascii v = (if list_ex is_ascii_uppercase v then to_ascii_lowercase v else v)"

definition regex_is_match :: "(bytes \<Rightarrow> bytes \<Rightarrow> bool) \<Rightarrow> regex_matcher \<Rightarrow> bytes \<Rightarrow> bool" where
  "regex_is_match rx m t = rx (rm_pattern m) t"

definition regex_matches :: "(bytes \<Rightarrow> bytes \<Rightarrow> bool) \<Rightarrow> regex_matcher \<Rightarrow> bytes \<Rightarrow> bool" where
  "regex_matches rx m d =
     (let d' = (if list_ex is_ascii_uppercase d then to_ascii_lowercase d else d)
      in rx (rm_pattern m) d')"

text \<open>\<open>slice::windows\<close>, for a positive width.\<close>

definition windows :: "nat \<Rightarrow> 'a list \<Rightarrow> 'a list list" where
  "windows n xs = map (\<lambda>i. take n (drop i xs)) [0..<Suc (length xs) - n]"

definition contains_ignore_ascii_case :: "bytes \<Rightarrow> bytes \<Rightarrow> bool" where
  "contains_ignore_ascii_case haystack needle =
     (if needle = [] then True
      else list_ex (\<lambda>w. eq_ignore_ascii_case w needle) (windows (length needle) haystack))"

definition domain_matches_suffix :: "bytes \<Rightarrow> bytes \<Rightarrow> bool" where
  "domain_matches_suffix d suf =
     (if eq_ignore_ascii_case d suf then True
      else if length d \<le> length suf then False
      else let boundary_index = length d - length suf - 1
           in d ! boundary_index = 46 \<and>
              eq_ignore_ascii_case (drop (boundary_index + 1) d) suf)"

fun matcher_matches :: "(bytes \<Rightarrow> bytes \<Rightarrow> bool) \<Rightarrow> domain_matcher \<Rightarrow> bytes \<Rightarrow> bool" where
  "matcher_matches rx (Keyword k) d = contains_ignore_ascii_case d k"
| "matcher_matches rx (Full e) d = eq_ignore_ascii_case d e"
| "matcher_matches rx (Suffix s) d = domain_matches_suffix d s"
| "matcher_matches rx (Regex m) d = regex_matches rx m d"

section \<open>Compiled sets\<close>

definition LINEAR_MATCHER_LIMIT :: nat where "LINEAR_MATCHER_LIMIT = 8"

record 'ac domain_matcher_set_inner =
  i_linear :: "domain_matcher list option"
  i_full :: "bytes set"
  i_suffix :: "bytes set"
  i_keywords :: "bytes list"
  i_keyword_automaton :: "'ac option"
  i_regex :: "regex_matcher list"

record 'ac domain_matcher_set =
  set_inner :: "'ac domain_matcher_set_inner option"
  set_matcher_count :: nat

datatype 'e domain_matcher_set_error = KeywordError 'e

record domain_matcher_set_builder =
  db_linear :: "domain_matcher list option"
  db_full :: "bytes set"
  db_suffix :: "bytes set"
  db_keywords :: "bytes list"
  db_regex :: "regex_matcher list"
  db_matcher_count :: nat

definition domain_builder_default :: domain_matcher_set_builder where
  "domain_builder_default =
     \<lparr>db_linear = Some [], db_full = {}, db_suffix = {}, db_keywords = [], db_regex = [],
      db_matcher_count = 0\<rparr>"

definition lowercase_boxed :: "bytes \<Rightarrow> bytes" where
  "lowercase_boxed v = to_ascii_lowercase v"

fun normalize_linear_matcher :: "domain_matcher \<Rightarrow> domain_name_mode \<Rightarrow> domain_matcher" where
  "normalize_linear_matcher (Keyword k) mode = Keyword (to_ascii_lowercase k)"
| "normalize_linear_matcher (Full d) mode = Full (to_ascii_lowercase (mode_pattern mode d))"
| "normalize_linear_matcher (Suffix s) mode = Suffix (to_ascii_lowercase (mode_pattern mode s))"
| "normalize_linear_matcher (Regex m) mode = Regex m"

fun matcher_pattern_bytes :: "domain_matcher \<Rightarrow> nat" where
  "matcher_pattern_bytes (Keyword p) = length p"
| "matcher_pattern_bytes (Full p) = length p"
| "matcher_pattern_bytes (Suffix p) = length p"
| "matcher_pattern_bytes (Regex m) = length (rm_pattern m)"

definition insert_linear ::
    "domain_matcher \<Rightarrow> domain_name_mode \<Rightarrow> nat \<Rightarrow> domain_matcher list option \<Rightarrow>
     domain_matcher list option" where
  "insert_linear matcher mode count lin =
     (case lin of
        None \<Rightarrow> None
      | Some linear \<Rightarrow>
          if count < LINEAR_MATCHER_LIMIT
          then let m = normalize_linear_matcher matcher mode
               in Some (if m \<in> set linear then linear else linear @ [m])
          else None)"

definition domain_insert ::
    "domain_name_mode \<Rightarrow> domain_matcher \<Rightarrow> domain_matcher_set_builder \<Rightarrow>
     domain_matcher_set_builder" where
  "domain_insert mode matcher b0 =
     (let b = b0\<lparr>db_linear := insert_linear matcher mode (db_matcher_count b0) (db_linear b0)\<rparr>;
          b' = (case matcher of
                  Keyword k \<Rightarrow> b\<lparr>db_keywords := db_keywords b @ [lowercase_boxed k]\<rparr>
                | Full d \<Rightarrow> b\<lparr>db_full := insert (lowercase_boxed (mode_pattern mode d)) (db_full b)\<rparr>
                | Suffix s \<Rightarrow>
                    b\<lparr>db_suffix := insert (lowercase_boxed (mode_pattern mode s)) (db_suffix b)\<rparr>
                | Regex m \<Rightarrow> b\<lparr>db_regex := db_regex b @ [m]\<rparr>)
      in b'\<lparr>db_matcher_count := db_matcher_count b' + 1\<rparr>)"

definition domain_build ::
    "(bytes list \<Rightarrow> 'e + 'ac) \<Rightarrow> domain_matcher_set_builder \<Rightarrow>
     'e domain_matcher_set_error + 'ac domain_matcher_set" where
  "domain_build ac_build b =
     (if db_matcher_count b = 0 then Inr \<lparr>set_inner = None, set_matcher_count = 0\<rparr>
      else
        rbind
          (case db_linear b of
             Some linear \<Rightarrow>
               Inr \<lparr>i_linear = Some linear, i_full = {}, i_suffix = {}, i_keywords = [],
                    i_keyword_automaton = None, i_regex = []\<rparr>
           | None \<Rightarrow>
               rbind
                 (if db_keywords b = [] then Inr None
                  else rbind (map_err KeywordError (ac_build (db_keywords b))) (\<lambda>a. Inr (Some a)))
                 (\<lambda>a. Inr \<lparr>i_linear = None, i_full = db_full b, i_suffix = db_suffix b,
                           i_keywords = db_keywords b, i_keyword_automaton = a,
                           i_regex = db_regex b\<rparr>))
          (\<lambda>inner. Inr \<lparr>set_inner = Some inner, set_matcher_count = db_matcher_count b\<rparr>))"

definition domain_compile ::
    "(bytes list \<Rightarrow> 'e + 'ac) \<Rightarrow> domain_matcher list \<Rightarrow> domain_name_mode \<Rightarrow>
     'e domain_matcher_set_error + 'ac domain_matcher_set" where
  "domain_compile ac_build matchers mode =
     domain_build ac_build (fold (domain_insert mode) matchers domain_builder_default)"

definition domain_set_is_empty :: "'ac domain_matcher_set \<Rightarrow> bool" where
  "domain_set_is_empty s \<longleftrightarrow> set_matcher_count s = 0"

text \<open>\<open>rmatch_indices\<close>: the positions of the dots, from the last to the first.\<close>

definition rmatch_dots :: "bytes \<Rightarrow> nat list" where
  "rmatch_dots d = rev (filter (\<lambda>i. d ! i = 46) [0..<length d])"

definition matches_suffix :: "'ac domain_matcher_set_inner \<Rightarrow> bytes \<Rightarrow> bool" where
  "matches_suffix inner d \<longleftrightarrow>
     i_suffix inner \<noteq> {} \<and>
     (d \<in> i_suffix inner \<or> list_ex (\<lambda>index. drop (index + 1) d \<in> i_suffix inner) (rmatch_dots d))"

definition matches_keyword ::
    "('ac \<Rightarrow> bytes \<Rightarrow> bool) \<Rightarrow> 'ac domain_matcher_set_inner \<Rightarrow> bytes \<Rightarrow> bool" where
  "matches_keyword ac_is_match inner d =
     (case i_keyword_automaton inner of None \<Rightarrow> False | Some a \<Rightarrow> ac_is_match a d)"

definition matches_regex ::
    "(bytes \<Rightarrow> bytes \<Rightarrow> bool) \<Rightarrow> 'ac domain_matcher_set_inner \<Rightarrow> bytes \<Rightarrow> bool" where
  "matches_regex rx inner d = list_ex (\<lambda>m. rx (rm_pattern m) d) (i_regex inner)"

definition domain_set_matches ::
    "(bytes \<Rightarrow> bytes \<Rightarrow> bool) \<Rightarrow> ('ac \<Rightarrow> bytes \<Rightarrow> bool) \<Rightarrow> 'ac domain_matcher_set \<Rightarrow> bytes \<Rightarrow>
     bool" where
  "domain_set_matches rx ac_is_match s d =
     (case set_inner s of
        None \<Rightarrow> False
      | Some inner \<Rightarrow>
          (case i_linear inner of
             Some matchers \<Rightarrow> list_ex (\<lambda>m. matcher_matches rx m d) matchers
           | None \<Rightarrow>
               let d' = lowercase_ascii d
               in d' \<in> i_full inner \<or> matches_suffix inner d' \<or>
                  matches_keyword ac_is_match inner d' \<or> matches_regex rx inner d'))"

definition inner_pattern_bytes :: "'ac domain_matcher_set_inner \<Rightarrow> nat" where
  "inner_pattern_bytes inner =
     (case i_linear inner of
        Some matchers \<Rightarrow> sum_list (map matcher_pattern_bytes matchers)
      | None \<Rightarrow> sum length (i_full inner) + sum length (i_suffix inner) +
                sum_list (map length (i_keywords inner)) +
                sum_list (map (\<lambda>m. length (rm_pattern m)) (i_regex inner)))"

definition pattern_bytes :: "'ac domain_matcher_set \<Rightarrow> nat" where
  "pattern_bytes s = (case set_inner s of None \<Rightarrow> 0 | Some inner \<Rightarrow> inner_pattern_bytes inner)"

definition domain_set_eq :: "'ac domain_matcher_set \<Rightarrow> 'ac domain_matcher_set \<Rightarrow> bool" where
  "domain_set_eq s t \<longleftrightarrow>
     set_matcher_count s = set_matcher_count t \<and>
     (case (set_inner s, set_inner t) of
        (None, None) \<Rightarrow> True
      | (Some a, Some b) \<Rightarrow>
          i_linear a = i_linear b \<and> i_full a = i_full b \<and> i_suffix a = i_suffix b \<and>
          i_keywords a = i_keywords b \<and> map rm_pattern (i_regex a) = map rm_pattern (i_regex b)
      | _ \<Rightarrow> False)"

section \<open>Host index\<close>

datatype dns_host_target =
    HostIp ip_addr | HostIps "ip_addr list" | HostDomain bytes | HostRcode u8

record 't domain_host_index =
  h_full :: "bytes \<rightharpoonup> 't"
  h_others :: "(domain_matcher \<times> 't) list"

definition host_index_new :: "'t domain_host_index" where
  "host_index_new = \<lparr>h_full = Map.empty, h_others = []\<rparr>"

definition normalize_dns_pattern :: "bytes \<Rightarrow> bytes" where
  "normalize_dns_pattern p =
     (let trimmed = length (trim_end_dots p) in to_ascii_lowercase (take trimmed p))"

definition host_insert ::
    "domain_matcher \<Rightarrow> 't \<Rightarrow> 't domain_host_index \<Rightarrow> 't domain_host_index" where
  "host_insert matcher target ix =
     (case matcher of
        Full name \<Rightarrow>
          let key = normalize_dns_pattern name
          in (case h_full ix key of
                None \<Rightarrow> ix\<lparr>h_full := (h_full ix)(key \<mapsto> target)\<rparr>
              | Some _ \<Rightarrow> ix)
      | Suffix suf \<Rightarrow>
          ix\<lparr>h_others := h_others ix @ [(Suffix (normalize_dns_pattern suf), target)]\<rparr>
      | Keyword k \<Rightarrow> ix\<lparr>h_others := h_others ix @ [(Keyword k, target)]\<rparr>
      | Regex m \<Rightarrow> ix\<lparr>h_others := h_others ix @ [(Regex m, target)]\<rparr>)"

definition host_lookup ::
    "(bytes \<Rightarrow> bytes \<Rightarrow> bool) \<Rightarrow> 't domain_host_index \<Rightarrow> bytes \<Rightarrow> 't option" where
  "host_lookup rx ix d =
     (case h_full ix d of
        Some t \<Rightarrow> Some t
      | None \<Rightarrow> map_option snd (find (\<lambda>(m, _). matcher_matches rx m d) (h_others ix)))"

definition host_extend ::
    "(domain_matcher \<times> 't) list \<Rightarrow> 't domain_host_index \<Rightarrow> 't domain_host_index" where
  "host_extend entries ix = fold (\<lambda>(m, t). host_insert m t) entries ix"

definition host_from_iter :: "(domain_matcher \<times> 't) list \<Rightarrow> 't domain_host_index" where
  "host_from_iter entries = host_extend entries host_index_new"

definition host_len :: "'t domain_host_index \<Rightarrow> nat" where
  "host_len ix = card (dom (h_full ix)) + length (h_others ix)"

definition host_is_empty :: "'t domain_host_index \<Rightarrow> bool" where
  "host_is_empty ix \<longleftrightarrow> h_full ix = Map.empty \<and> h_others ix = []"

section \<open>What the matchers mean\<close>

lemma lowercase_ascii_eq [simp]: "lowercase_ascii v = to_ascii_lowercase v"
  by (simp add: lowercase_ascii_def lowercase_no_upper)

lemma regex_matches_lower: "regex_matches rx m d = rx (rm_pattern m) (to_ascii_lowercase d)"
  by (simp add: regex_matches_def Let_def lowercase_no_upper)

lemma windows_sublist:
  assumes "w \<noteq> []"
  shows "(\<exists>v \<in> set (windows (length w) xs). f v = f w) \<longleftrightarrow>
    (\<exists>us v vs. xs = us @ v @ vs \<and> length v = length w \<and> f v = f w)"
proof
  assume "\<exists>v \<in> set (windows (length w) xs). f v = f w"
  then obtain i where i: "i < Suc (length xs) - length w" "f (take (length w) (drop i xs)) = f w"
    by (auto simp: windows_def)
  then have "xs = take i xs @ take (length w) (drop i xs) @ drop (length w) (drop i xs)"
    "length (take (length w) (drop i xs)) = length w" by (simp_all only: append_take_drop_id, simp)
  with i(2) show "\<exists>us v vs. xs = us @ v @ vs \<and> length v = length w \<and> f v = f w" by blast
next
  assume "\<exists>us v vs. xs = us @ v @ vs \<and> length v = length w \<and> f v = f w"
  then obtain us v vs where "xs = us @ v @ vs" "length v = length w" "f v = f w" by blast
  moreover from this have "take (length w) (drop (length us) xs) = v" "length us < Suc (length xs) - length w"
    by auto
  ultimately show "\<exists>v \<in> set (windows (length w) xs). f v = f w"
    unfolding windows_def by (auto intro!: bexI [of _ "length us"])
qed

lemma map_eq_append3:
  "map f xs = us @ v @ vs \<longleftrightarrow> (\<exists>as b cs. xs = as @ b @ cs \<and> map f as = us \<and> map f b = v \<and> map f cs = vs)"
proof
  assume "map f xs = us @ v @ vs"
  then obtain as r where "xs = as @ r" "map f as = us" "map f r = v @ vs"
    by (metis map_eq_append_conv)
  moreover from this obtain b cs where "r = b @ cs" "map f b = v" "map f cs = vs"
    by (metis map_eq_append_conv)
  ultimately show "\<exists>as b cs. xs = as @ b @ cs \<and> map f as = us \<and> map f b = v \<and> map f cs = vs" by blast
qed auto

lemma contains_ignore_ascii_case_iff:
  "contains_ignore_ascii_case d k \<longleftrightarrow> sublist (to_ascii_lowercase k) (to_ascii_lowercase d)"
proof (cases "k = []")
  case False
  have "sublist (to_ascii_lowercase k) (to_ascii_lowercase d) \<longleftrightarrow>
      (\<exists>us v vs. d = us @ v @ vs \<and> to_ascii_lowercase v = to_ascii_lowercase k)"
    unfolding sublist_def to_ascii_lowercase_def map_eq_append3 by blast
  also have "\<dots> \<longleftrightarrow>
      (\<exists>us v vs. d = us @ v @ vs \<and> length v = length k \<and> to_ascii_lowercase v = to_ascii_lowercase k)"
    by (metis length_to_ascii_lowercase)
  finally show ?thesis
    using windows_sublist [OF False, of d to_ascii_lowercase] False
    by (simp add: contains_ignore_ascii_case_def list_ex_iff eq_ignore_ascii_case_iff)
qed (simp add: contains_ignore_ascii_case_def)

lemma drop_after_iff:
  "(\<exists>i < length xs. xs ! i = x \<and> drop (Suc i) xs = ys) \<longleftrightarrow> (\<exists>ls. xs = ls @ x # ys)"
proof
  assume "\<exists>i < length xs. xs ! i = x \<and> drop (Suc i) xs = ys"
  then show "\<exists>ls. xs = ls @ x # ys" using id_take_nth_drop by metis
next
  assume "\<exists>ls. xs = ls @ x # ys"
  then obtain ls where "xs = ls @ x # ys" by blast
  then show "\<exists>i < length xs. xs ! i = x \<and> drop (Suc i) xs = ys" by (intro exI [of _ "length ls"]) simp
qed

lemma nth_to_ascii_lowercase_dot: "i < length d \<Longrightarrow> to_ascii_lowercase d ! i = 46 \<longleftrightarrow> d ! i = 46"
  by (simp add: to_ascii_lowercase_def)

lemma domain_matches_suffix_iff:
  "domain_matches_suffix d s \<longleftrightarrow>
     to_ascii_lowercase d = to_ascii_lowercase s \<or>
     (\<exists>ls. to_ascii_lowercase d = ls @ 46 # to_ascii_lowercase s)"
proof (cases "length s < length d")
  case True
  let ?b = "length d - length s - 1"
  have "?b < length d" using True by simp
  have "(\<exists>ls. to_ascii_lowercase d = ls @ 46 # to_ascii_lowercase s) \<longleftrightarrow>
      d ! ?b = 46 \<and> drop (Suc ?b) (to_ascii_lowercase d) = to_ascii_lowercase s" (is "?l = ?r")
  proof
    assume ?l
    then obtain ls where ls: "to_ascii_lowercase d = ls @ 46 # to_ascii_lowercase s" by blast
    have "?b = length ls" using arg_cong [OF ls, of length] by simp
    then show ?r using ls nth_to_ascii_lowercase_dot [OF \<open>?b < length d\<close>] by simp
  next
    assume ?r
    then show ?l
      using \<open>?b < length d\<close> nth_to_ascii_lowercase_dot [of ?b d]
      by (subst drop_after_iff [symmetric]) (auto intro!: exI [of _ ?b])
  qed
  then show ?thesis using True by (auto simp: domain_matches_suffix_def Let_def eq_ignore_ascii_case_iff)
next
  case False
  have "to_ascii_lowercase d \<noteq> ls @ 46 # to_ascii_lowercase s" for ls
  proof
    assume "to_ascii_lowercase d = ls @ 46 # to_ascii_lowercase s"
    from arg_cong [OF this, of length] False show False by simp
  qed
  then show ?thesis using False by (simp add: domain_matches_suffix_def eq_ignore_ascii_case_iff)
qed

section \<open>The builder accumulates the rules\<close>

text \<open>A rule with the name normalisation of its mode; \<open>Routing\<close> leaves it as it is.\<close>

fun in_mode :: "domain_name_mode \<Rightarrow> domain_matcher \<Rightarrow> domain_matcher" where
  "in_mode mode (Full d) = Full (mode_pattern mode d)"
| "in_mode mode (Suffix s) = Suffix (mode_pattern mode s)"
| "in_mode mode (Keyword k) = Keyword k"
| "in_mode mode (Regex m) = Regex m"

lemma in_mode_Routing [simp]: "in_mode Routing m = m"
  by (cases m) simp_all

lemma matcher_matches_normalize [simp]:
  "matcher_matches rx (normalize_linear_matcher m mode) d = matcher_matches rx (in_mode mode m) d"
  by (cases m) (simp_all add: contains_ignore_ascii_case_iff eq_ignore_ascii_case_iff domain_matches_suffix_iff)

definition names_of :: "(domain_matcher \<Rightarrow> bytes option) \<Rightarrow> domain_matcher list \<Rightarrow> bytes list" where
  "names_of sel ms = map to_ascii_lowercase (List.map_filter sel ms)"

lemma names_of_simps [simp]:
  "names_of sel [] = []"
  "names_of sel (ms @ ns) = names_of sel ms @ names_of sel ns"
  "names_of sel [m] = (case sel m of None \<Rightarrow> [] | Some n \<Rightarrow> [to_ascii_lowercase n])"
  by (simp_all add: names_of_def map_filter_def split: option.splits)

fun keyword_of where "keyword_of (Keyword k) = Some k" | "keyword_of _ = None"
fun full_of where "full_of (Full k) = Some k" | "full_of _ = None"
fun suffix_of where "suffix_of (Suffix k) = Some k" | "suffix_of _ = None"
fun regex_of where "regex_of (Regex m) = Some m" | "regex_of _ = None"

definition linear_ok :: "domain_name_mode \<Rightarrow> domain_matcher list \<Rightarrow> domain_matcher list option \<Rightarrow> bool" where
  "linear_ok mode ms lin \<longleftrightarrow>
     (if length ms \<le> LINEAR_MATCHER_LIMIT
      then \<exists>l. lin = Some l \<and> distinct l \<and> set l = (\<lambda>m. normalize_linear_matcher m mode) ` set ms
      else lin = None)"

lemma insert_linear_ok:
  "linear_ok mode ms lin \<Longrightarrow> linear_ok mode (ms @ [m]) (insert_linear m mode (length ms) lin)"
  by (auto simp: linear_ok_def insert_linear_def Let_def LINEAR_MATCHER_LIMIT_def split: option.splits if_splits)

lemma builder_ok:
  fixes mode ms
  defines "b \<equiv> fold (domain_insert mode) ms domain_builder_default"
  shows "db_matcher_count b = length ms"
    and "linear_ok mode ms (db_linear b)"
    and "db_keywords b = names_of keyword_of ms"
    and "db_full b = set (names_of full_of (map (in_mode mode) ms))"
    and "db_suffix b = set (names_of suffix_of (map (in_mode mode) ms))"
    and "db_regex b = List.map_filter regex_of ms"
proof -
  have "db_matcher_count b = length ms \<and> linear_ok mode ms (db_linear b) \<and>
      db_keywords b = names_of keyword_of ms \<and>
      db_full b = set (names_of full_of (map (in_mode mode) ms)) \<and>
      db_suffix b = set (names_of suffix_of (map (in_mode mode) ms)) \<and>
      db_regex b = List.map_filter regex_of ms"
    unfolding b_def
  proof (induction ms rule: rev_induct)
    case Nil
    then show ?case by (simp add: domain_builder_default_def linear_ok_def LINEAR_MATCHER_LIMIT_def map_filter_def)
  next
    case (snoc m ms)
    then show ?case
      by (cases m) (simp_all add: domain_insert_def Let_def insert_linear_ok lowercase_boxed_def map_filter_def)
  qed
  then show "db_matcher_count b = length ms" "linear_ok mode ms (db_linear b)"
    "db_keywords b = names_of keyword_of ms"
    "db_full b = set (names_of full_of (map (in_mode mode) ms))"
    "db_suffix b = set (names_of suffix_of (map (in_mode mode) ms))"
    "db_regex b = List.map_filter regex_of ms" by blast+
qed

lemma set_names_of: "set (names_of sel ms) = {to_ascii_lowercase n | n m. m \<in> set ms \<and> sel m = Some n}"
  by (force simp: names_of_def map_filter_def)

text \<open>The four indexes together answer for the rules they were built from.\<close>

lemma matches_suffix_iff:
  "matches_suffix inner d \<longleftrightarrow> (\<exists>s \<in> i_suffix inner. d = s \<or> (\<exists>ls. d = ls @ 46 # s))"
proof -
  have "list_ex (\<lambda>i. drop (i + 1) d \<in> i_suffix inner) (rmatch_dots d) \<longleftrightarrow>
      (\<exists>s \<in> i_suffix inner. \<exists>ls. d = ls @ 46 # s)"
    unfolding drop_after_iff [symmetric] by (auto simp: list_ex_iff rmatch_dots_def)
  then show ?thesis by (auto simp: matches_suffix_def)
qed

lemma exists_matcher_cases:
  "(\<exists>m \<in> set ms. matcher_matches rx m d) \<longleftrightarrow>
     (\<exists>k. Keyword k \<in> set ms \<and> sublist (to_ascii_lowercase k) (to_ascii_lowercase d)) \<or>
     (\<exists>e. Full e \<in> set ms \<and> to_ascii_lowercase d = to_ascii_lowercase e) \<or>
     (\<exists>s. Suffix s \<in> set ms \<and> domain_matches_suffix d s) \<or>
     (\<exists>m. Regex m \<in> set ms \<and> rx (rm_pattern m) (to_ascii_lowercase d))" (is "?l = ?r")
proof
  assume ?l
  then obtain m where m: "m \<in> set ms" "matcher_matches rx m d" by blast
  show ?r
    by (cases m) (use m in \<open>auto simp: contains_ignore_ascii_case_iff eq_ignore_ascii_case_iff
        regex_matches_lower\<close>)
next
  assume ?r
  then show ?l
    by (auto simp: contains_ignore_ascii_case_iff [symmetric] eq_ignore_ascii_case_iff [symmetric]
        regex_matches_lower [symmetric] intro: bexI [rotated])
qed

text \<open>The contract of the automaton: it finds the texts that contain one of its keywords.\<close>

definition automaton_law :: "(bytes list \<Rightarrow> 'e + 'ac) \<Rightarrow> ('ac \<Rightarrow> bytes \<Rightarrow> bool) \<Rightarrow> bool" where
  "automaton_law ac_build ac_is_match \<longleftrightarrow>
     (\<forall>ks a d. ac_build ks = Inr a \<longrightarrow> ac_is_match a d = list_ex (\<lambda>k. sublist k d) ks)"

lemma in_mode_image:
  "Keyword k \<in> in_mode mode ` set ms \<longleftrightarrow> Keyword k \<in> set ms"
  "Regex m \<in> in_mode mode ` set ms \<longleftrightarrow> Regex m \<in> set ms"
proof -
  have "in_mode mode x = Keyword k \<longleftrightarrow> x = Keyword k" "in_mode mode x = Regex m \<longleftrightarrow> x = Regex m" for x
    by (cases x; simp)+
  then show "Keyword k \<in> in_mode mode ` set ms \<longleftrightarrow> Keyword k \<in> set ms"
    "Regex m \<in> in_mode mode ` set ms \<longleftrightarrow> Regex m \<in> set ms" by force+
qed

lemma selectors:
  "keyword_of m = Some k \<longleftrightarrow> m = Keyword k" "full_of m = Some k \<longleftrightarrow> m = Full k"
  "suffix_of m = Some k \<longleftrightarrow> m = Suffix k" "regex_of m = Some r \<longleftrightarrow> m = Regex r"
  by (cases m; simp)+

lemma names_of_full: "l \<in> set (names_of full_of ms) \<longleftrightarrow> (\<exists>e. Full e \<in> set ms \<and> l = to_ascii_lowercase e)"
  by (auto simp: set_names_of selectors)

lemma names_of_suffix:
  "(\<exists>s \<in> set (names_of suffix_of ms). P s) \<longleftrightarrow> (\<exists>s. Suffix s \<in> set ms \<and> P (to_ascii_lowercase s))"
  by (auto simp: set_names_of selectors)

lemma domain_build_indexed:
  assumes "domain_build ac_build b = Inr s" "db_matcher_count b \<noteq> 0" "db_linear b = None"
  obtains a where "set_inner s = Some \<lparr>i_linear = None, i_full = db_full b, i_suffix = db_suffix b,
      i_keywords = db_keywords b, i_keyword_automaton = a, i_regex = db_regex b\<rparr>"
    "(case a of None \<Rightarrow> db_keywords b = [] | Some x \<Rightarrow> ac_build (db_keywords b) = Inr x)"
  using assms by (auto simp: domain_build_def rbind_eq_Inr split: if_splits)

lemma indexed_matches:
  assumes law: "automaton_law ac_build ac_is_match"
    and c: "domain_compile ac_build ms mode = Inr s" and n: "LINEAR_MATCHER_LIMIT < length ms"
  shows "domain_set_matches rx ac_is_match s d \<longleftrightarrow>
    (\<exists>m \<in> in_mode mode ` set ms. matcher_matches rx m d)"
proof -
  let ?b = "fold (domain_insert mode) ms domain_builder_default"
  note b = builder_ok [where mode = mode and ms = ms]
  have lin: "db_linear ?b = None" using b(2) n by (simp add: linear_ok_def)
  obtain a where s: "set_inner s = Some \<lparr>i_linear = None, i_full = db_full ?b,
        i_suffix = db_suffix ?b, i_keywords = db_keywords ?b, i_keyword_automaton = a,
        i_regex = db_regex ?b\<rparr>"
      and a: "case a of None \<Rightarrow> db_keywords ?b = [] | Some x \<Rightarrow> ac_build (db_keywords ?b) = Inr x"
    using domain_build_indexed [OF c [unfolded domain_compile_def]] b(1) n lin by force
  let ?l = "to_ascii_lowercase d"
  have kw: "(case a of None \<Rightarrow> False | Some x \<Rightarrow> ac_is_match x ?l) \<longleftrightarrow>
      (\<exists>k. Keyword k \<in> set ms \<and> sublist (to_ascii_lowercase k) ?l)"
  proof -
    have "(case a of None \<Rightarrow> False | Some x \<Rightarrow> ac_is_match x ?l) \<longleftrightarrow>
        (\<exists>k \<in> set (db_keywords ?b). sublist k ?l)"
      using a law by (auto simp: automaton_law_def list_ex_iff split: option.splits)
    then show ?thesis by (auto simp: b(3) set_names_of selectors)
  qed
  have fu: "?l \<in> db_full ?b \<longleftrightarrow> (\<exists>e. Full e \<in> in_mode mode ` set ms \<and> ?l = to_ascii_lowercase e)"
    by (simp only: b(4) names_of_full set_map)
  have su: "(\<exists>s \<in> db_suffix ?b. ?l = s \<or> (\<exists>ls. ?l = ls @ 46 # s)) \<longleftrightarrow>
      (\<exists>s. Suffix s \<in> in_mode mode ` set ms \<and> domain_matches_suffix d s)"
    by (simp only: b(5) names_of_suffix set_map domain_matches_suffix_iff)
  have re: "list_ex (\<lambda>m. rx (rm_pattern m) ?l) (db_regex ?b) \<longleftrightarrow>
      (\<exists>m. Regex m \<in> set ms \<and> rx (rm_pattern m) ?l)"
    by (auto simp: b(6) list_ex_iff map_filter_def selectors)
  have "(\<exists>m \<in> in_mode mode ` set ms. matcher_matches rx m d) \<longleftrightarrow>
      (\<exists>k. Keyword k \<in> set ms \<and> sublist (to_ascii_lowercase k) ?l) \<or>
      (\<exists>e. Full e \<in> in_mode mode ` set ms \<and> ?l = to_ascii_lowercase e) \<or>
      (\<exists>s. Suffix s \<in> in_mode mode ` set ms \<and> domain_matches_suffix d s) \<or>
      (\<exists>m. Regex m \<in> set ms \<and> rx (rm_pattern m) ?l)"
    using exists_matcher_cases [of "map (in_mode mode) ms" rx d] by (simp only: set_map in_mode_image)
  then show ?thesis
    by (auto simp: domain_set_matches_def s Let_def matches_keyword_def matches_regex_def matches_suffix_iff
        kw fu su re)
qed

lemma linear_matches:
  assumes c: "domain_compile ac_build ms mode = Inr s" and n: "length ms \<le> LINEAR_MATCHER_LIMIT"
  shows "domain_set_matches rx ac_is_match s d \<longleftrightarrow>
    (\<exists>m \<in> in_mode mode ` set ms. matcher_matches rx m d)"
proof (cases "ms = []")
  case True
  then show ?thesis
    using c by (auto simp: domain_compile_def domain_build_def domain_builder_default_def domain_set_matches_def)
next
  case False
  let ?b = "fold (domain_insert mode) ms domain_builder_default"
  note b = builder_ok [where mode = mode and ms = ms]
  obtain l where l: "db_linear ?b = Some l" "set l = (\<lambda>m. normalize_linear_matcher m mode) ` set ms"
    using b(2) n by (auto simp: linear_ok_def)
  then have "set_inner s = Some \<lparr>i_linear = Some l, i_full = {}, i_suffix = {}, i_keywords = [],
      i_keyword_automaton = None, i_regex = []\<rparr>"
    using c False b(1) by (auto simp: domain_compile_def domain_build_def)
  then show ?thesis using l(2) by (simp add: domain_set_matches_def list_ex_iff)
qed

section \<open>Host index\<close>

lemma trim_end_dots_prefix: "take (length (trim_end_dots p)) p = trim_end_dots p"
proof -
  have "p = trim_end_dots p @ rev (takeWhile (\<lambda>b. b = 46) (rev p))"
    unfolding trim_end_dots_def by (metis rev_append rev_rev_ident takeWhile_dropWhile_id)
  then show ?thesis by (metis append_eq_conv_conj)
qed

lemma normalize_dns_pattern_eq: "normalize_dns_pattern p = to_ascii_lowercase (trim_end_dots p)"
  by (simp only: normalize_dns_pattern_def Let_def trim_end_dots_prefix)

fun host_full_name :: "domain_matcher \<Rightarrow> bytes option" where
  "host_full_name (Full n) = Some (normalize_dns_pattern n)"
| "host_full_name _ = None"

fun host_other :: "(bytes \<Rightarrow> bytes \<Rightarrow> bool) \<Rightarrow> bytes \<Rightarrow> domain_matcher \<Rightarrow> bool" where
  "host_other rx d (Full _) = False"
| "host_other rx d m = matcher_matches rx (in_mode Dns m) d"

lemma find_append: "find p (xs @ ys) = (case find p xs of None \<Rightarrow> find p ys | Some x \<Rightarrow> Some x)"
  by (induction xs) auto

lemma host_full_spec:
  "h_full (fold (\<lambda>(m, t). host_insert m t) es ix) d =
     (case h_full ix d of
        Some t \<Rightarrow> Some t
      | None \<Rightarrow> map_option snd (find (\<lambda>(m, t). host_full_name m = Some d) es))"
proof (induction es arbitrary: ix)
  case Nil
  then show ?case by (simp split: option.splits)
next
  case (Cons e es)
  obtain m t where "e = (m, t)" by fastforce
  with Cons show ?case by (cases m) (auto simp: host_insert_def Let_def split: option.splits)
qed

lemma host_others_spec:
  "map_option snd (find (\<lambda>(m, _). matcher_matches rx m d) (h_others (fold (\<lambda>(m, t). host_insert m t) es ix))) =
     (case find (\<lambda>(m, _). matcher_matches rx m d) (h_others ix) of
        Some (m, t) \<Rightarrow> Some t
      | None \<Rightarrow> map_option snd (find (\<lambda>(m, t). host_other rx d m) es))"
proof (induction es arbitrary: ix)
  case Nil
  then show ?case by (simp split: option.splits)
next
  case (Cons e es)
  obtain m t where e: "e = (m, t)" by fastforce
  have suf: "matcher_matches rx (Suffix (normalize_dns_pattern s)) d = matcher_matches rx (in_mode Dns (Suffix s)) d" for s
    by (simp add: normalize_dns_pattern_eq domain_matches_suffix_iff)
  show ?case
    by (cases m) (use Cons suf in \<open>auto simp: e host_insert_def Let_def find_append split: option.splits\<close>)
qed

lemma domain_build_total:
  "ac_build (db_keywords b) = Inr a \<Longrightarrow> \<exists>s. domain_build ac_build b = Inr s"
  by (cases "db_linear b") (simp_all add: domain_build_def)

section \<open>Properties\<close>

text \<open>
  C4. The compiled domain set agrees with the linear reference matcher it replaces: for
  every rule list that compiles, whether it is kept as a short linear list or split into hash
  sets, a keyword automaton and regexes, a domain matches the set exactly when it matches one of
  the rules, with the names of \<open>full:\<close> and \<open>domain:\<close> rules normalised as the mode asks (not at
  all for routing rules). The automaton is assumed to find exactly the texts with a keyword.
\<close>

theorem compiled_set_agrees:
  assumes "automaton_law ac_build ac_is_match" "domain_compile ac_build ms mode = Inr s"
  shows "domain_set_matches rx ac_is_match s d = list_ex (\<lambda>m. matcher_matches rx m d) (map (in_mode mode) ms)"
  using indexed_matches [OF assms] linear_matches [OF assms(2)]
  by (cases "LINEAR_MATCHER_LIMIT < length ms") (simp_all add: list_ex_iff)

definition demo_rules :: "domain_matcher list" where
  "demo_rules =
     [Full (b_str ''a.b''), Full (b_str ''b.b''), Full (b_str ''c.b''), Full (b_str ''d.b''),
      Full (b_str ''e.b''), Full (b_str ''f.b''), Keyword (b_str ''AD''), Suffix (b_str ''x.y''),
      Full (b_str ''z.b'')]"

theorem compiled_set_agrees_witness:
  "\<exists>s. domain_compile Inr demo_rules Routing = (Inr s :: unit domain_matcher_set_error + bytes list domain_matcher_set) \<and>
     domain_set_matches (\<lambda>p t. False) (\<lambda>ks d. list_ex (\<lambda>k. sublist k d) ks) s (b_str ''W.X.Y'')"
proof -
  let ?m = "\<lambda>ks d. list_ex (\<lambda>k. sublist k d) ks"
  have law: "automaton_law (Inr :: bytes list \<Rightarrow> unit + bytes list) ?m"
    by (simp add: automaton_law_def)
  obtain s where s: "domain_compile Inr demo_rules Routing = (Inr s :: unit domain_matcher_set_error + bytes list domain_matcher_set)"
    using domain_build_total [of "Inr :: bytes list \<Rightarrow> unit + bytes list"] by (auto simp: domain_compile_def)
  have "matcher_matches (\<lambda>p t. False) (Suffix (b_str ''x.y'')) (b_str ''W.X.Y'')" by code_simp
  then have "list_ex (\<lambda>m. matcher_matches (\<lambda>p t. False) m (b_str ''W.X.Y'')) (map (in_mode Routing) demo_rules)"
    by (simp add: demo_rules_def)
  with compiled_set_agrees [OF law s, of "\<lambda>p t. False" "b_str ''W.X.Y''"] s show ?thesis by blast
qed

text \<open>
  Compilation fails only on the automaton: exactly when the rules are more than the
  linear limit, some of them are keywords, and the automaton refuses the lowercased keywords; the
  error is the automaton's own. A compiled set is empty exactly when there were no rules.
\<close>

theorem compile_error_only_automaton:
  "case domain_compile ac_build ms mode of
     Inl e \<Rightarrow> LINEAR_MATCHER_LIMIT < length ms \<and> names_of keyword_of ms \<noteq> [] \<and>
       map_err KeywordError (ac_build (names_of keyword_of ms)) = Inl e
   | Inr s \<Rightarrow> set_matcher_count s = length ms \<and> domain_set_is_empty s = (ms = [])"
  using builder_ok(1,2,3) [where mode = mode and ms = ms]
  by (auto simp: domain_compile_def domain_build_def linear_ok_def domain_set_is_empty_def
      rbind_eq_Inr rbind_eq_Inl split: sum.splits option.splits if_splits)

text \<open>
  A \<open>domain:\<close> rule matches whole labels, ignoring ASCII case: the name itself, or
  some prefix, a dot, and the name.
\<close>

theorem suffix_is_label_boundary:
  "domain_matches_suffix d s =
     (to_ascii_lowercase d = to_ascii_lowercase s \<or>
      (\<exists>ls. to_ascii_lowercase d = ls @ b_str ''.'' @ to_ascii_lowercase s))"
  by (simp add: domain_matches_suffix_iff b_str_def)

text \<open>
  C22. The host index answers a name with the target of the first \<open>full:\<close> entry of that
  normalised name; when there is none, with the target of the first other entry, in insertion
  order, that matches it.
\<close>

theorem host_lookup_first:
  "host_lookup rx (host_from_iter es) d =
     (case find (\<lambda>(m, t). host_full_name m = Some d) es of
        Some (m, t) \<Rightarrow> Some t
      | None \<Rightarrow> map_option snd (find (\<lambda>(m, t). host_other rx d m) es))"
  using host_full_spec [of es host_index_new d] host_others_spec [of rx d es host_index_new]
  by (auto simp: host_lookup_def host_from_iter_def host_extend_def host_index_new_def split: option.splits)

end
