(* ===== verification/Xr_Codec.thy ===== *)
theory Xr_Codec
  imports Xr_Net "HOL-Library.Sublist"
begin

text \<open>
  The interface of the wire codecs. A \<open>stream_codec\<close> decodes an encoded value from the front of a
  byte string and says how many bytes it took; an \<open>incremental_codec\<close> also recognises input
  that has not arrived completely. The lemmas here are what the protocol code relies on: encodings
  are uniquely decodable, and a read loop over any chunking of a stream of frames sees the
  frames.
\<close>

section \<open>Prefixes of frames\<close>

lemma strict_prefix_appendE:
  assumes "strict_prefix q (a @ b)"
  obtains "strict_prefix q a" | r where "q = a @ r" "strict_prefix r b"
proof -
  have "prefix q (a @ b)" "q \<noteq> a @ b" using assms by (auto simp: strict_prefix_def)
  then consider "prefix q a" | us where "q = a @ us" "prefix us b" by (auto simp: prefix_append)
  then show thesis
  proof cases
    case 1
    then show thesis
    proof (cases "q = a")
      case True
      then show thesis using \<open>q \<noteq> a @ b\<close> that(2) [of "[]"] by (auto simp: strict_prefix_def)
    qed (use that in \<open>auto simp: strict_prefix_def\<close>)
  next
    case 2
    then show thesis using \<open>q \<noteq> a @ b\<close> that by (auto simp: strict_prefix_def)
  qed
qed

lemma prefix_take_eq: "prefix p (x @ y) \<Longrightarrow> length x \<le> length p \<Longrightarrow> take (length x) p = x"
  by (auto simp: prefix_def append_eq_append_conv2)

section \<open>Streams\<close>

text \<open>
  A byte stream as a reader sees it: what is still to arrive, pieces of data or a read error. A
  read returns at most \<open>limit\<close> bytes of the next piece; nothing left is the end of the stream,
  which a reader sees as a read of no bytes.
\<close>

type_synonym arrivals = "(io_error + bytes) list"

fun read_chunk :: "nat \<Rightarrow> arrivals \<Rightarrow> (io_error + bytes) \<times> arrivals" where
  "read_chunk limit [] = (Inr [], [])"
| "read_chunk limit (Inl e # as) = (Inl e, as)"
| "read_chunk limit (Inr c # as) =
     (if length c \<le> limit then (Inr c, as) else (Inr (take limit c), Inr (drop limit c) # as))"

definition data_bytes :: "arrivals \<Rightarrow> nat" where
  "data_bytes as = sum_list (map (\<lambda>a. case a of Inl _ \<Rightarrow> 0 | Inr c \<Rightarrow> length c) as)"

lemma read_chunk_data_bytes:
  "read_chunk limit as = (Inr c, as') \<Longrightarrow> data_bytes as = length c + data_bytes as'"
  by (induction limit as rule: read_chunk.induct) (auto simp: data_bytes_def split: if_splits)

lemma read_chunk_length: "read_chunk limit as = (Inr c, as') \<Longrightarrow> length c \<le> limit"
  by (induction limit as rule: read_chunk.induct) (auto split: if_splits)

text \<open>A stream that delivers the bytes \<open>bs\<close>, in non-empty pieces of any size.\<close>

definition delivers :: "arrivals \<Rightarrow> bytes \<Rightarrow> bool" where
  "delivers as bs \<longleftrightarrow> (\<exists>cs. as = map Inr cs \<and> [] \<notin> set cs \<and> concat cs = bs)"

lemma delivers_Nil [simp]: "delivers [] bs \<longleftrightarrow> bs = []"
  by (auto simp: delivers_def)

lemma delivers_empty [simp]: "delivers as [] \<longleftrightarrow> as = []"
proof -
  have "cs = []" if "[] \<notin> set cs" "concat cs = []" for cs :: "bytes list"
    using that by (cases cs) auto
  then show ?thesis by (auto simp: delivers_def)
qed

lemma delivers_read_chunk:
  assumes "delivers as bs" "0 < limit" "bs \<noteq> []"
  obtains c as' where "read_chunk limit as = (Inr c, as')" "c \<noteq> []" "length c \<le> limit"
    "delivers as' (drop (length c) bs)" "prefix c bs"
proof -
  obtain cs where cs: "as = map Inr cs" "[] \<notin> set cs" "concat cs = bs"
    using assms(1) by (auto simp: delivers_def)
  with assms(3) obtain d ds where d: "cs = d # ds" by (cases cs) auto
  show thesis
  proof (cases "length d \<le> limit")
    case True
    then show thesis using cs d that [of d "map Inr ds"] by (auto simp: delivers_def)
  next
    case False
    have "delivers (Inr (drop limit d) # map Inr ds) (drop (length (take limit d)) bs)"
      unfolding delivers_def
      by (rule exI [of _ "drop limit d # ds"]) (use False cs d in auto)
    moreover have "prefix (take limit d) bs"
      using cs(3) d by (metis concat.simps(2) prefix_order.trans prefixI take_is_prefix)
    ultimately show thesis
      using False cs d assms(2) that [of "take limit d" "Inr (drop limit d) # map Inr ds"] by auto
  qed
qed

text \<open>
  A reader with the frames \<open>xs\<close> still to come: part of them in its buffer, the rest arriving.
\<close>

definition pending :: "('a \<Rightarrow> bool) \<Rightarrow> ('a \<Rightarrow> bytes) \<Rightarrow> bytes \<Rightarrow> arrivals \<Rightarrow> 'a list \<Rightarrow> bool" where
  "pending good enc buf as xs \<longleftrightarrow>
     list_all good xs \<and> (\<exists>bs. delivers as bs \<and> buf @ bs = concat (map enc xs))"

lemma pending_Nil [simp]: "pending good enc buf as [] \<longleftrightarrow> buf = [] \<and> as = []"
  by (auto simp: pending_def)

section \<open>Interfaces\<close>

locale stream_codec =
  fixes good :: "'a \<Rightarrow> bool"
    and enc :: "'a \<Rightarrow> bytes"
    and dec :: "bytes \<Rightarrow> ('a \<times> nat) option"
  assumes dec_enc: "good x \<Longrightarrow> dec (enc x @ rest) = Some (x, length (enc x))"
    and enc_nonempty: "good x \<Longrightarrow> enc x \<noteq> []"
begin

lemma dec_enc_whole: "good x \<Longrightarrow> dec (enc x) = Some (x, length (enc x))"
  using dec_enc [of x "[]"] by simp

lemma enc_append_inj:
  assumes "good x" "good y" "enc x @ r = enc y @ s"
  shows "x = y \<and> r = s"
  using dec_enc [OF assms(1), of r] dec_enc [OF assms(2), of s] assms(3) by auto

lemma enc_inj: "good x \<Longrightarrow> good y \<Longrightarrow> enc x = enc y \<Longrightarrow> x = y"
  using enc_append_inj [of x y "[]" "[]"] by simp

lemma prefix_free: "good x \<Longrightarrow> good y \<Longrightarrow> prefix (enc x) (enc y) \<Longrightarrow> x = y"
  using enc_append_inj [of x y _ "[]"] by (auto simp: prefix_def)

lemma uniquely_decodable:
  "list_all good xs \<Longrightarrow> list_all good ys \<Longrightarrow> concat (map enc xs) = concat (map enc ys) \<Longrightarrow> xs = ys"
proof (induction xs arbitrary: ys)
  case Nil
  then show ?case by (cases ys) (auto simp: enc_nonempty)
next
  case (Cons x xs)
  then obtain y ys' where ys: "ys = y # ys'" by (cases ys) (auto simp: enc_nonempty)
  have "x = y \<and> concat (map enc xs) = concat (map enc ys')"
    using Cons.prems by (intro enc_append_inj) (simp_all add: ys)
  then show ?case using Cons.IH [of ys'] Cons.prems(1,2) by (simp add: ys)
qed

end

locale incremental_codec = stream_codec +
  fixes need :: "bytes \<Rightarrow> bool"
  assumes need_dec: "need p \<Longrightarrow> dec p = None"
    and need_prefix: "good x \<Longrightarrow> strict_prefix p (enc x) \<Longrightarrow> need p"
begin

lemma need_iff_short:
  assumes "good x" "prefix p (enc x @ rest)"
  shows "if length p < length (enc x) then need p else dec p = Some (x, length (enc x))"
proof (cases "length p < length (enc x)")
  case True
  then have "strict_prefix p (enc x)"
    using assms(2) by (metis less_le_not_le prefix_length_prefix prefixI prefix_order.less_le_not_le prefix_length_le)
  then show ?thesis using True need_prefix assms(1) by simp
next
  case False
  then obtain r where "p = enc x @ r"
    using assms(2) by (metis linorder_not_less prefixI prefix_def prefix_length_prefix)
  then show ?thesis using False dec_enc [OF assms(1)] by simp
qed

lemma pending_short:
  assumes "pending good enc buf as (x # xs)" "length buf < length (enc x)"
  shows "need buf"
    and "0 < limit \<Longrightarrow> \<exists>c as'. read_chunk limit as = (Inr c, as') \<and> c \<noteq> [] \<and>
      pending good enc (buf @ c) as' (x # xs)"
proof -
  obtain bs where bs: "delivers as bs" "buf @ bs = enc x @ concat (map enc xs)"
    and ok: "good x" "list_all good xs"
    using assms(1) by (auto simp: pending_def)
  have "prefix buf (enc x @ concat (map enc xs))" using bs(2) by (metis prefixI)
  from need_iff_short [OF ok(1) this] show "need buf" using assms(2) by simp
  assume l: "0 < limit"
  have "bs \<noteq> []" using bs(2) assms(2) by auto
  then obtain c as' where c: "read_chunk limit as = (Inr c, as')" "c \<noteq> []"
      "delivers as' (drop (length c) bs)" "prefix c bs"
    using delivers_read_chunk [OF bs(1) l] by blast
  have "(buf @ c) @ drop (length c) bs = concat (map enc (x # xs))"
    using c(4) bs(2) by (auto simp: prefix_def)
  then show "\<exists>c as'. read_chunk limit as = (Inr c, as') \<and> c \<noteq> [] \<and> pending good enc (buf @ c) as' (x # xs)"
    using c(1-3) ok unfolding pending_def by (intro exI [of _ c] exI [of _ as']) auto
qed

lemma pending_full:
  assumes "pending good enc buf as (x # xs)" "\<not> length buf < length (enc x)"
  shows "dec buf = Some (x, length (enc x))" "pending good enc (drop (length (enc x)) buf) as xs"
proof -
  obtain bs where bs: "delivers as bs" "buf @ bs = enc x @ concat (map enc xs)"
    and ok: "good x" "list_all good xs"
    using assms(1) by (auto simp: pending_def)
  have "prefix buf (enc x @ concat (map enc xs))" using bs(2) by (metis prefixI)
  from need_iff_short [OF ok(1) this] show "dec buf = Some (x, length (enc x))" using assms(2) by simp
  have "drop (length (enc x)) buf @ bs = concat (map enc xs)"
    using arg_cong [OF bs(2), of "drop (length (enc x))"] assms(2) by simp
  then show "pending good enc (drop (length (enc x)) buf) as xs"
    using bs(1) ok(2) by (auto simp: pending_def)
qed

end

text \<open>All the frames at the front of a byte string.\<close>

function decode_all :: "(bytes \<Rightarrow> ('a \<times> nat) option) \<Rightarrow> bytes \<Rightarrow> 'a list" where
  "decode_all dec bs =
     (if bs = [] then []
      else (case dec bs of
          None \<Rightarrow> []
        | Some (x, n) \<Rightarrow> if n = 0 then [x] else x # decode_all dec (drop n bs)))"
  by pat_completeness auto
termination
  by (relation "measure (\<lambda>(dec, bs). length bs)") auto

declare decode_all.simps [simp del]

context incremental_codec
begin

lemma decode_all_Cons: "good x \<Longrightarrow> decode_all dec (enc x @ rest) = x # decode_all dec rest"
  using dec_enc [of x rest] enc_nonempty [of x] by (subst decode_all.simps) simp

lemma decode_all_whole: "list_all good xs \<Longrightarrow> decode_all dec (concat (map enc xs)) = xs"
  by (induction xs) (simp_all add: decode_all_Cons, simp add: decode_all.simps)

lemma decode_all_prefix:
  "list_all good xs \<Longrightarrow> prefix p (concat (map enc xs)) \<Longrightarrow> prefix (decode_all dec p) xs"
proof (induction xs arbitrary: p)
  case Nil
  then show ?case by (simp add: decode_all.simps)
next
  case (Cons x xs)
  have x: "good x" using Cons.prems(1) by simp
  have p: "prefix p (enc x @ concat (map enc xs))" using Cons.prems(2) by simp
  show ?case
  proof (cases "length p < length (enc x)")
    case True
    then have "need p" using need_iff_short [OF x p] by simp
    then show ?thesis by (subst decode_all.simps) (simp add: need_dec)
  next
    case False
    then obtain q where e: "p = enc x @ q"
      using p by (metis linorder_not_less prefixI prefix_def prefix_length_prefix)
    then have q: "p = enc x @ q" "prefix q (concat (map enc xs))" using p by simp_all
    then show ?thesis using Cons.IH [of q] Cons.prems(1) decode_all_Cons [OF x, of q] by simp
  qed
qed

end

section \<open>Sequential parsers\<close>

text \<open>
  A parser reads fields from the front of its input and returns the value and the unread rest;
  \<open>take_exact\<close> is the read of a fixed number of bytes, failing with \<open>eof\<close> when they are not
  there. \<open>streams eof P w x\<close>: on input that starts with \<open>w\<close> the parser gives \<open>x\<close> and stops
  behind \<open>w\<close>, and on a proper prefix of \<open>w\<close> it runs out of input.
\<close>

definition take_exact :: "'e \<Rightarrow> nat \<Rightarrow> bytes \<Rightarrow> 'e + (bytes \<times> bytes)" where
  "take_exact eof n i = (if n \<le> length i then Inr (take n i, drop n i) else Inl eof)"

definition take_u16 :: "'e \<Rightarrow> bytes \<Rightarrow> 'e + (u16 \<times> bytes)" where
  "take_u16 eof i = rbind (take_exact eof 2 i) (\<lambda>(b, r). Inr (from_be16 b, r))"

definition take_u8 :: "'e \<Rightarrow> bytes \<Rightarrow> 'e + (u8 \<times> bytes)" where
  "take_u8 eof i = rbind (take_exact eof 1 i) (\<lambda>(b, r). Inr (b ! 0, r))"

definition streams :: "'e \<Rightarrow> (bytes \<Rightarrow> 'e + ('a \<times> bytes)) \<Rightarrow> bytes \<Rightarrow> 'a \<Rightarrow> bool" where
  "streams eof P w x \<longleftrightarrow>
     (\<forall>rest. P (w @ rest) = Inr (x, rest)) \<and> (\<forall>q. strict_prefix q w \<longrightarrow> P q = Inl eof)"

lemma take_exact_Inr: "take_exact e n i = Inr (b, r) \<longleftrightarrow> n \<le> length i \<and> b = take n i \<and> r = drop n i"
  by (auto simp: take_exact_def)

lemma take_exact_Inl: "take_exact e n i = Inl e' \<longleftrightarrow> length i < n \<and> e' = e"
  by (auto simp: take_exact_def)

lemma take_u8_length: "take_u8 e i = Inr (b, r) \<Longrightarrow> length i = 1 + length r"
  by (auto simp: take_u8_def rbind_eq_Inr take_exact_Inr)

lemma take_u16_length: "take_u16 e i = Inr (b, r) \<Longrightarrow> length i = 2 + length r"
  by (auto simp: take_u16_def rbind_eq_Inr take_exact_Inr)

lemma take_u8_Inl: "take_u8 e i = Inl e' \<longleftrightarrow> length i < 1 \<and> e' = e"
  by (auto simp: take_u8_def rbind_eq_Inl take_exact_Inl)

lemma take_u16_Inl: "take_u16 e i = Inl e' \<longleftrightarrow> length i < 2 \<and> e' = e"
  by (auto simp: take_u16_def rbind_eq_Inl take_exact_Inl)

lemma take_unat_u8_Inr:
  "take_exact e (unat (l :: u8)) i = Inr (b, r) \<Longrightarrow> length r \<le> length i \<and> length i \<le> 255 + length r"
  using unat_u8_le [of l] by (auto simp: take_exact_Inr simp del: unat_u8_le)

lemma take_unat_u8_Inl: "take_exact e (unat (l :: u8)) i = Inl e' \<Longrightarrow> length i < 255"
  using unat_u8_le [of l] by (auto simp: take_exact_Inl simp del: unat_u8_le)

lemma streamsD: "streams eof P w x \<Longrightarrow> P (w @ rest) = Inr (x, rest)"
  by (simp add: streams_def)

lemma streams_eof: "streams eof P w x \<Longrightarrow> strict_prefix q w \<Longrightarrow> P q = Inl eof"
  by (simp add: streams_def)

lemma streams_return: "streams eof (\<lambda>i. Inr (x, i)) [] x"
  by (simp add: streams_def)

lemma streams_bind:
  assumes "streams eof P w x" "streams eof (Q x) v y"
  shows "streams eof (\<lambda>i. rbind (P i) (\<lambda>(x, r). Q x r)) (w @ v) y"
  unfolding streams_def
proof (intro conjI allI impI)
  fix rest
  show "rbind (P ((w @ v) @ rest)) (\<lambda>(x, r). Q x r) = Inr (y, rest)"
    using streamsD [OF assms(1), of "v @ rest"] streamsD [OF assms(2), of rest] by simp
next
  fix q assume "strict_prefix q (w @ v)"
  then show "rbind (P q) (\<lambda>(x, r). Q x r) = Inl eof"
    by (cases rule: strict_prefix_appendE)
      (simp_all add: streams_eof [OF assms(1)] streamsD [OF assms(1)] streams_eof [OF assms(2)])
qed

lemma streams_bind_last:
  "streams eof P w x \<Longrightarrow> streams eof (\<lambda>i. rbind (P i) (\<lambda>(x, r). Inr (f x, r))) w (f x)"
  using streams_bind [of eof P w x "\<lambda>x r. Inr (f x, r)" "[]" "f x"] streams_return [of eof "f x"] by simp

lemma streams_if: "\<not> c \<Longrightarrow> streams eof P w x \<Longrightarrow> streams eof (\<lambda>i. if c then Inl e else P i) w x"
  by simp

lemma streams_take: "length w = n \<Longrightarrow> streams eof (take_exact eof n) w w"
  by (auto simp: streams_def take_exact_def dest: prefix_length_less)

lemma streams_u16: "streams eof (take_u16 eof) (be16 w) w"
  unfolding take_u16_def
  using streams_bind_last [OF streams_take [OF length_be16], of eof from_be16] by simp

lemma streams_u8: "streams eof (take_u8 eof) [b] b"
  unfolding take_u8_def
  using streams_bind_last [OF streams_take [of "[b]" 1], of eof "\<lambda>b. b ! 0"] by simp

text \<open>A parser that streams every encoding is an incremental codec.\<close>

definition parser_dec :: "(bytes \<Rightarrow> 'e + ('a \<times> bytes)) \<Rightarrow> bytes \<Rightarrow> ('a \<times> nat) option" where
  "parser_dec P i = (case P i of Inl _ \<Rightarrow> None | Inr (x, r) \<Rightarrow> Some (x, length i - length r))"

definition parser_need :: "'e \<Rightarrow> (bytes \<Rightarrow> 'e + ('a \<times> bytes)) \<Rightarrow> bytes \<Rightarrow> bool" where
  "parser_need eof P i \<longleftrightarrow> P i = Inl eof"

lemma incremental_codec_streams:
  assumes "\<And>x. good x \<Longrightarrow> streams eof P (enc x) x" "\<And>x. good x \<Longrightarrow> enc x \<noteq> []"
  shows "incremental_codec good enc (parser_dec P) (parser_need eof P)"
  by unfold_locales
    (auto simp: parser_dec_def parser_need_def streamsD [OF assms(1)] streams_eof [OF assms(1)] assms(2))

end
