(* ===== verification/Xr_Mux.thy ===== *)
theory Xr_Mux
  imports Xr_Codec
begin

text \<open>
  Mux.Cool and XUDP frames: \<open>crates/xray-proxy/src/mux.rs\<close>, and the XUDP association on top of
  them, \<open>crates/xray-core-rs/src/outbound/xudp.rs\<close>. The keyed hash of \<open>FlowIds\<close> is a parameter.
  The association's stream is the list of pieces still to arrive; a read takes at most what the
  code asks for.
\<close>

section \<open>Frames\<close>

definition MAX_METADATA :: nat where "MAX_METADATA = 512"
definition MAX_PAYLOAD :: nat where "MAX_PAYLOAD = 8192"
definition MAX_FRAME :: nat where "MAX_FRAME = 2 + MAX_METADATA + 2 + MAX_PAYLOAD"

text \<open>\<open>FlowIds::derive\<close>; the keyed hash is a parameter.\<close>

definition flow_derive :: "(bytes \<Rightarrow> bytes \<Rightarrow> bytes) \<Rightarrow> bytes \<Rightarrow> bytes \<Rightarrow> bytes" where
  "flow_derive keyed_hash key flow =
     (if flow = replicate 8 0 then flow else take 8 (keyed_hash key flow))"

datatype status = New | Keep | End | KeepAlive

fun status_code :: "status \<Rightarrow> u8" where
  "status_code New = 1"
| "status_code Keep = 2"
| "status_code End = 3"
| "status_code KeepAlive = 4"

record frame =
  session_id :: u16
  f_status :: status
  f_error :: bool
  f_target :: "target option"
  global_id :: "bytes option"
  f_payload :: "bytes option"

definition invalid :: io_error where
  "invalid = Io InvalidData ''invalid Mux frame''"

section \<open>Encoding\<close>

definition encode_target :: "status \<Rightarrow> target \<Rightarrow> io_error + bytes" where
  "encode_target st t =
     (if st \<notin> {New, Keep} \<or> st = Keep \<and> t_network t \<noteq> Udp then Inl invalid
      else let meta = [if t_network t = Tcp then 1 else 2] @ be16 (t_port t) in
        if t_port t = 0 then Inl invalid
        else (case t_addr t of
            TIp (V4 ip) \<Rightarrow> Inr (meta @ [1] @ v4_octets ip)
          | TIp (V6 ip) \<Rightarrow> Inr (meta @ [3] @ v6_octets ip)
          | TDomain name \<Rightarrow>
              if name = [] \<or> length name > 255 \<or> has_control_or_space name then Inl invalid
              else Inr (meta @ [2, of_nat (length name)] @ name)))"

definition mux_encode :: "frame \<Rightarrow> io_error + bytes" where
  "mux_encode f =
     (if (case f_payload f of None \<Rightarrow> False | Some p \<Rightarrow> length p > MAX_PAYLOAD)
         \<or> f_error f \<and> f_status f \<noteq> End
         \<or> f_status f = New \<and> f_target f = None
         \<or> global_id f \<noteq> None \<and>
            (f_status f \<noteq> New \<or> (case f_target f of None \<Rightarrow> True | Some t \<Rightarrow> t_network t \<noteq> Udp))
      then Inl invalid
      else
        rbind (case f_target f of None \<Rightarrow> Inr [] | Some t \<Rightarrow> encode_target (f_status f) t) (\<lambda>tb.
        let meta = be16 (session_id f) @
              [status_code (f_status f),
               (if f_payload f \<noteq> None then 1 else 0) OR push_bit 1 (if f_error f then 1 else 0)] @
              tb @ (case global_id f of None \<Rightarrow> [] | Some gid \<Rightarrow> gid);
            wire = be16 (of_nat (length meta)) @ meta
        in Inr (wire @ (case f_payload f of
                          None \<Rightarrow> []
                        | Some p \<Rightarrow> be16 (of_nat (length p)) @ p))))"

section \<open>Decoding\<close>

definition decode_status :: "u8 \<Rightarrow> io_error + status" where
  "decode_status b =
     (if b = 1 then Inr New else if b = 2 then Inr Keep else if b = 3 then Inr End
      else if b = 4 then Inr KeepAlive else Inl invalid)"

text \<open>The target at the front of \<open>rest\<close>, with the bytes after it.\<close>

definition decode_target :: "bytes \<Rightarrow> io_error + (target \<times> bytes)" where
  "decode_target rest =
     (if length rest < 4 then Inl invalid
      else
        rbind (if rest ! 0 = 1 then Inr Tcp else if rest ! 0 = 2 then Inr Udp else Inl invalid) (\<lambda>net.
        let port = from_be16 (take 2 (drop 1 rest)) in
        if port = 0 then Inl invalid
        else
          rbind
            (if rest ! 3 = 1 \<and> length rest \<ge> 8
             then Inr (TIp (V4 (v4_from_octets (take 4 (drop 4 rest)))), 8)
             else if rest ! 3 = 3 \<and> length rest \<ge> 20
             then Inr (TIp (V6 (v6_from_octets (take 16 (drop 4 rest)))), 20)
             else if rest ! 3 = 2 \<and> length rest \<ge> 5
             then let n = unat (rest ! 4) in
               if n = 0 \<or> length rest < 5 + n then Inl invalid
               else rbind (ok_or invalid (from_utf8 (take n (drop 5 rest)))) (\<lambda>name.
                 if has_control_or_space name then Inl invalid else Inr (TDomain name, 5 + n))
             else Inl invalid)
            (\<lambda>(a, count). Inr (target_new a port net, drop count rest))))"

text \<open>The metadata block: target, global id, and all of it with session, status and option byte.\<close>

definition meta_target :: "status \<Rightarrow> bytes \<Rightarrow> io_error + (target option \<times> bytes)" where
  "meta_target st rest =
     (if st = New \<or> st = Keep \<and> nth_get rest 0 = Some 2
      then rbind (decode_target rest) (\<lambda>(t, r). Inr (Some t, r))
      else Inr (None, rest))"

definition meta_global_id :: "status \<Rightarrow> target option \<Rightarrow> bytes \<Rightarrow> bytes option \<times> bytes" where
  "meta_global_id st t rest =
     (if st = New \<and> (case t of None \<Rightarrow> False | Some x \<Rightarrow> t_network x = Udp) \<and> length rest \<ge> 8
      then (Some (take 8 rest), drop 8 rest) else (None, rest))"

definition decode_meta ::
    "bytes \<Rightarrow> io_error + (u16 \<times> status \<times> u8 \<times> target option \<times> bytes option)" where
  "decode_meta meta =
     (let sid = from_be16 (take 2 meta) in
      rbind (decode_status (meta ! 2)) (\<lambda>st.
      if (meta ! 3) AND NOT 3 \<noteq> 0 \<or> (meta ! 3) AND 2 \<noteq> 0 \<and> st \<noteq> End then Inl invalid
      else
        rbind (meta_target st (drop 4 meta)) (\<lambda>(t, rest1).
        case meta_global_id st t rest1 of (gid, rest) \<Rightarrow>
          if list_ex (\<lambda>b. b \<noteq> 0) rest then Inl invalid
          else Inr (sid, st, meta ! 3, t, gid))))"

definition mux_decode :: "bytes \<Rightarrow> io_error + (frame \<times> nat) option" where
  "mux_decode input =
     (if length input < 2 then Inr None
      else let len = unat (from_be16 (take 2 input)) in
        if \<not> (4 \<le> len \<and> len \<le> MAX_METADATA) then Inl invalid
        else if length input < 2 + len then Inr None
        else
          rbind (decode_meta (take len (drop 2 input))) (\<lambda>(sid, st, opts, t, gid).
          let mk = (\<lambda>p. \<lparr>session_id = sid, f_status = st, f_error = (opts AND 2 \<noteq> 0), f_target = t,
                          global_id = gid, f_payload = p\<rparr>);
              consumed = 2 + len
          in if opts AND 1 \<noteq> 0
             then if length input < consumed + 2 then Inr None
               else let size' = unat (from_be16 (take 2 (drop consumed input))) in
                 if size' > MAX_PAYLOAD then Inl invalid
                 else if length input < consumed + 2 + size' then Inr None
                 else Inr (Some (mk (Some (take size' (drop (consumed + 2) input))), consumed + 2 + size'))
             else Inr (Some (mk None, consumed))))"

section \<open>The XUDP association\<close>

record xudp_reader =
  x_stream :: arrivals
  x_bytes :: bytes
  x_failed :: bool

record xudp_writer =
  x_out :: bytes
  x_started :: bool
  x_global_id :: bytes

text \<open>\<open>x_writer\<close> is \<open>None\<close> once a send failed part-way: the owner is taken out and not put back.\<close>

record xudp_session =
  x_target :: target
  x_reader :: xudp_reader
  x_writer :: "xudp_writer option"

definition xudp_new :: "arrivals \<Rightarrow> target \<Rightarrow> bytes \<Rightarrow> xudp_session" where
  "xudp_new stream t gid =
     \<lparr>x_target = t,
      x_reader = \<lparr>x_stream = stream, x_bytes = [], x_failed = False\<rparr>,
      x_writer = Some \<lparr>x_out = [], x_started = False, x_global_id = gid\<rparr>\<rparr>"

definition xudp_closed :: io_error where
  "xudp_closed = Io UnexpectedEof ''XUDP session closed''"

text \<open>
  \<open>send\<close>; \<open>io\<close> is the error of \<open>write_all\<close> or \<open>flush\<close>, if there is one. The output of a failed write
  is dropped with the writer.
\<close>

definition xudp_send ::
    "io_error option \<Rightarrow> target \<Rightarrow> bytes \<Rightarrow> xudp_session \<Rightarrow> (io_error + unit) \<times> xudp_session" where
  "xudp_send io t payload s =
     (if t \<noteq> x_target s \<or> payload = [] \<or> length payload > MAX_PAYLOAD
      then (Inl (Io InvalidInput ''invalid XUDP datagram''), s)
      else (case x_writer s of
          None \<Rightarrow> (Inl (Io BrokenPipe ''XUDP writer closed''), s)
        | Some w \<Rightarrow>
            let s0 = s\<lparr>x_writer := None\<rparr> in
            (case mux_encode
                \<lparr>session_id = 0, f_status = (if x_started w then Keep else New), f_error = False,
                 f_target = Some t,
                 global_id = (if \<not> x_started w then Some (x_global_id w) else None),
                 f_payload = Some payload\<rparr> of
               Inl e \<Rightarrow> (Inl e, s0)
             | Inr wire \<Rightarrow>
                 (case io of
                    Some e \<Rightarrow> (Inl e, s0)
                  | None \<Rightarrow>
                      (Inr (), s0\<lparr>x_writer := Some (w\<lparr>x_out := x_out w @ wire, x_started := True\<rparr>)\<rparr>)))))"

text \<open>What a complete frame means to the receiver: skipped, delivered, or the end.\<close>

definition xudp_result :: "target \<Rightarrow> frame \<Rightarrow> (io_error + datagram) option" where
  "xudp_result self f =
     (case f_status f of
        KeepAlive \<Rightarrow> None
      | Keep \<Rightarrow>
          if session_id f = 0 \<and> \<not> f_error f
          then (case f_payload f of
              None \<Rightarrow> None
            | Some p \<Rightarrow> if p = [] then None
                else Some (Inr \<lparr>d_source = (case f_target f of None \<Rightarrow> self | Some t \<Rightarrow> t), d_payload = p\<rparr>))
          else Some (Inl xudp_closed)
      | _ \<Rightarrow> Some (Inl xudp_closed))"

section \<open>Bounds of the decoder\<close>

lemma mux_decode_bounds:
  "mux_decode bs = Inr (Some (f, n)) \<Longrightarrow> 6 \<le> n \<and> n \<le> length bs \<and> n \<le> MAX_FRAME"
  by (auto simp: mux_decode_def Let_def rbind_eq_Inr MAX_FRAME_def MAX_METADATA_def MAX_PAYLOAD_def
      split: if_splits)

lemma mux_decode_need: "mux_decode bs = Inr None \<Longrightarrow> length bs < MAX_FRAME"
  by (auto simp: mux_decode_def Let_def rbind_eq_Inr MAX_FRAME_def MAX_METADATA_def MAX_PAYLOAD_def
      split: if_splits)

section \<open>Round trip\<close>

lemma take2_be16 [simp]: "take 2 (be16 w @ xs) = be16 w" "drop 2 (be16 w @ xs) = xs"
  by (simp_all)

lemma nth_be16_append [simp]:
  "(be16 w @ xs) ! 2 = xs ! 0" "(be16 w @ xs) ! 3 = xs ! 1" "drop 4 (be16 w @ xs) = drop 2 xs"
  by (simp_all add: nth_append)

lemma encode_target_shape:
  assumes "encode_target st t = Inr tb"
  shows "st \<in> {New, Keep}" "st = Keep \<Longrightarrow> t_network t = Udp" "t_port t \<noteq> 0"
    "tb ! 0 = (if t_network t = Tcp then 1 else 2)" "8 \<le> length tb \<or> (\<exists>d. t_addr t = TDomain d)"
    "0 < length tb" "length tb \<le> 260"
  using assms by (auto simp: encode_target_def Let_def split: if_splits target_addr.splits ip_addr.splits)

lemma encode_target_cases:
  assumes "encode_target st t = Inr tb"
  obtains (v4) ip where "t_addr t = TIp (V4 ip)"
      "tb = (if t_network t = Tcp then 1 else 2) # be16 (t_port t) @ 1 # v4_octets ip"
  | (v6) ip where "t_addr t = TIp (V6 ip)"
      "tb = (if t_network t = Tcp then 1 else 2) # be16 (t_port t) @ 3 # v6_octets ip"
  | (dom) d where "t_addr t = TDomain d" "d \<noteq> []" "length d \<le> 255" "\<not> has_control_or_space d"
      "tb = (if t_network t = Tcp then 1 else 2) # be16 (t_port t) @ 2 # of_nat (length d) # d"
  using assms
  by (auto simp: encode_target_def Let_def split: if_splits target_addr.splits ip_addr.splits)

lemma decode_target_encode:
  assumes "encode_target st t = Inr tb" "addr_wf (t_addr t)"
  shows "decode_target (tb @ rest) = Inr (t, rest)"
proof -
  obtain a b where ab: "be16 (t_port t) = [a, b]" "from_be16 [a, b] = t_port t" by (rule be16_split)
  have p: "t_port t \<noteq> 0" using assms(1) by (rule encode_target_shape)
  have t: "target_new x (t_port t) (t_network t) = t" if "t_addr t = x" for x
    using that by auto
  show ?thesis
    using assms(1)
  proof (cases rule: encode_target_cases)
    case (v4 ip)
    show ?thesis using p t [OF v4(1)] by (cases "t_network t") (simp_all add: v4(2) ab decode_target_def Let_def)
  next
    case (v6 ip)
    show ?thesis using p t [OF v6(1)] by (cases "t_network t") (simp_all add: v6(2) ab decode_target_def Let_def)
  next
    case (dom d)
    then have "utf8_valid d" "0 < length d" using assms(2) by simp_all
    moreover have "drop (5 + length d) (x # a # b # 2 # l # d @ rest) = rest" for x l
      by (simp add: eval_nat_numeral)
    ultimately show ?thesis
      using p t [OF dom(1)] dom(3,4) by (cases "t_network t") (simp_all add: dom(5) ab decode_target_def Let_def)
  qed
qed

text \<open>What the types of a \<open>Frame\<close> guarantee: a domain is UTF-8 and a global id has eight bytes.\<close>

definition frame_wf :: "frame \<Rightarrow> bool" where
  "frame_wf f \<longleftrightarrow>
     (case f_target f of None \<Rightarrow> True | Some t \<Rightarrow> addr_wf (t_addr t)) \<and>
     (case global_id f of None \<Rightarrow> True | Some g \<Rightarrow> length g = 8)"

definition opt_byte :: "frame \<Rightarrow> u8" where
  "opt_byte f = (if f_payload f \<noteq> None then 1 else 0) OR push_bit 1 (if f_error f then 1 else 0)"

lemma opt_byte_bits:
  "opt_byte f AND - 4 = 0" "opt_byte f AND 2 = 0 \<longleftrightarrow> \<not> f_error f"
  "opt_byte f AND 1 = 0 \<longleftrightarrow> f_payload f = None"
  by (simp_all add: opt_byte_def)

definition gid_bytes :: "frame \<Rightarrow> bytes" where
  "gid_bytes f = (case global_id f of None \<Rightarrow> [] | Some g \<Rightarrow> g)"

definition payload_bytes :: "frame \<Rightarrow> bytes" where
  "payload_bytes f = (case f_payload f of None \<Rightarrow> [] | Some p \<Rightarrow> be16 (of_nat (length p)) @ p)"

definition frame_meta :: "frame \<Rightarrow> bytes \<Rightarrow> bytes" where
  "frame_meta f tb = be16 (session_id f) @ [status_code (f_status f), opt_byte f] @ tb @ gid_bytes f"

definition target_bytes :: "frame \<Rightarrow> bytes \<Rightarrow> bool" where
  "target_bytes f tb \<longleftrightarrow>
     (case f_target f of None \<Rightarrow> tb = [] | Some t \<Rightarrow> encode_target (f_status f) t = Inr tb)"

lemma mux_encode_shape:
  assumes "mux_encode f = Inr w"
  obtains tb where "target_bytes f tb"
    "w = be16 (of_nat (length (frame_meta f tb))) @ frame_meta f tb @ payload_bytes f"
    "\<And>p. f_payload f = Some p \<Longrightarrow> length p \<le> MAX_PAYLOAD"
    "f_error f \<Longrightarrow> f_status f = End"
    "f_status f = New \<Longrightarrow> f_target f \<noteq> None"
    "global_id f \<noteq> None \<Longrightarrow> f_status f = New \<and> (\<exists>t. f_target f = Some t \<and> t_network t = Udp)"
proof -
  from assms obtain tb where
    tb: "(case f_target f of None \<Rightarrow> Inr [] | Some t \<Rightarrow> encode_target (f_status f) t) = Inr tb"
    and w: "w = be16 (of_nat (length (frame_meta f tb))) @ frame_meta f tb @ payload_bytes f"
    by (auto simp: mux_encode_def rbind_eq_Inr Let_def frame_meta_def gid_bytes_def payload_bytes_def
        opt_byte_def split: if_splits)
  show thesis
  proof (rule that)
    show "target_bytes f tb" using tb by (auto simp: target_bytes_def split: option.splits)
    show "w = be16 (of_nat (length (frame_meta f tb))) @ frame_meta f tb @ payload_bytes f" by (rule w)
  qed (use assms in \<open>auto simp: mux_encode_def split: if_splits option.splits\<close>)
qed

lemma target_bytes_length: "target_bytes f tb \<Longrightarrow> length tb \<le> 260"
  by (auto simp: target_bytes_def dest: encode_target_shape(7) split: option.splits)

lemma frame_meta_length:
  "target_bytes f tb \<Longrightarrow> frame_wf f \<Longrightarrow> 4 \<le> length (frame_meta f tb) \<and> length (frame_meta f tb) \<le> 272"
  using target_bytes_length [of f tb]
  by (auto simp: frame_meta_def gid_bytes_def frame_wf_def split: option.splits)

lemma decode_status_code [simp]: "decode_status (status_code s) = Inr s"
  by (cases s) (simp_all add: decode_status_def)

lemma decode_meta_encode:
  assumes tb: "target_bytes f tb" and wf: "frame_wf f"
    and err: "f_error f \<Longrightarrow> f_status f = End"
    and new: "f_status f = New \<Longrightarrow> f_target f \<noteq> None"
    and gid: "global_id f \<noteq> None \<Longrightarrow> f_status f = New \<and> (\<exists>t. f_target f = Some t \<and> t_network t = Udp)"
  shows "decode_meta (frame_meta f tb) =
    Inr (session_id f, f_status f, opt_byte f, f_target f, global_id f)"
proof -
  let ?m = "frame_meta f tb"
  have sel: "take 2 ?m = be16 (session_id f)" "?m ! 2 = status_code (f_status f)" "?m ! 3 = opt_byte f"
      "drop 4 ?m = tb @ gid_bytes f"
    by (simp_all add: frame_meta_def)
  have opt: "\<not> (opt_byte f AND NOT 3 \<noteq> 0 \<or> opt_byte f AND 2 \<noteq> 0 \<and> f_status f \<noteq> End)"
    using err by (auto simp: opt_byte_bits)
  have tgt: "meta_target (f_status f) (tb @ gid_bytes f) = Inr (f_target f, gid_bytes f)"
  proof (cases "f_target f")
    case None
    then have "tb = []" "gid_bytes f = []" "f_status f \<noteq> New"
      using tb gid new by (auto simp: target_bytes_def gid_bytes_def split: option.splits)
    then show ?thesis using None by (simp add: meta_target_def nth_get_def)
  next
    case (Some t)
    then have e: "encode_target (f_status f) t = Inr tb" using tb by (simp add: target_bytes_def)
    have "f_status f = New \<or> f_status f = Keep \<and> nth_get (tb @ gid_bytes f) 0 = Some 2"
      using encode_target_shape [OF e] by (auto simp: nth_get_def nth_append)
    then show ?thesis
      using decode_target_encode [OF e, of "gid_bytes f"] wf Some by (simp add: meta_target_def frame_wf_def)
  qed
  have id: "meta_global_id (f_status f) (f_target f) (gid_bytes f) = (global_id f, [])"
    using gid wf by (cases "global_id f") (auto simp: meta_global_id_def gid_bytes_def frame_wf_def)
  show ?thesis
    unfolding decode_meta_def Let_def
    by (simp only: sel opt decode_status_code rbind_Inr if_False tgt prod.case id list_ex_Nil_iff
        from_be16_be16)
qed

lemma mux_decode_meta:
  assumes m: "decode_meta meta = Inr (sid, st, opts, t, gid)"
    and len: "4 \<le> length meta" "length meta \<le> MAX_METADATA"
  shows "mux_decode (be16 (of_nat (length meta)) @ meta @ tail') =
    (let mk = (\<lambda>p. \<lparr>session_id = sid, f_status = st, f_error = (opts AND 2 \<noteq> 0), f_target = t,
                    global_id = gid, f_payload = p\<rparr>)
     in if opts AND 1 \<noteq> 0
        then if length tail' < 2 then Inr None
          else let size' = unat (from_be16 (take 2 tail')) in
            if size' > MAX_PAYLOAD then Inl invalid
            else if length tail' < 2 + size' then Inr None
            else Inr (Some (mk (Some (take size' (drop 2 tail'))), 2 + length meta + 2 + size'))
        else Inr (Some (mk None, 2 + length meta)))"
proof -
  let ?i = "be16 (of_nat (length meta)) @ meta @ tail'"
  have l: "unat (from_be16 (take 2 ?i)) = length meta"
    using len by (simp add: MAX_METADATA_def)
  have d: "take (length meta) (drop 2 ?i) = meta" "drop (2 + length meta) ?i = tail'"
      "length ?i = 2 + length meta + length tail'"
    by simp_all
  have "drop (2 + length meta + 2) ?i = drop 2 tail'"
    using d(2) by (metis drop_drop add.commute)
  then show ?thesis
    unfolding mux_decode_def Let_def l d m using len by (simp add: Let_def)
qed

lemma mux_decode_short:
  assumes "4 \<le> length meta" "length meta \<le> MAX_METADATA"
    and "prefix p (be16 (of_nat (length meta)) @ meta)" "length p < 2 + length meta"
  shows "mux_decode p = Inr None"
proof (cases "length p < 2")
  case True
  then show ?thesis by (simp add: mux_decode_def)
next
  case False
  then have "take 2 p = be16 (of_nat (length meta))"
    using prefix_take_eq [OF assms(3)] by simp
  then have "unat (from_be16 (take 2 p)) = length meta"
    using assms(2) by (simp add: MAX_METADATA_def)
  then show ?thesis using False assms by (simp add: mux_decode_def Let_def)
qed

lemma payload_length [simp]: "length p \<le> MAX_PAYLOAD \<Longrightarrow> unat (of_nat (length p) :: u16) = length p"
  by (simp add: MAX_PAYLOAD_def)

lemma frame_eta:
  "f_payload f = p \<Longrightarrow>
     \<lparr>session_id = session_id f, f_status = f_status f, f_error = f_error f, f_target = f_target f,
      global_id = global_id f, f_payload = p\<rparr> = f"
  by (cases f) simp

lemma mux_round_trip:
  assumes e: "mux_encode f = Inr w" and wf: "frame_wf f"
  shows "mux_decode (w @ rest) = Inr (Some (f, length w))"
proof -
  obtain tb where tb: "target_bytes f tb"
    and w: "w = be16 (of_nat (length (frame_meta f tb))) @ frame_meta f tb @ payload_bytes f"
    and p: "\<And>p. f_payload f = Some p \<Longrightarrow> length p \<le> MAX_PAYLOAD"
    and c: "f_error f \<Longrightarrow> f_status f = End" "f_status f = New \<Longrightarrow> f_target f \<noteq> None"
      "global_id f \<noteq> None \<Longrightarrow> f_status f = New \<and> (\<exists>t. f_target f = Some t \<and> t_network t = Udp)"
    using mux_encode_shape [OF e] by metis
  have len: "4 \<le> length (frame_meta f tb)" "length (frame_meta f tb) \<le> MAX_METADATA"
    using frame_meta_length [OF tb wf] by (simp_all add: MAX_METADATA_def)
  have "w @ rest = be16 (of_nat (length (frame_meta f tb))) @ frame_meta f tb @ (payload_bytes f @ rest)"
    by (simp add: w)
  then show ?thesis
    using mux_decode_meta [OF decode_meta_encode [OF tb wf c] len, of "payload_bytes f @ rest"] p
    by (cases "f_payload f") (auto simp: Let_def opt_byte_bits payload_bytes_def w frame_eta)
qed

lemma mux_prefix:
  assumes e: "mux_encode f = Inr w" and wf: "frame_wf f" and s: "strict_prefix q w"
  shows "mux_decode q = Inr None"
proof -
  obtain tb where tb: "target_bytes f tb"
    and w: "w = be16 (of_nat (length (frame_meta f tb))) @ frame_meta f tb @ payload_bytes f"
    and p: "\<And>p. f_payload f = Some p \<Longrightarrow> length p \<le> MAX_PAYLOAD"
    and c: "f_error f \<Longrightarrow> f_status f = End" "f_status f = New \<Longrightarrow> f_target f \<noteq> None"
      "global_id f \<noteq> None \<Longrightarrow> f_status f = New \<and> (\<exists>t. f_target f = Some t \<and> t_network t = Udp)"
    using mux_encode_shape [OF e] by metis
  let ?h = "be16 (of_nat (length (frame_meta f tb))) @ frame_meta f tb"
  have len: "4 \<le> length (frame_meta f tb)" "length (frame_meta f tb) \<le> MAX_METADATA"
    using frame_meta_length [OF tb wf] by (simp_all add: MAX_METADATA_def)
  from s have "strict_prefix q (?h @ payload_bytes f)" by (simp add: w)
  then show ?thesis
  proof (cases rule: strict_prefix_appendE)
    case 1
    then have "prefix q ?h" "length q < length ?h"
      using prefix_length_less by (blast dest: prefix_order.less_imp_le)+
    then show ?thesis using len by (intro mux_decode_short) simp_all
  next
    case (2 r)
    then obtain pl where pl: "f_payload f = Some pl" by (auto simp: payload_bytes_def split: option.splits)
    have lr: "length r < 2 + length pl"
      using prefix_length_less [OF 2(2)] pl by (simp add: payload_bytes_def)
    have "take 2 r = be16 (of_nat (length pl))" if "\<not> length r < 2"
      using 2(2) that pl prefix_take_eq [of r "be16 (of_nat (length pl))" pl]
      by (simp add: payload_bytes_def)
    then show ?thesis
      using mux_decode_meta [OF decode_meta_encode [OF tb wf c] len, of r] pl p [OF pl] lr
      by (auto simp: 2(1) Let_def opt_byte_bits)
  qed
qed

section \<open>Mux frames as an incremental codec\<close>

definition mux_frame_ok :: "frame \<Rightarrow> bool" where
  "mux_frame_ok f \<longleftrightarrow> frame_wf f \<and> (\<exists>w. mux_encode f = Inr w)"

definition mux_wire :: "frame \<Rightarrow> bytes" where
  "mux_wire f = (case mux_encode f of Inr w \<Rightarrow> w | Inl _ \<Rightarrow> [])"

definition mux_try :: "bytes \<Rightarrow> (frame \<times> nat) option" where
  "mux_try bs = (case mux_decode bs of Inr (Some x) \<Rightarrow> Some x | _ \<Rightarrow> None)"

definition mux_need :: "bytes \<Rightarrow> bool" where
  "mux_need bs \<longleftrightarrow> mux_decode bs = Inr None"

interpretation mx: incremental_codec mux_frame_ok mux_wire mux_try mux_need
proof
  fix x rest p
  show "mux_frame_ok x \<Longrightarrow> mux_try (mux_wire x @ rest) = Some (x, length (mux_wire x))"
    by (auto simp: mux_frame_ok_def mux_wire_def mux_try_def mux_round_trip)
  show "mux_frame_ok x \<Longrightarrow> mux_wire x \<noteq> []"
    using mux_round_trip [of x "[]" "[]"]
    by (auto simp: mux_frame_ok_def mux_wire_def mux_decode_def)
  show "mux_need p \<Longrightarrow> mux_try p = None"
    by (simp add: mux_need_def mux_try_def)
  show "mux_frame_ok x \<Longrightarrow> strict_prefix p (mux_wire x) \<Longrightarrow> mux_need p"
    by (auto simp: mux_frame_ok_def mux_wire_def mux_need_def mux_prefix)
qed

lemma mux_try_Some: "mux_try bs = Some (f, n) \<longleftrightarrow> mux_decode bs = Inr (Some (f, n))"
  by (auto simp: mux_try_def split: sum.splits option.splits)

section \<open>The receive loop\<close>

text \<open>
  The loop of \<open>recv\<close>. A complete frame leaves the buffer; when it carries nothing the loop goes on.
  With no complete frame the loop reads, at most up to the largest frame.
\<close>

function xudp_recv_loop :: "target \<Rightarrow> xudp_reader \<Rightarrow> (io_error + datagram) \<times> xudp_reader" where
  "xudp_recv_loop self r =
     (case mux_decode (x_bytes r) of
        Inr (Some (f, n)) \<Rightarrow>
          let r' = r\<lparr>x_bytes := drop n (x_bytes r)\<rparr> in
          (case xudp_result self f of
             None \<Rightarrow> xudp_recv_loop self r'
           | Some (Inl e) \<Rightarrow> (Inl e, r'\<lparr>x_failed := True\<rparr>)
           | Some (Inr d) \<Rightarrow> (Inr d, r'))
      | Inl e \<Rightarrow> (Inl e, r\<lparr>x_failed := True\<rparr>)
      | Inr None \<Rightarrow>
          let capacity = MAX_FRAME - length (x_bytes r) in
          if capacity = 0 then (Inl xudp_closed, r\<lparr>x_failed := True\<rparr>)
          else (case read_chunk (min capacity 4096) (x_stream r) of
              (Inl e, st) \<Rightarrow> (Inl e, r\<lparr>x_stream := st, x_failed := True\<rparr>)
            | (Inr c, st) \<Rightarrow>
                if c = [] then (Inl xudp_closed, r\<lparr>x_stream := st, x_failed := True\<rparr>)
                else xudp_recv_loop self (r\<lparr>x_stream := st, x_bytes := x_bytes r @ c\<rparr>)))"
  by pat_completeness auto
termination
proof (relation "measure (\<lambda>(self, r). 2 * data_bytes (x_stream r) + length (x_bytes r))")
  show "wf (measure (\<lambda>(self :: target, r :: xudp_reader). 2 * data_bytes (x_stream r) + length (x_bytes r)))"
    by simp
qed (auto dest!: mux_decode_bounds read_chunk_data_bytes [OF sym])

declare xudp_recv_loop.simps [simp del]

definition xudp_recv :: "xudp_session \<Rightarrow> (io_error + datagram) \<times> xudp_session" where
  "xudp_recv s =
     (if x_failed (x_reader s) then (Inl xudp_closed, s)
      else (case xudp_recv_loop (x_target s) (x_reader s) of (res, r) \<Rightarrow> (res, s\<lparr>x_reader := r\<rparr>)))"

text \<open>A reader that still has the frames \<open>fs\<close> to see.\<close>

definition xudp_pending :: "xudp_reader \<Rightarrow> frame list \<Rightarrow> bool" where
  "xudp_pending r fs \<longleftrightarrow>
     \<not> x_failed r \<and> pending mux_frame_ok mux_wire (x_bytes r) (x_stream r) fs"

lemma mux_decode_Nil [simp]: "mux_decode [] = Inr None"
  by (simp add: mux_decode_def)

lemma xudp_recv_loop_pending:
  "xudp_pending r fs \<Longrightarrow>
     (case dropWhile (\<lambda>f. xudp_result self f = None) fs of
        [] \<Rightarrow> fst (xudp_recv_loop self r) = Inl xudp_closed
      | f # rest \<Rightarrow> Some (fst (xudp_recv_loop self r)) = xudp_result self f \<and>
          (\<forall>d. fst (xudp_recv_loop self r) = Inr d \<longrightarrow> xudp_pending (snd (xudp_recv_loop self r)) rest))"
proof (induction self r arbitrary: fs rule: xudp_recv_loop.induct)
  case (1 self r)
  show ?case
  proof (cases fs)
    case Nil
    then have "x_bytes r = []" "x_stream r = []"
      using "1.prems" by (auto simp: xudp_pending_def)
    then show ?thesis
      using Nil by (subst xudp_recv_loop.simps) (simp add: MAX_FRAME_def Let_def)
  next
    case (Cons f fs')
    have nf: "\<not> x_failed r" and p: "pending mux_frame_ok mux_wire (x_bytes r) (x_stream r) (f # fs')"
      using "1.prems" Cons by (auto simp: xudp_pending_def)
    show ?thesis
    proof (cases "length (x_bytes r) < length (mux_wire f)")
      case True
      have d: "mux_decode (x_bytes r) = Inr None"
        using mx.pending_short(1) [OF p True] by (simp add: mux_need_def)
      have cap: "length (x_bytes r) < MAX_FRAME" by (rule mux_decode_need [OF d])
      then obtain c st where
        c: "read_chunk (min (MAX_FRAME - length (x_bytes r)) 4096) (x_stream r) = (Inr c, st)" "c \<noteq> []"
          "xudp_pending (r\<lparr>x_stream := st, x_bytes := x_bytes r @ c\<rparr>) (f # fs')"
        using mx.pending_short(2) [OF p True, of "min (MAX_FRAME - length (x_bytes r)) 4096"] nf
        by (auto simp: xudp_pending_def)
      have eq: "xudp_recv_loop self r = xudp_recv_loop self (r\<lparr>x_stream := st, x_bytes := x_bytes r @ c\<rparr>)"
        using c d cap by (subst xudp_recv_loop.simps) (simp add: Let_def)
      show ?thesis
        unfolding eq Cons
        by (rule "1.IH"(1) [OF d refl refl _ c(1) [symmetric] refl c(2,3)]) (use cap in simp)
    next
      case False
      let ?r' = "r\<lparr>x_bytes := drop (length (mux_wire f)) (x_bytes r)\<rparr>"
      have d: "mux_decode (x_bytes r) = Inr (Some (f, length (mux_wire f)))" "xudp_pending ?r' fs'"
        using mx.pending_full [OF p False] nf by (auto simp: xudp_pending_def mux_try_Some)
      show ?thesis
      proof (cases "xudp_result self f")
        case None
        have eq: "xudp_recv_loop self r = xudp_recv_loop self ?r'"
          using d(1) None by (subst xudp_recv_loop.simps) simp
        show ?thesis
          unfolding eq Cons
          using "1.IH"(2) [OF d(1) refl refl refl None d(2)] None by simp
      next
        case (Some res)
        then show ?thesis
          using d Cons by (cases res; subst xudp_recv_loop.simps) (auto split: sum.splits simp: xudp_recv_loop.simps)
      qed
    qed
  qed
qed

section \<open>The send side\<close>

definition xudp_frame :: "bool \<Rightarrow> target \<Rightarrow> bytes \<Rightarrow> bytes \<Rightarrow> frame" where
  "xudp_frame started t gid p =
     \<lparr>session_id = 0, f_status = (if started then Keep else New), f_error = False, f_target = Some t,
      global_id = (if \<not> started then Some gid else None), f_payload = Some p\<rparr>"

fun xudp_frames :: "target \<Rightarrow> bytes \<Rightarrow> bytes list \<Rightarrow> frame list" where
  "xudp_frames t gid [] = []"
| "xudp_frames t gid (p # ps) = xudp_frame False t gid p # map (xudp_frame True t gid) ps"

lemma encode_target_Keep: "encode_target New t = Inr tb \<Longrightarrow> t_network t = Udp \<Longrightarrow> encode_target Keep t = Inr tb"
  by (simp add: encode_target_def)

lemma xudp_frame_ok:
  assumes "encode_target New t = Inr tb" "t_network t = Udp" "addr_wf (t_addr t)" "length gid = 8"
    and "length p \<le> MAX_PAYLOAD"
  shows "mux_frame_ok (xudp_frame started t gid p)"
  using assms encode_target_Keep [of t tb]
  by (auto simp: mux_frame_ok_def xudp_frame_def frame_wf_def mux_encode_def rbind_eq_Inr Let_def)

lemma mux_frame_ok_encode: "mux_frame_ok f \<Longrightarrow> mux_encode f = Inr (mux_wire f)"
  by (auto simp: mux_frame_ok_def mux_wire_def)

lemma xudp_send_ok:
  assumes "mux_frame_ok (xudp_frame (x_started w) t (x_global_id w) p)"
    and "p \<noteq> []" "length p \<le> MAX_PAYLOAD" "x_writer s = Some w" "x_target s = t"
  shows "xudp_send None t p s =
    (Inr (), s\<lparr>x_writer := Some (w\<lparr>x_out := x_out w @ mux_wire (xudp_frame (x_started w) t (x_global_id w) p),
                                x_started := True\<rparr>)\<rparr>)"
  using mux_frame_ok_encode [OF assms(1)] assms(2-5)
  by (simp add: xudp_send_def xudp_frame_def)

definition xudp_send_all :: "target \<Rightarrow> bytes list \<Rightarrow> xudp_session \<Rightarrow> xudp_session" where
  "xudp_send_all t ps s = fold (\<lambda>p s. snd (xudp_send None t p s)) ps s"

lemma xudp_send_all_started:
  assumes t: "encode_target New t = Inr tb" "t_network t = Udp" "addr_wf (t_addr t)" "length gid = 8"
    and "list_all (\<lambda>p. p \<noteq> [] \<and> length p \<le> MAX_PAYLOAD) ps"
    and "x_writer s = Some \<lparr>x_out = out, x_started = True, x_global_id = gid\<rparr>" "x_target s = t"
  shows "x_writer (xudp_send_all t ps s) =
    Some \<lparr>x_out = out @ concat (map mux_wire (map (xudp_frame True t gid) ps)), x_started = True, x_global_id = gid\<rparr>"
  using assms(5-)
proof (induction ps arbitrary: s out)
  case Nil
  then show ?case by (simp add: xudp_send_all_def)
next
  case (Cons p ps)
  have ok: "mux_frame_ok (xudp_frame True t gid p)" using Cons.prems(1) by (intro xudp_frame_ok [OF t]) simp
  let ?w = "\<lparr>x_out = out, x_started = True, x_global_id = gid\<rparr>"
  have "xudp_send_all t (p # ps) s = xudp_send_all t ps (s\<lparr>x_writer := Some
      \<lparr>x_out = out @ mux_wire (xudp_frame True t gid p), x_started = True, x_global_id = gid\<rparr>\<rparr>)"
    using xudp_send_ok [of ?w t p s] ok Cons.prems by (simp add: xudp_send_all_def)
  then show ?case using Cons.IH [of "s\<lparr>x_writer := Some
      \<lparr>x_out = out @ mux_wire (xudp_frame True t gid p), x_started = True, x_global_id = gid\<rparr>\<rparr>"] Cons.prems
    by simp
qed

lemma xudp_send_all_new:
  assumes t: "encode_target New t = Inr tb" "t_network t = Udp" "addr_wf (t_addr t)" "length gid = 8"
    and ps: "list_all (\<lambda>p. p \<noteq> [] \<and> length p \<le> MAX_PAYLOAD) ps"
  shows "x_writer (xudp_send_all t ps (xudp_new st t gid)) =
    Some \<lparr>x_out = concat (map mux_wire (xudp_frames t gid ps)), x_started = (ps \<noteq> []), x_global_id = gid\<rparr>"
proof (cases ps)
  case Nil
  then show ?thesis by (simp add: xudp_send_all_def xudp_new_def)
next
  case (Cons p qs)
  have ok: "mux_frame_ok (xudp_frame False t gid p)" using ps Cons by (intro xudp_frame_ok [OF t]) simp
  let ?w = "\<lparr>x_out = [], x_started = False, x_global_id = gid\<rparr>"
  let ?s = "(xudp_new st t gid)\<lparr>x_writer := Some
      \<lparr>x_out = mux_wire (xudp_frame False t gid p), x_started = True, x_global_id = gid\<rparr>\<rparr>"
  have "xudp_send_all t ps (xudp_new st t gid) = xudp_send_all t qs ?s"
    using xudp_send_ok [of ?w t p "xudp_new st t gid"] ok ps Cons by (simp add: xudp_send_all_def xudp_new_def)
  then show ?thesis
    using xudp_send_all_started [OF t, of qs ?s] ps Cons by (simp add: xudp_new_def)
qed

section \<open>What the decoder accepts\<close>

lemma decode_target_valid:
  assumes "decode_target rest = Inr (t, r)"
  shows "t_port t \<noteq> 0" "rest \<noteq> []" "t_network t = (if rest ! 0 = 1 then Tcp else Udp)"
    "t_addr t = TDomain d \<Longrightarrow> utf8_valid d \<and> d \<noteq> [] \<and> length d \<le> 255 \<and> \<not> has_control_or_space d"
proof -
  show "t_port t \<noteq> 0" "rest \<noteq> []" "t_network t = (if rest ! 0 = 1 then Tcp else Udp)"
    using assms by (auto simp: decode_target_def Let_def rbind_eq_Inr split: if_splits)
  assume d: "t_addr t = TDomain d"
  then have "utf8_valid d \<and> \<not> has_control_or_space d \<and> d = take (unat (rest ! 4)) (drop 5 rest) \<and>
      unat (rest ! 4) \<noteq> 0 \<and> 5 + unat (rest ! 4) \<le> length rest"
    using assms by (auto simp: decode_target_def Let_def rbind_eq_Inr split: if_splits)
  moreover from this have "length d = unat (rest ! 4)" by (auto simp: min_def)
  ultimately show "utf8_valid d \<and> d \<noteq> [] \<and> length d \<le> 255 \<and> \<not> has_control_or_space d" by auto
qed

lemma decode_target_encodable:
  assumes "decode_target rest = Inr (t, r)" "st = New \<or> st = Keep \<and> nth_get rest 0 = Some 2"
  shows "\<exists>tb. encode_target st t = Inr tb" "addr_wf (t_addr t)"
proof -
  note v = decode_target_valid [OF assms(1)]
  have "st = Keep \<Longrightarrow> t_network t = Udp" using assms(2) v(2,3) by (auto simp: nth_get_def split: if_splits)
  moreover have "st = New \<or> st = Keep" using assms(2) by blast
  ultimately show "\<exists>tb. encode_target st t = Inr tb"
    using v(1,4) by (auto simp: encode_target_def Let_def split: target_addr.splits ip_addr.splits)
  show "addr_wf (t_addr t)" using v(4) by (cases "t_addr t") simp_all
qed

lemma decode_meta_valid:
  assumes "decode_meta m = Inr (sid, st, opts, t, gid)"
  shows "case t of None \<Rightarrow> st \<noteq> New | Some x \<Rightarrow> (\<exists>tb. encode_target st x = Inr tb) \<and> addr_wf (t_addr x)"
    and "case gid of None \<Rightarrow> True | Some g \<Rightarrow> length g = 8 \<and> st = New \<and> (\<exists>x. t = Some x \<and> t_network x = Udp)"
    and "opts AND 2 \<noteq> 0 \<Longrightarrow> st = End"
proof -
  from assms obtain st0 t0 r where 1: "meta_target st0 (drop 4 m) = Inr (t0, r)"
      "(m ! 3) AND 2 \<noteq> 0 \<longrightarrow> st0 = End"
      "(case meta_global_id st0 t0 r of (gid, rest) \<Rightarrow>
         if list_ex (\<lambda>b. b \<noteq> 0) rest then Inl invalid
         else Inr (from_be16 (take 2 m), st0, m ! 3, t0, gid)) = Inr (sid, st, opts, t, gid)"
    by (auto simp: decode_meta_def Let_def rbind_eq_Inr split: if_splits)
  obtain g0 rest where g0: "meta_global_id st0 t0 r = (g0, rest)" by fastforce
  with 1(3) have "st0 = st" "t0 = t" "opts = m ! 3" "g0 = gid" by (simp_all split: if_splits)
  with 1(1,2) g0 have t: "meta_target st (drop 4 m) = Inr (t, r)"
    and g: "meta_global_id st t r = (gid, rest)" and o: "(m ! 3) AND 2 \<noteq> 0 \<longrightarrow> st = End" "opts = m ! 3"
    by simp_all
  show "case t of None \<Rightarrow> st \<noteq> New | Some x \<Rightarrow> (\<exists>tb. encode_target st x = Inr tb) \<and> addr_wf (t_addr x)"
    using t decode_target_encodable [of "drop 4 m" _ _ st]
    by (auto simp: meta_target_def rbind_eq_Inr split: if_splits option.splits)
  show "case gid of None \<Rightarrow> True | Some g \<Rightarrow> length g = 8 \<and> st = New \<and> (\<exists>x. t = Some x \<and> t_network x = Udp)"
    using g by (auto simp: meta_global_id_def split: option.splits if_splits)
  show "opts AND 2 \<noteq> 0 \<Longrightarrow> st = End" using o by auto
qed

lemma mux_decode_ok:
  assumes "mux_decode bs = Inr (Some (f, n))"
  shows "mux_frame_ok f"
proof -
  obtain m sid st opts t gid where m: "decode_meta m = Inr (sid, st, opts, t, gid)"
    and f: "session_id f = sid" "f_status f = st" "f_error f = (opts AND 2 \<noteq> 0)" "f_target f = t" "global_id f = gid"
    and p: "\<And>p. f_payload f = Some p \<Longrightarrow> length p \<le> MAX_PAYLOAD"
    using assms unfolding mux_decode_def Let_def
    by (auto simp: rbind_eq_Inr split: if_splits)
  note v = decode_meta_valid [OF m]
  have wf: "frame_wf f" using v(1,2) by (auto simp: frame_wf_def f split: option.splits)
  have "\<exists>w. mux_encode f = Inr w"
    using v p by (auto simp: mux_encode_def f rbind_eq_Inr Let_def not_less split: option.splits)
  with wf show ?thesis by (simp add: mux_frame_ok_def)
qed

section \<open>Properties\<close>

definition demo_keep :: frame where
  "demo_keep =
     \<lparr>session_id = 0, f_status = Keep, f_error = False,
      f_target = Some \<lparr>t_addr = TDomain [97], t_port = 53, t_network = Udp\<rparr>, global_id = None,
      f_payload = Some [1, 2]\<rparr>"

lemma demo_keep_wire:
  "mux_encode demo_keep = Inr [0, 10, 0, 0, 2, 1, 2, 0, 53, 2, 1, 97, 0, 2, 1, 2]"
  "frame_wf demo_keep"
proof -
  have "utf8_valid [97]" "chars [97] = [97]" by code_simp+
  then show "mux_encode demo_keep = Inr [0, 10, 0, 0, 2, 1, 2, 0, 53, 2, 1, 97, 0, 2, 1, 2]"
    "frame_wf demo_keep"
    by (simp_all add: demo_keep_def mux_encode_def encode_target_def has_control_or_space_def
        is_control_def is_whitespace_def be16_def be_bytes_def upt_conv_Cons MAX_PAYLOAD_def frame_wf_def)
qed

text \<open>
  C23. Decoding inverts encoding on a stream: whatever follows it, an encoded frame decodes
  to itself and consumes exactly its bytes, and every proper prefix of it is reported as
  incomplete, never as an error or as another frame.
\<close>

theorem mux_frames_round_trip:
  assumes "mux_encode f = Inr w" "frame_wf f"
  shows "mux_decode (w @ rest) = Inr (Some (f, length w)) \<and>
    (strict_prefix q w \<longrightarrow> mux_decode q = Inr None)"
  using mux_round_trip [OF assms] mux_prefix [OF assms] by blast

theorem mux_frames_round_trip_witness:
  "mux_decode ([0, 10, 0, 0, 2, 1, 2, 0, 53, 2, 1, 97, 0, 2, 1, 2] @ [9, 9]) = Inr (Some (demo_keep, 16)) \<and>
   mux_decode [0, 10, 0] = Inr None"
  using mux_frames_round_trip [OF demo_keep_wire, of "[9, 9]" "[0, 10, 0]"]
  by (simp add: strict_prefix_def)

text \<open>
  C24. The decoder accepts nothing the encoder could not have produced: every frame it returns is
  well-formed and encodable, and decoding its own encoding gives it back. It never consumes more
  than its input nor more than the largest frame.
\<close>

theorem mux_decode_accepts_encodable:
  assumes "mux_decode bs = Inr (Some (f, n))"
  shows "frame_wf f \<and> 6 \<le> n \<and> n \<le> length bs \<and> n \<le> MAX_FRAME \<and>
    (\<exists>w. mux_encode f = Inr w \<and> mux_decode w = Inr (Some (f, length w)))"
  using mux_decode_ok [OF assms] mux_decode_bounds [OF assms] mux_round_trip [of f _ "[]"]
  by (auto simp: mux_frame_ok_def)

theorem mux_decode_accepts_encodable_witness:
  "frame_wf \<lparr>session_id = 1, f_status = End, f_error = True, f_target = None, global_id = None, f_payload = None\<rparr>"
proof -
  have "mux_decode [0, 6, 0, 1, 3, 2, 0, 0] = Inr (Some (\<lparr>session_id = 1, f_status = End, f_error = True,
      f_target = None, global_id = None, f_payload = None\<rparr>, 8))"
    by (simp add: mux_decode_def decode_meta_def meta_target_def meta_global_id_def decode_status_def
        from_be16_def from_be_def nth_get_def MAX_METADATA_def Let_def)
  from mux_decode_accepts_encodable [OF this] show ?thesis by simp
qed

text \<open>
  The decoder asks for more input only below the largest frame, so the capacity
  \<open>MAX_FRAME - bytes.len()\<close> a read loop computes on incomplete input never underflows and is
  never zero.
\<close>

theorem mux_incomplete_fits: "mux_decode bs = Inr None \<Longrightarrow> 0 < MAX_FRAME - length bs"
  using mux_decode_need [of bs] by simp

text \<open>
  C10. However the network splits a stream of frames, \<open>recv\<close> skips the frames that carry
  nothing, returns what the next frame means, and leaves the reader exactly in front of the
  frames after it; when only empty frames are left the end of the stream closes the session.
\<close>

theorem xudp_recv_any_chunking:
  assumes "xudp_pending (x_reader s) fs"
  shows "case dropWhile (\<lambda>f. xudp_result (x_target s) f = None) fs of
      [] \<Rightarrow> fst (xudp_recv s) = Inl xudp_closed
    | f # rest \<Rightarrow> Some (fst (xudp_recv s)) = xudp_result (x_target s) f \<and>
        (\<forall>d. fst (xudp_recv s) = Inr d \<longrightarrow> xudp_pending (x_reader (snd (xudp_recv s))) rest)"
proof -
  obtain res r where l: "xudp_recv_loop (x_target s) (x_reader s) = (res, r)" by fastforce
  have "\<not> x_failed (x_reader s)" using assms by (simp add: xudp_pending_def)
  then have "xudp_recv s = (res, s\<lparr>x_reader := r\<rparr>)" by (simp add: xudp_recv_def l)
  then have "fst (xudp_recv s) = fst (res, r)" "x_reader (snd (xudp_recv s)) = snd (res, r)" by simp_all
  then show ?thesis
    using xudp_recv_loop_pending [OF assms, of "x_target s"] unfolding l by (simp only:)
qed

theorem xudp_recv_any_chunking_witness:
  "fst (xudp_recv (xudp_new [Inr [0], Inr [10, 0, 0, 2, 1, 2, 0, 53, 2], Inr [1, 97, 0, 2, 1, 2]]
     \<lparr>t_addr = TDomain [98], t_port = 53, t_network = Udp\<rparr> [])) =
   Inr \<lparr>d_source = \<lparr>t_addr = TDomain [97], t_port = 53, t_network = Udp\<rparr>, d_payload = [1, 2]\<rparr>"
proof -
  let ?s = "xudp_new [Inr [0], Inr [10, 0, 0, 2, 1, 2, 0, 53, 2], Inr [1, 97, 0, 2, 1, 2]]
     \<lparr>t_addr = TDomain [98], t_port = 53, t_network = Udp\<rparr> []"
  have "delivers (x_stream (x_reader ?s)) [0, 10, 0, 0, 2, 1, 2, 0, 53, 2, 1, 97, 0, 2, 1, 2]"
    unfolding delivers_def
    by (rule exI [of _ "[[0], [10, 0, 0, 2, 1, 2, 0, 53, 2], [1, 97, 0, 2, 1, 2]]"]) (simp add: xudp_new_def)
  then have "xudp_pending (x_reader ?s) [demo_keep]"
    using demo_keep_wire by (simp add: xudp_pending_def pending_def xudp_new_def mux_frame_ok_def mux_wire_def)
  moreover have "xudp_result (x_target ?s) demo_keep =
      Some (Inr \<lparr>d_source = \<lparr>t_addr = TDomain [97], t_port = 53, t_network = Udp\<rparr>, d_payload = [1, 2]\<rparr>)"
    by (simp add: xudp_result_def demo_keep_def)
  ultimately show ?thesis using xudp_recv_any_chunking [of ?s "[demo_keep]"] by simp
qed

text \<open>
  C33. A fresh association writes its datagrams as a stream of well-formed frames: the first
  opens the session with the global id, the later ones keep it, and nothing else is written.
\<close>

theorem xudp_send_stream:
  assumes "encode_target New t = Inr tb" "t_network t = Udp" "addr_wf (t_addr t)" "length gid = 8"
    and "list_all (\<lambda>p. p \<noteq> [] \<and> length p \<le> MAX_PAYLOAD) ps"
  shows "x_writer (fold (\<lambda>p s. snd (xudp_send None t p s)) ps (xudp_new st t gid)) =
      Some \<lparr>x_out = concat (map mux_wire (xudp_frames t gid ps)), x_started = (ps \<noteq> []), x_global_id = gid\<rparr> \<and>
    list_all mux_frame_ok (xudp_frames t gid ps)"
proof -
  have "mux_frame_ok (xudp_frame b t gid p)" if "p \<in> set ps" for b p
    using that assms(5) by (intro xudp_frame_ok [OF assms(1-4)]) (auto simp: list_all_iff)
  then have "list_all mux_frame_ok (xudp_frames t gid ps)" by (cases ps) (auto simp: list_all_iff)
  then show ?thesis using xudp_send_all_new [OF assms, of st] by (simp add: xudp_send_all_def)
qed

theorem xudp_send_stream_witness:
  "x_writer (fold (\<lambda>p s. snd (xudp_send None \<lparr>t_addr = TIp (V4 1), t_port = 53, t_network = Udp\<rparr> p s)) [[1], [2]]
      (xudp_new [] \<lparr>t_addr = TIp (V4 1), t_port = 53, t_network = Udp\<rparr> (replicate 8 7))) \<noteq> None"
proof -
  have "encode_target New \<lparr>t_addr = TIp (V4 1), t_port = 53, t_network = Udp\<rparr> =
      Inr ([2] @ be16 53 @ [1] @ v4_octets 1)"
    by (simp add: encode_target_def)
  from xudp_send_stream [OF this, of "replicate 8 7" "[[1], [2]]" "[]"] show ?thesis
    by (simp add: MAX_PAYLOAD_def)
qed



end
