(* ===== verification/Xr_Trojan.thy ===== *)
theory Xr_Trojan
  imports Xr_Codec
begin

text \<open>
  Trojan requests and UDP frames: \<open>crates/xray-proxy/src/trojan/mod.rs\<close>, and the UDP session over a
  stream of such frames, \<open>NativeUdpSession\<close> of \<open>crates/xray-core-rs/src/outbound/trojan.rs\<close>.
  SHA-224 is a parameter. The \<open>Reader\<close> of the decoder is its unread input, so its offset is the
  length of the whole input less the length of what is unread.
\<close>

section \<open>Limits and errors\<close>

definition MAX_PASSWORD_LENGTH :: nat where "MAX_PASSWORD_LENGTH = 4096"
definition MAX_UDP_PAYLOAD_LENGTH :: nat where "MAX_UDP_PAYLOAD_LENGTH = 8192"
definition MAX_DOMAIN_LENGTH :: nat where "MAX_DOMAIN_LENGTH = 255"
definition MAX_UDP_FRAME_LENGTH :: nat where
  "MAX_UDP_FRAME_LENGTH = 1 + 1 + MAX_DOMAIN_LENGTH + 2 + 2 + 2 + MAX_UDP_PAYLOAD_LENGTH"

datatype trojan_error =
    PasswordLength | DomainError | PortError | NetworkError | Incomplete | AddressType | Delimiter
  | PayloadLength

section \<open>Credentials and requests\<close>

record trojan_auth =
  ta_token :: bytes

definition HEX :: bytes where
  "HEX = b_str ''0123456789abcdef''"

definition hex_digits :: "u8 \<Rightarrow> bytes" where
  "hex_digits byte = [HEX ! unat (drop_bit 4 byte), HEX ! unat (byte AND 15)]"

text \<open>The token is a 56-byte array: the digits of the digest's bytes over zeros.\<close>

definition trojan_auth_new :: "(bytes \<Rightarrow> bytes) \<Rightarrow> bytes \<Rightarrow> trojan_error + trojan_auth" where
  "trojan_auth_new sha224 password =
     (if password = [] \<or> length password > MAX_PASSWORD_LENGTH then Inl PasswordLength
      else let digits = concat (map hex_digits (sha224 password))
           in Inr \<lparr>ta_token = digits @ replicate (56 - length digits) 0\<rparr>)"

definition validate_domain :: "bytes \<Rightarrow> trojan_error + unit" where
  "validate_domain d =
     (if d = [] \<or> length d > MAX_DOMAIN_LENGTH \<or> has_control_or_space d then Inl DomainError else Inr ())"

definition validate_target :: "target \<Rightarrow> trojan_error + nat" where
  "validate_target t =
     (if t_port t = 0 then Inl PortError
      else (case t_addr t of
          TIp (V4 _) \<Rightarrow> Inr 7
        | TIp (V6 _) \<Rightarrow> Inr 19
        | TDomain d \<Rightarrow> rbind (validate_domain d) (\<lambda>_. Inr (1 + 1 + length d + 2))))"

definition trojan_encode_address :: "target \<Rightarrow> bytes" where
  "trojan_encode_address t =
     (case t_addr t of
        TIp (V4 ip) \<Rightarrow> [1] @ v4_octets ip
      | TIp (V6 ip) \<Rightarrow> [4] @ v6_octets ip
      | TDomain d \<Rightarrow> [3, of_nat (length d)] @ d) @ be16 (t_port t)"

definition trojan_request_header :: "trojan_auth \<Rightarrow> target \<Rightarrow> trojan_error + bytes" where
  "trojan_request_header auth t =
     rbind (validate_target t) (\<lambda>_.
     Inr (ta_token auth @ [13, 10] @ [case t_network t of Tcp \<Rightarrow> 1 | Udp \<Rightarrow> 3] @
          trojan_encode_address t @ [13, 10]))"

section \<open>UDP frames\<close>

record udp_packet =
  p_target :: target
  p_payload :: bytes

definition trojan_encode_udp :: "udp_packet \<Rightarrow> trojan_error + bytes" where
  "trojan_encode_udp p =
     (if t_network (p_target p) \<noteq> Udp then Inl NetworkError
      else
        rbind (validate_target (p_target p)) (\<lambda>_.
        if length (p_payload p) > MAX_UDP_PAYLOAD_LENGTH then Inl PayloadLength
        else Inr (trojan_encode_address (p_target p) @ be16 (of_nat (length (p_payload p))) @ [13, 10] @
                  p_payload p)))"

text \<open>The address after its type byte.\<close>

definition trojan_read_address :: "u8 \<Rightarrow> bytes \<Rightarrow> trojan_error + (target_addr \<times> bytes)" where
  "trojan_read_address address_type i =
     (if address_type = 1
      then rbind (take_exact Incomplete 4 i) (\<lambda>(b, r). Inr (TIp (V4 (v4_from_octets b)), r))
      else if address_type = 4
      then rbind (take_exact Incomplete 16 i) (\<lambda>(b, r). Inr (TIp (V6 (v6_from_octets b)), r))
      else if address_type = 3
      then
        rbind (take_u8 Incomplete i) (\<lambda>(len, r).
        rbind (take_exact Incomplete (unat len) r) (\<lambda>(b, r).
        rbind (ok_or DomainError (from_utf8 b)) (\<lambda>d.
        rbind (validate_domain d) (\<lambda>_. Inr (TDomain d, r)))))
      else Inl AddressType)"

definition trojan_read_udp :: "bytes \<Rightarrow> trojan_error + (udp_packet \<times> bytes)" where
  "trojan_read_udp i =
     rbind (take_u8 Incomplete i) (\<lambda>(address_type, r).
     rbind (trojan_read_address address_type r) (\<lambda>(a, r).
     rbind (take_u16 Incomplete r) (\<lambda>(port, r).
     if port = 0 then Inl PortError
     else
       rbind (take_u16 Incomplete r) (\<lambda>(len, r).
       if unat len > MAX_UDP_PAYLOAD_LENGTH then Inl PayloadLength
       else
         rbind (take_exact Incomplete 2 r) (\<lambda>(crlf, r).
         if crlf \<noteq> [13, 10] then Inl Delimiter
         else
           rbind (take_exact Incomplete (unat len) r) (\<lambda>(payload, r).
           Inr (\<lparr>p_target = target_new a port Udp, p_payload = payload\<rparr>, r)))))))"

definition trojan_decode_udp :: "bytes \<Rightarrow> trojan_error + (udp_packet \<times> nat)" where
  "trojan_decode_udp input =
     rbind (trojan_read_udp input) (\<lambda>(p, r). Inr (p, length input - length r))"

section \<open>The UDP session\<close>

datatype native_error = WireErr trojan_error | IoErr io_error

record native_reader =
  n_stream :: arrivals
  n_pending :: bytes
  n_closed :: bool

record native_session =
  n_writer :: "bytes option"
  n_reader :: native_reader

definition native_new :: "arrivals \<Rightarrow> native_session" where
  "native_new stream =
     \<lparr>n_writer = Some [], n_reader = \<lparr>n_stream = stream, n_pending = [], n_closed = False\<rparr>\<rparr>"

text \<open>\<open>n_writer\<close> holds what was written, or \<open>None\<close> once a send failed; \<open>io\<close> is the write's error.\<close>

definition native_send ::
    "io_error option \<Rightarrow> target \<Rightarrow> bytes \<Rightarrow> native_session \<Rightarrow> (native_error + unit) \<times> native_session" where
  "native_send io t payload s =
     (case trojan_encode_udp \<lparr>p_target = t, p_payload = payload\<rparr> of
        Inl e \<Rightarrow> (Inl (WireErr e), s)
      | Inr wire \<Rightarrow>
          (case n_writer s of
             None \<Rightarrow> (Inl (IoErr (Io BrokenPipe ''Trojan UDP writer closed'')), s)
           | Some out \<Rightarrow>
               (case io of
                  Some e \<Rightarrow> (Inl (IoErr e), s\<lparr>n_writer := None\<rparr>)
                | None \<Rightarrow> (Inr (), s\<lparr>n_writer := Some (out @ wire)\<rparr>))))"

lemma validate_domain_Inr [simp]:
  "validate_domain d = Inr u \<longleftrightarrow> d \<noteq> [] \<and> length d \<le> 255 \<and> \<not> has_control_or_space d"
  by (auto simp: validate_domain_def MAX_DOMAIN_LENGTH_def)

text \<open>The target of a frame: valid for the encoder, its domain a Rust string.\<close>

definition trojan_target_ok :: "target \<Rightarrow> bool" where
  "trojan_target_ok t \<longleftrightarrow>
     t_port t \<noteq> 0 \<and> addr_wf (t_addr t) \<and>
     (case t_addr t of TIp _ \<Rightarrow> True | TDomain d \<Rightarrow> d \<noteq> [] \<and> length d \<le> 255 \<and> \<not> has_control_or_space d)"

lemma validate_target_Inr: "(\<exists>n. validate_target t = Inr n) \<and> addr_wf (t_addr t) \<longleftrightarrow> trojan_target_ok t"
  by (cases "t_addr t")
    (auto simp: validate_target_def trojan_target_ok_def rbind_eq_Inr split: ip_addr.splits)

lemma validate_target_length:
  "validate_target t = Inr n \<Longrightarrow> n = length (trojan_encode_address t)"
  by (auto simp: validate_target_def trojan_encode_address_def rbind_eq_Inr
      split: if_splits target_addr.splits ip_addr.splits)

fun address_body :: "target_addr \<Rightarrow> u8 \<times> bytes" where
  "address_body (TIp (V4 ip)) = (1, v4_octets ip)"
| "address_body (TIp (V6 ip)) = (4, v6_octets ip)"
| "address_body (TDomain d) = (3, of_nat (length d) # d)"

lemma trojan_encode_address_body:
  "trojan_encode_address t = [fst (address_body (t_addr t))] @ snd (address_body (t_addr t)) @ be16 (t_port t)"
  by (auto simp: trojan_encode_address_def split: target_addr.splits ip_addr.splits)

lemma streams_read_address:
  assumes "trojan_target_ok t"
  shows "streams Incomplete (trojan_read_address (fst (address_body (t_addr t)))) (snd (address_body (t_addr t))) (t_addr t)"
proof (cases "t_addr t")
  case (TIp ip)
  then show ?thesis
    using streams_bind_last [OF streams_take [OF length_v4_octets], of Incomplete "\<lambda>b. TIp (V4 (v4_from_octets b))"]
      streams_bind_last [OF streams_take [OF length_v6_octets], of Incomplete "\<lambda>b. TIp (V6 (v6_from_octets b))"]
    by (cases ip) (simp_all add: trojan_read_address_def [abs_def])
next
  case (TDomain d)
  have d: "utf8_valid d" "validate_domain d = Inr ()" "unat (of_nat (length d) :: u8) = length d"
    using assms TDomain by (auto simp: trojan_target_ok_def)
  have "streams Incomplete (\<lambda>i. rbind (take_u8 Incomplete i) (\<lambda>(len, r).
      rbind (take_exact Incomplete (unat len) r) (\<lambda>(b, r).
      rbind (ok_or DomainError (from_utf8 b)) (\<lambda>d.
      rbind (validate_domain d) (\<lambda>_. Inr (TDomain d, r)))))) ([of_nat (length d)] @ d @ []) (TDomain d)"
    by (rule streams_bind [OF streams_u8 streams_bind [OF streams_take]])
      (simp_all only: d from_utf8_valid ok_or_simps rbind_Inr streams_return)
  then show ?thesis using TDomain by (simp add: trojan_read_address_def [abs_def])
qed

definition trojan_packet_ok :: "udp_packet \<Rightarrow> bool" where
  "trojan_packet_ok p \<longleftrightarrow>
     trojan_target_ok (p_target p) \<and> t_network (p_target p) = Udp \<and>
     length (p_payload p) \<le> MAX_UDP_PAYLOAD_LENGTH"

definition trojan_wire :: "udp_packet \<Rightarrow> bytes" where
  "trojan_wire p =
     trojan_encode_address (p_target p) @ be16 (of_nat (length (p_payload p))) @ [13, 10] @ p_payload p"

lemma trojan_encode_udp_Inr:
  "trojan_encode_udp p = Inr w \<and> addr_wf (t_addr (p_target p)) \<longleftrightarrow> trojan_packet_ok p \<and> w = trojan_wire p"
  using validate_target_Inr [of "p_target p"]
  by (auto simp: trojan_encode_udp_def trojan_packet_ok_def trojan_wire_def rbind_eq_Inr)

lemma streams_read_udp:
  assumes "trojan_packet_ok p"
  shows "streams Incomplete trojan_read_udp (trojan_wire p) p"
proof -
  let ?t = "p_target p" and ?len = "of_nat (length (p_payload p)) :: u16"
  have ok: "trojan_target_ok ?t" "t_network ?t = Udp" "unat ?len = length (p_payload p)"
      "t_port ?t \<noteq> 0" "\<not> unat ?len > MAX_UDP_PAYLOAD_LENGTH"
    using assms by (auto simp: trojan_packet_ok_def trojan_target_ok_def MAX_UDP_PAYLOAD_LENGTH_def)
  have p: "\<lparr>p_target = target_new (t_addr ?t) (t_port ?t) Udp, p_payload = p_payload p\<rparr> = p"
    using target_new_eq [of ?t] ok(2) by (cases p) simp
  have w: "trojan_wire p = [fst (address_body (t_addr ?t))] @ snd (address_body (t_addr ?t)) @
      be16 (t_port ?t) @ be16 ?len @ [13, 10] @ p_payload p @ []"
    by (simp add: trojan_wire_def trojan_encode_address_body)
  show ?thesis
    unfolding w trojan_read_udp_def [abs_def]
    by (rule streams_bind [OF streams_u8], rule streams_bind [OF streams_read_address [OF ok(1)]],
        rule streams_bind [OF streams_u16], rule streams_if [OF ok(4)],
        rule streams_bind [OF streams_u16], rule streams_if [OF ok(5)],
        rule streams_bind [OF streams_take], simp, rule streams_if, simp,
        rule streams_bind [OF streams_take], rule ok(3) [symmetric], simp only: p streams_return)
qed

interpretation tj: incremental_codec trojan_packet_ok trojan_wire "parser_dec trojan_read_udp"
  "parser_need Incomplete trojan_read_udp"
  by (rule incremental_codec_streams [OF streams_read_udp]) (simp_all add: trojan_wire_def trojan_encode_address_body)

section \<open>Bounds\<close>

lemma read_address_length:
  "trojan_read_address ty i = Inr (a, r) \<Longrightarrow> length r \<le> length i \<and> length i \<le> 256 + length r"
  unfolding trojan_read_address_def
  by (auto simp: rbind_eq_Inr dest!: take_u8_length take_unat_u8_Inr split: if_splits)
    (auto simp: take_exact_Inr)

lemma read_address_incomplete: "trojan_read_address ty i = Inl Incomplete \<Longrightarrow> length i < 256"
  unfolding trojan_read_address_def
  by (auto simp: rbind_eq_Inl take_u8_Inl validate_domain_def dest!: take_u8_length take_unat_u8_Inl
      split: if_splits) (auto simp: take_exact_Inl)

lemma read_udp_incomplete:
  assumes "trojan_read_udp i = Inl Incomplete"
  shows "length i < MAX_UDP_FRAME_LENGTH"
  using assms unfolding trojan_read_udp_def
  by (auto simp: rbind_eq_Inl take_u8_Inl take_u16_Inl take_exact_Inl take_exact_Inr
      MAX_UDP_FRAME_LENGTH_def MAX_DOMAIN_LENGTH_def MAX_UDP_PAYLOAD_LENGTH_def
      dest!: take_u8_length take_u16_length read_address_length read_address_incomplete split: if_splits)

lemma read_udp_length: "trojan_read_udp i = Inr (p, r) \<Longrightarrow> length r < length i"
  unfolding trojan_read_udp_def
  by (auto simp: rbind_eq_Inr take_exact_Inr dest!: take_u8_length take_u16_length read_address_length split: if_splits)

section \<open>Receiving\<close>

text \<open>The loop of \<open>recv\<close>: one frame from the pending bytes, or another read of at most 1024 bytes.\<close>

function native_recv_loop :: "native_reader \<Rightarrow> (native_error + datagram) \<times> native_reader" where
  "native_recv_loop r =
     (case trojan_decode_udp (n_pending r) of
        Inr (p, consumed) \<Rightarrow>
          (Inr \<lparr>d_source = p_target p, d_payload = p_payload p\<rparr>,
           r\<lparr>n_pending := drop consumed (n_pending r)\<rparr>)
      | Inl e \<Rightarrow>
          if e \<noteq> Incomplete then (Inl (WireErr e), r\<lparr>n_closed := True\<rparr>)
          else let remaining = MAX_UDP_FRAME_LENGTH - length (n_pending r) in
            if remaining = 0 then (Inl (WireErr PayloadLength), r\<lparr>n_closed := True\<rparr>)
            else (case read_chunk (min remaining 1024) (n_stream r) of
                (Inl e, st) \<Rightarrow> (Inl (IoErr e), r\<lparr>n_stream := st, n_closed := True\<rparr>)
              | (Inr c, st) \<Rightarrow>
                  if c = []
                  then (Inl (IoErr (Io UnexpectedEof ''Trojan UDP stream closed'')),
                        r\<lparr>n_stream := st, n_closed := True\<rparr>)
                  else native_recv_loop (r\<lparr>n_stream := st, n_pending := n_pending r @ c\<rparr>)))"
  by pat_completeness auto
termination
  by (relation "measure (\<lambda>r. data_bytes (n_stream r))") (auto dest!: read_chunk_data_bytes [OF sym])

declare native_recv_loop.simps [simp del]

definition native_recv :: "native_session \<Rightarrow> (native_error + datagram) \<times> native_session" where
  "native_recv s =
     (if n_closed (n_reader s) then (Inl (IoErr (Io BrokenPipe ''Trojan UDP reader closed'')), s)
      else (case native_recv_loop (n_reader s) of (res, r) \<Rightarrow> (res, s\<lparr>n_reader := r\<rparr>)))"

lemma trojan_decode_parser:
  "trojan_decode_udp i = Inr (p, n) \<longleftrightarrow> parser_dec trojan_read_udp i = Some (p, n)"
  by (auto simp: trojan_decode_udp_def parser_dec_def rbind_eq_Inr split: sum.splits)

lemma trojan_decode_incomplete: "trojan_decode_udp i = Inl e \<longleftrightarrow> trojan_read_udp i = Inl e"
  by (auto simp: trojan_decode_udp_def rbind_eq_Inl)

text \<open>The session still has the packets \<open>ps\<close> to receive.\<close>

definition native_pending :: "native_reader \<Rightarrow> udp_packet list \<Rightarrow> bool" where
  "native_pending r ps \<longleftrightarrow>
     \<not> n_closed r \<and> pending trojan_packet_ok trojan_wire (n_pending r) (n_stream r) ps"

lemma native_recv_loop_pending:
  "native_pending r (p # ps) \<Longrightarrow>
     fst (native_recv_loop r) = Inr \<lparr>d_source = p_target p, d_payload = p_payload p\<rparr> \<and>
     native_pending (snd (native_recv_loop r)) ps"
proof (induction r rule: native_recv_loop.induct)
  case (1 r)
  have nc: "\<not> n_closed r" and p: "pending trojan_packet_ok trojan_wire (n_pending r) (n_stream r) (p # ps)"
    using "1.prems" by (auto simp: native_pending_def)
  show ?case
  proof (cases "length (n_pending r) < length (trojan_wire p)")
    case True
    have "trojan_read_udp (n_pending r) = Inl Incomplete"
      using tj.pending_short(1) [OF p True] by (simp add: parser_need_def)
    then have d: "trojan_decode_udp (n_pending r) = Inl Incomplete"
      and cap: "length (n_pending r) < MAX_UDP_FRAME_LENGTH"
      by (simp_all add: trojan_decode_incomplete read_udp_incomplete)
    then obtain c st where
      c: "read_chunk (min (MAX_UDP_FRAME_LENGTH - length (n_pending r)) 1024) (n_stream r) = (Inr c, st)" "c \<noteq> []"
        "native_pending (r\<lparr>n_stream := st, n_pending := n_pending r @ c\<rparr>) (p # ps)"
      using tj.pending_short(2) [OF p True, of "min (MAX_UDP_FRAME_LENGTH - length (n_pending r)) 1024"] nc
      by (auto simp: native_pending_def)
    have eq: "native_recv_loop r = native_recv_loop (r\<lparr>n_stream := st, n_pending := n_pending r @ c\<rparr>)"
      using c d cap by (subst native_recv_loop.simps) (simp add: Let_def)
    show ?thesis
      unfolding eq
      by (rule "1.IH" [OF d _ refl _ c(1) [symmetric] refl c(2,3)]) (use cap in simp_all)
  next
    case False
    have "trojan_decode_udp (n_pending r) = Inr (p, length (trojan_wire p))"
      using tj.pending_full(1) [OF p False] by (simp add: trojan_decode_parser)
    then show ?thesis
      using tj.pending_full(2) [OF p False] nc
      by (subst (1 2) native_recv_loop.simps) (simp add: native_pending_def)
  qed
qed

lemma trojan_read_udp_ok:
  assumes "trojan_read_udp i = Inr (p, r)"
  shows "trojan_packet_ok p"
proof -
  have a: "addr_wf x \<and> (case x of TIp _ \<Rightarrow> True | TDomain d \<Rightarrow> d \<noteq> [] \<and> length d \<le> 255 \<and> \<not> has_control_or_space d)"
    if "trojan_read_address ty j = Inr (x, r)" for ty j x r
    using that by (auto simp: trojan_read_address_def rbind_eq_Inr split: if_splits)
  show ?thesis
    using assms unfolding trojan_read_udp_def
    by (auto simp: rbind_eq_Inr trojan_packet_ok_def trojan_target_ok_def take_exact_Inr split: if_splits dest!: a)
qed

section \<open>Tokens and headers\<close>

lemma unat_nibbles: "unat (drop_bit 4 (c :: u8)) = unat c div 16" "unat (c AND 15) = unat c mod 16"
proof -
  have "unat (drop_bit 4 c) = drop_bit 4 (unat c)"
    by (rule bit_eqI) (auto simp: bit_unsigned_iff bit_drop_bit_eq dest: bit_imp_le_length)
  then show "unat (drop_bit 4 c) = unat c div 16" by (simp add: drop_bit_eq_div)
  have "c AND 15 = take_bit 4 c" by (simp add: take_bit_eq_mask mask_eq_exp_minus_1)
  then have "unat (c AND 15) = take_bit 4 (unat c)" by (simp add: unsigned_take_bit_eq)
  then show "unat (c AND 15) = unat c mod 16" by (simp add: take_bit_eq_mod)
qed

lemma hex_digits_inj: "hex_digits a = hex_digits b \<longleftrightarrow> a = b"
proof
  have inj: "HEX ! i = HEX ! j \<longleftrightarrow> i = j" if "i < 16" "j < 16" for i j
    using that nth_eq_iff_index_eq [of HEX i j] by (simp add: HEX_def b_str_def)
  have lt: "unat c div 16 < 16" "unat c mod 16 < 16" for c :: u8
    using unat_u8_lt [of c] by (simp_all add: div_less_iff_less_mult del: unat_u8_lt)
  assume "hex_digits a = hex_digits b"
  then have "unat a div 16 = unat b div 16" "unat a mod 16 = unat b mod 16"
    by (simp_all add: hex_digits_def unat_nibbles inj lt)
  then show "a = b" by (metis div_mult_mod_eq word_unat_eq_iff)
qed simp

lemma length_hex_digits [simp]: "length (hex_digits b) = 2"
  by (simp add: hex_digits_def)

lemma hex_concat_inj:
  "concat (map hex_digits xs) = concat (map hex_digits ys) \<Longrightarrow> xs = ys"
proof (induction xs arbitrary: ys)
  case Nil
  then show ?case by (cases ys) (simp_all add: hex_digits_def)
next
  case (Cons x xs)
  then obtain y ys' where ys: "ys = y # ys'" by (cases ys) (simp_all add: hex_digits_def)
  then have "hex_digits x = hex_digits y" "concat (map hex_digits xs) = concat (map hex_digits ys')"
    using Cons.prems by (simp_all add: append_eq_append_conv)
  then show ?case using Cons.IH ys by (simp add: hex_digits_inj)
qed

lemma length_hex_concat: "length (concat (map hex_digits xs)) = 2 * length xs"
  by (induction xs) (simp_all add: hex_digits_def)

lemma token_of_digest:
  "trojan_auth_new sha224 pw = Inr a \<Longrightarrow> length (sha224 pw) = 28 \<Longrightarrow>
     ta_token a = concat (map hex_digits (sha224 pw)) \<and> length (ta_token a) = 56"
  by (auto simp: trojan_auth_new_def Let_def length_hex_concat split: if_splits)

definition trojan_read_target :: "bytes \<Rightarrow> trojan_error + ((target_addr \<times> u16) \<times> bytes)" where
  "trojan_read_target i =
     rbind (take_u8 Incomplete i) (\<lambda>(address_type, r).
     rbind (trojan_read_address address_type r) (\<lambda>(a, r).
     rbind (take_u16 Incomplete r) (\<lambda>(port, r). Inr ((a, port), r))))"

lemma streams_read_target:
  assumes "trojan_target_ok t"
  shows "streams Incomplete trojan_read_target (trojan_encode_address t) (t_addr t, t_port t)"
  unfolding trojan_read_target_def [abs_def] trojan_encode_address_body
  by (rule streams_bind [OF streams_u8], rule streams_bind [OF streams_read_address [OF assms]],
      rule streams_bind_last [OF streams_u16])

lemma trojan_encode_address_inj:
  assumes "trojan_target_ok t" "trojan_target_ok u" "trojan_encode_address t @ x = trojan_encode_address u @ y"
  shows "t_addr t = t_addr u \<and> t_port t = t_port u \<and> x = y"
  using streamsD [OF streams_read_target [OF assms(1)], of x]
    streamsD [OF streams_read_target [OF assms(2)], of y] assms(3) by simp

section \<open>Properties\<close>

text \<open>
  C35. The request header determines the request: for a digest of 28 bytes, two headers are
  equal only when the password digests, the networks, the addresses and the ports are equal; the
  token always fills its 56 bytes.
\<close>

theorem trojan_header_determines:
  assumes "length (sha224 pw) = 28" "length (sha224 pw') = 28"
    and "trojan_auth_new sha224 pw = Inr a" "trojan_auth_new sha224 pw' = Inr a'"
    and "trojan_request_header a t = Inr h" "trojan_request_header a' t' = Inr h"
    and "addr_wf (t_addr t)" "addr_wf (t_addr t')"
  shows "sha224 pw = sha224 pw' \<and> t = t' \<and> length (ta_token a) = 56"
proof -
  note k = token_of_digest [OF assms(3,1)] token_of_digest [OF assms(4,2)]
  have ok: "trojan_target_ok t" "trojan_target_ok t'"
    using assms(5-8) validate_target_Inr [of t] validate_target_Inr [of t']
    by (auto simp: trojan_request_header_def rbind_eq_Inr)
  have h: "ta_token a @ [13, 10] @ [case t_network t of Tcp \<Rightarrow> 1 | Udp \<Rightarrow> 3] @ trojan_encode_address t @ [13, 10] =
      ta_token a' @ [13, 10] @ [case t_network t' of Tcp \<Rightarrow> 1 | Udp \<Rightarrow> 3] @ trojan_encode_address t' @ [13, 10]"
    using assms(5,6) by (auto simp: trojan_request_header_def rbind_eq_Inr)
  moreover have "length (ta_token a) = length (ta_token a')" using k by metis
  ultimately have tok: "ta_token a = ta_token a'" by (metis append_eq_append_conv)
  have "(case t_network t of Tcp \<Rightarrow> 1 | Udp \<Rightarrow> (3 :: u8)) = (case t_network t' of Tcp \<Rightarrow> 1 | Udp \<Rightarrow> 3)"
    and addr: "trojan_encode_address t @ [13, 10] = trojan_encode_address t' @ [13, 10]"
    using h tok by simp_all
  then have "t_network t = t_network t'" by (cases "t_network t"; cases "t_network t'") simp_all
  moreover have "t_addr t = t_addr t'" "t_port t = t_port t'"
    using trojan_encode_address_inj [OF ok addr] by simp_all
  ultimately have "t = t'" by simp
  moreover have "sha224 pw = sha224 pw'" using tok k hex_concat_inj by metis
  ultimately show ?thesis using k by blast
qed

theorem trojan_header_determines_witness:
  "length (ta_token \<lparr>ta_token = concat (map hex_digits (replicate 28 171))\<rparr>) = 56"
proof -
  let ?sha = "\<lambda>_. replicate 28 (171 :: u8)" and ?t = "\<lparr>t_addr = TIp (V4 1), t_port = 80, t_network = Tcp\<rparr>"
  let ?a = "\<lparr>ta_token = concat (map hex_digits (replicate 28 171))\<rparr>"
  have "trojan_auth_new ?sha [112] = Inr ?a"
    using length_hex_concat [of "replicate 28 171"]
    by (simp add: trojan_auth_new_def MAX_PASSWORD_LENGTH_def Let_def)
  moreover have "\<exists>h. trojan_request_header ?a ?t = Inr h"
    by (simp add: trojan_request_header_def validate_target_def)
  ultimately show ?thesis
    using trojan_header_determines [of ?sha "[112]" "[112]" ?a ?a ?t _ ?t] by auto
qed

text \<open>
  C27. UDP frames: a packet the encoder accepts decodes, in front of anything, to itself and
  exactly its bytes, a proper prefix of it is incomplete, and conversely every packet the decoder
  returns is one the encoder accepts, found within the input.
\<close>

theorem trojan_udp_round_trip:
  "(trojan_encode_udp p = Inr w \<and> addr_wf (t_addr (p_target p)) \<longrightarrow>
      trojan_decode_udp (w @ rest) = Inr (p, length w) \<and>
      (strict_prefix q w \<longrightarrow> trojan_decode_udp q = Inl Incomplete)) \<and>
   (trojan_decode_udp i = Inr (d, n) \<longrightarrow> (\<exists>v. trojan_encode_udp d = Inr v) \<and> 0 < n \<and> n \<le> length i)"
proof (intro conjI impI)
  assume "trojan_encode_udp p = Inr w \<and> addr_wf (t_addr (p_target p))"
  then have ok: "trojan_packet_ok p" "w = trojan_wire p" by (simp_all add: trojan_encode_udp_Inr)
  show "trojan_decode_udp (w @ rest) = Inr (p, length w)"
    using tj.dec_enc [OF ok(1)] by (simp add: trojan_decode_parser ok(2))
  show "trojan_decode_udp q = Inl Incomplete" if "strict_prefix q w"
    using tj.need_prefix [OF ok(1)] that by (simp add: trojan_decode_incomplete parser_need_def ok(2))
next
  assume d: "trojan_decode_udp i = Inr (d, n)"
  then obtain r where r: "trojan_read_udp i = Inr (d, r)" "n = length i - length r"
    by (auto simp: trojan_decode_udp_def rbind_eq_Inr)
  show "\<exists>v. trojan_encode_udp d = Inr v"
    using trojan_read_udp_ok [OF r(1)] trojan_encode_udp_Inr [of d] by blast
  show "0 < n" "n \<le> length i" using read_udp_length [OF r(1)] r(2) by simp_all
qed

text \<open>The two directions at one packet.\<close>

theorem trojan_udp_round_trip_witness:
  "trojan_decode_udp ([1, 127, 0, 0, 1, 0, 53, 0, 1, 13, 10, 65] @ [1]) =
     Inr (\<lparr>p_target = \<lparr>t_addr = TIp (V4 0x7F000001), t_port = 53, t_network = Udp\<rparr>, p_payload = [65]\<rparr>, 12)"
proof -
  let ?p = "\<lparr>p_target = \<lparr>t_addr = TIp (V4 0x7F000001), t_port = 53, t_network = Udp\<rparr>, p_payload = [65]\<rparr>"
  have "trojan_encode_udp ?p = Inr [1, 127, 0, 0, 1, 0, 53, 0, 1, 13, 10, 65]"
    by (simp add: trojan_encode_udp_def validate_target_def trojan_encode_address_def v4_octets_def be16_def
        be_bytes_def upt_conv_Cons MAX_UDP_PAYLOAD_LENGTH_def)
  then show ?thesis
    using trojan_udp_round_trip [of ?p "[1, 127, 0, 0, 1, 0, 53, 0, 1, 13, 10, 65]" "[1]"] by simp
qed

fun native_recv_n :: "nat \<Rightarrow> native_session \<Rightarrow> (native_error + datagram) list" where
  "native_recv_n 0 s = []"
| "native_recv_n (Suc n) s = (case native_recv s of (res, s') \<Rightarrow> res # native_recv_n n s')"

lemma native_recv_n_pending:
  "native_pending (n_reader s) ps \<Longrightarrow>
     native_recv_n (length ps) s = map (\<lambda>p. Inr \<lparr>d_source = p_target p, d_payload = p_payload p\<rparr>) ps"
proof (induction ps arbitrary: s)
  case Nil
  then show ?case by simp
next
  case (Cons p ps)
  have "\<not> n_closed (n_reader s)" using Cons.prems by (simp add: native_pending_def)
  then obtain r where "native_recv s = (Inr \<lparr>d_source = p_target p, d_payload = p_payload p\<rparr>, s\<lparr>n_reader := r\<rparr>)"
      "native_pending r ps"
    using native_recv_loop_pending [OF Cons.prems]
    by (cases "native_recv_loop (n_reader s)") (simp add: native_recv_def)
  then show ?case using Cons.IH by simp
qed

lemma native_send_all:
  "list_all trojan_packet_ok ps \<Longrightarrow> n_writer s = Some out \<Longrightarrow>
     n_writer (fold (\<lambda>p s. snd (native_send None (p_target p) (p_payload p) s)) ps s) =
       Some (out @ concat (map trojan_wire ps))"
proof (induction ps arbitrary: s out)
  case Nil
  then show ?case by simp
next
  case (Cons p ps)
  have "trojan_encode_udp p = Inr (trojan_wire p)" using Cons.prems(1) trojan_encode_udp_Inr [of p] by auto
  then have "native_send None (p_target p) (p_payload p) s = (Inr (), s\<lparr>n_writer := Some (out @ trojan_wire p)\<rparr>)"
    using Cons.prems(2) by (cases p) (simp add: native_send_def)
  then show ?case using Cons.IH [of "s\<lparr>n_writer := Some (out @ trojan_wire p)\<rparr>"] Cons.prems by simp
qed

text \<open>
  C9. End to end: what one session sends, another receives. The bytes written for any list of
  valid datagrams, split by the network in any way, come out of successive \<open>recv\<close> calls as the same
  datagrams in the same order.
\<close>

theorem native_udp_end_to_end:
  assumes "list_all trojan_packet_ok ps"
    and "n_writer (fold (\<lambda>p s. snd (native_send None (p_target p) (p_payload p) s)) ps (native_new as)) = Some out"
    and "delivers as' out"
  shows "native_recv_n (length ps) (native_new as') =
    map (\<lambda>p. Inr \<lparr>d_source = p_target p, d_payload = p_payload p\<rparr>) ps"
proof -
  have "out = concat (map trojan_wire ps)"
    using native_send_all [OF assms(1), of "native_new as" "[]"] assms(2) by (simp add: native_new_def)
  then have "native_pending (n_reader (native_new as')) ps"
    using assms(1,3) by (simp add: native_pending_def pending_def native_new_def)
  then show ?thesis by (rule native_recv_n_pending)
qed

theorem native_udp_end_to_end_witness:
  "native_recv_n 1 (native_new [Inr [1, 127, 0], Inr [0, 1, 0, 53, 0, 1, 13, 10, 65]]) =
     [Inr \<lparr>d_source = \<lparr>t_addr = TIp (V4 0x7F000001), t_port = 53, t_network = Udp\<rparr>, d_payload = [65]\<rparr>]"
proof -
  let ?p = "\<lparr>p_target = \<lparr>t_addr = TIp (V4 0x7F000001), t_port = 53, t_network = Udp\<rparr>, p_payload = [65]\<rparr>"
  have w: "trojan_encode_udp ?p = Inr [1, 127, 0, 0, 1, 0, 53, 0, 1, 13, 10, 65]"
    by (simp add: trojan_encode_udp_def validate_target_def trojan_encode_address_def v4_octets_def be16_def
        be_bytes_def upt_conv_Cons MAX_UDP_PAYLOAD_LENGTH_def)
  have "delivers [Inr [1, 127, 0], Inr [0, 1, 0, 53, 0, 1, 13, 10, 65]] [1, 127, 0, 0, 1, 0, 53, 0, 1, 13, 10, 65]"
    unfolding delivers_def by (rule exI [of _ "[[1, 127, 0], [0, 1, 0, 53, 0, 1, 13, 10, 65]]"]) simp
  moreover have "trojan_packet_ok ?p"
    by (simp add: trojan_packet_ok_def trojan_target_ok_def MAX_UDP_PAYLOAD_LENGTH_def)
  ultimately show ?thesis
    using native_udp_end_to_end [of "[?p]" "[]"] w by (simp add: native_send_def native_new_def del: native_recv_n.simps)
qed

end
