(* ===== verification/Xr_Vless.thy ===== *)
theory Xr_Vless
  imports Xr_Mux
begin

text \<open>
  VLESS requests and UDP packets: \<open>crates/xray-proxy/src/vless/wire.rs\<close> and \<open>vless/udp.rs\<close>. The
  protobuf encoder of the addons message is a parameter. An async reader is its unread input;
  \<open>read_exact\<close> on less than it asks for is the end-of-file error.
\<close>

section \<open>Requests\<close>

datatype vless_command = CmdTcp | CmdUdp | CmdMux | CmdReverse

fun command_code :: "vless_command \<Rightarrow> u8" where
  "command_code CmdTcp = 1"
| "command_code CmdUdp = 2"
| "command_code CmdMux = 3"
| "command_code CmdReverse = 4"

record vless_request =
  v_user_id :: bytes
  v_command :: vless_command
  v_target :: target
  v_flow :: "bytes option"

datatype vless_error = DomainTooLong nat | AddonsTooLong nat | PacketTooLong nat

definition VLESS_VERSION :: u8 where "VLESS_VERSION = 0"
definition VISION_FLOW :: bytes where "VISION_FLOW = b_str ''xtls-rprx-vision''"
definition VISION_UDP443_FLOW :: bytes where "VISION_UDP443_FLOW = b_str ''xtls-rprx-vision-udp443''"
definition ADDR_IPV4 :: u8 where "ADDR_IPV4 = 1"
definition ADDR_DOMAIN :: u8 where "ADDR_DOMAIN = 2"
definition ADDR_IPV6 :: u8 where "ADDR_IPV6 = 3"

definition is_vision_flow :: "bytes option \<Rightarrow> bool" where
  "is_vision_flow flow \<longleftrightarrow> flow \<in> {Some VISION_FLOW, Some VISION_UDP443_FLOW}"

definition encode_addons :: "(bytes \<Rightarrow> bytes) \<Rightarrow> vless_request \<Rightarrow> vless_error + bytes" where
  "encode_addons encode_to_vec req =
     (if \<not> is_vision_flow (v_flow req) then Inr [0]
      else let addons_bytes = encode_to_vec VISION_FLOW in
        rbind (ok_or (AddonsTooLong (length addons_bytes)) (try_u8 (length addons_bytes))) (\<lambda>addons_len.
        Inr (addons_len # addons_bytes)))"

definition encode_addr :: "target_addr \<Rightarrow> vless_error + bytes" where
  "encode_addr a =
     (case a of
        TIp (V4 ip) \<Rightarrow> Inr (ADDR_IPV4 # v4_octets ip)
      | TIp (V6 ip) \<Rightarrow> Inr (ADDR_IPV6 # v6_octets ip)
      | TDomain d \<Rightarrow>
          rbind (ok_or (DomainTooLong (length d)) (try_u8 (length d))) (\<lambda>len.
          Inr (ADDR_DOMAIN # len # d)))"

definition encode_request_header :: "(bytes \<Rightarrow> bytes) \<Rightarrow> vless_request \<Rightarrow> vless_error + bytes" where
  "encode_request_header encode_to_vec req =
     rbind (encode_addons encode_to_vec req) (\<lambda>addons.
     let encoded = [VLESS_VERSION] @ v_user_id req @ addons @ [command_code (v_command req)] in
     if v_command req \<in> {CmdTcp, CmdUdp}
     then rbind (encode_addr (t_addr (v_target req))) (\<lambda>ab.
       Inr (encoded @ be16 (t_port (v_target req)) @ ab))
     else Inr encoded)"

section \<open>UDP packets\<close>

definition XUDP_CMD_NEW :: u8 where "XUDP_CMD_NEW = 1"
definition XUDP_CMD_KEEP :: u8 where "XUDP_CMD_KEEP = 2"
definition XUDP_CMD_DISCARD :: u8 where "XUDP_CMD_DISCARD = 4"
definition XUDP_OPT_DATA :: u8 where "XUDP_OPT_DATA = 1"
definition XUDP_NETWORK_UDP :: u8 where "XUDP_NETWORK_UDP = 2"

record xudp_packet =
  xp_source :: "target option"
  xp_payload :: bytes

definition eof_error :: io_error where
  "eof_error = Io UnexpectedEof ''early eof''"

definition encode_udp_packet :: "bytes \<Rightarrow> vless_error + bytes" where
  "encode_udp_packet payload =
     rbind (ok_or (PacketTooLong (length payload)) (try_u16 (length payload))) (\<lambda>len.
     Inr (be16 len @ payload))"

definition read_udp_packet :: "bytes \<Rightarrow> io_error + (bytes \<times> bytes)" where
  "read_udp_packet reader =
     rbind (take_u16 eof_error reader) (\<lambda>(len, r). take_exact eof_error (unat len) r)"

definition encode_addr_port :: "target \<Rightarrow> vless_error + bytes" where
  "encode_addr_port t =
     (case t_addr t of
        TIp (V4 ip) \<Rightarrow> Inr (be16 (t_port t) @ [ADDR_IPV4] @ v4_octets ip)
      | TIp (V6 ip) \<Rightarrow> Inr (be16 (t_port t) @ [ADDR_IPV6] @ v6_octets ip)
      | TDomain d \<Rightarrow>
          rbind (ok_or (DomainTooLong (length d)) (try_u8 (length d))) (\<lambda>len.
          Inr (be16 (t_port t) @ [ADDR_DOMAIN, len] @ d)))"

definition encode_xudp_frame :: "bytes \<Rightarrow> bytes \<Rightarrow> vless_error + bytes" where
  "encode_xudp_frame metadata payload =
     rbind (ok_or (PacketTooLong (length metadata)) (try_u16 (length metadata))) (\<lambda>metadata_len.
     rbind (ok_or (PacketTooLong (length payload)) (try_u16 (length payload))) (\<lambda>payload_len.
     Inr (be16 metadata_len @ metadata @ be16 payload_len @ payload)))"

definition encode_xudp_new_packet :: "target \<Rightarrow> bytes \<Rightarrow> bytes \<Rightarrow> vless_error + bytes" where
  "encode_xudp_new_packet t payload gid =
     rbind (encode_addr_port t) (\<lambda>ap.
     encode_xudp_frame ([0, 0] @ [XUDP_CMD_NEW] @ [XUDP_OPT_DATA] @ [XUDP_NETWORK_UDP] @ ap @ gid) payload)"

definition encode_xudp_keep_packet :: "target option \<Rightarrow> bytes \<Rightarrow> vless_error + bytes" where
  "encode_xudp_keep_packet source payload =
     rbind (case source of
              None \<Rightarrow> Inr []
            | Some t \<Rightarrow> rbind (encode_addr_port t) (\<lambda>ap. Inr ([XUDP_NETWORK_UDP] @ ap))) (\<lambda>src.
     encode_xudp_frame ([0, 0] @ [XUDP_CMD_KEEP] @ [XUDP_OPT_DATA] @ src) payload)"

definition decode_addr_port :: "bytes \<Rightarrow> io_error + target" where
  "decode_addr_port input =
     (if length input < 3 then Inl (Io InvalidData ''xudp address metadata is too short'')
      else let port = from_be16 [input ! 0, input ! 1] in
        rbind
          (if input ! 2 = ADDR_IPV4
           then if length input < 7 then Inl (Io InvalidData ''xudp ipv4 metadata is too short'')
             else Inr (TIp (V4 (v4_from_octets [input ! 3, input ! 4, input ! 5, input ! 6])))
           else if input ! 2 = ADDR_IPV6
           then if length input < 19 then Inl (Io InvalidData ''xudp ipv6 metadata is too short'')
             else Inr (TIp (V6 (v6_from_octets (take 16 (drop 3 input)))))
           else if input ! 2 = ADDR_DOMAIN
           then if length input < 4 then Inl (Io InvalidData ''xudp domain metadata is too short'')
             else let len = unat (input ! 3) in
               if length input < 4 + len then Inl (Io InvalidData ''xudp domain metadata is too short'')
               else rbind (ok_or (Io InvalidData ''invalid utf-8 sequence'')
                      (from_utf8 (take len (drop 4 input)))) (\<lambda>d. Inr (TDomain d))
           else Inl (Io InvalidData (''unsupported xudp address type '' @ show_nat (unat (input ! 2)))))
          (\<lambda>a. Inr (target_new a port Udp)))"

text \<open>
  One turn of the read loop: a packet, or \<open>None\<close> when the loop goes on, with the unread input.
\<close>

definition read_xudp_step :: "bytes \<Rightarrow> io_error + (xudp_packet option \<times> bytes)" where
  "read_xudp_step reader =
     rbind (take_u16 eof_error reader) (\<lambda>(metadata_len, r).
     if metadata_len < 4 then Inl (Io InvalidData ''xudp metadata is shorter than mux header'')
     else
       rbind (take_exact eof_error (unat metadata_len) r) (\<lambda>(metadata, r).
       let command = metadata ! 2; discard = (command = XUDP_CMD_DISCARD) in
       if command \<notin> {XUDP_CMD_NEW, XUDP_CMD_KEEP, XUDP_CMD_DISCARD}
       then Inl (Io InvalidData (''unsupported xudp command '' @ show_nat (unat command)))
       else
         rbind
           (if length metadata > 4 \<and> metadata ! 4 = XUDP_NETWORK_UDP
            then rbind (decode_addr_port (drop 5 metadata)) (\<lambda>t. Inr (Some t))
            else Inr None) (\<lambda>source.
         if metadata ! 3 \<noteq> XUDP_OPT_DATA then Inr (None, r)
         else
           rbind (read_udp_packet r) (\<lambda>(payload, r).
           if payload = [] \<or> discard then Inr (None, r)
           else Inr (Some \<lparr>xp_source = source, xp_payload = payload\<rparr>, r)))))"

section \<open>Reading packets\<close>

lemma read_udp_packet_length: "read_udp_packet i = Inr (p, r) \<Longrightarrow> length r < length i"
  by (auto simp: read_udp_packet_def rbind_eq_Inr take_exact_Inr dest!: take_u16_length)

lemma read_xudp_step_length: "read_xudp_step i = Inr (p, r) \<Longrightarrow> length r < length i"
  unfolding read_xudp_step_def
  by (auto simp: rbind_eq_Inr Let_def take_exact_Inr dest!: take_u16_length read_udp_packet_length split: if_splits)

function read_xudp_packet :: "bytes \<Rightarrow> io_error + (xudp_packet \<times> bytes)" where
  "read_xudp_packet reader =
     (case read_xudp_step reader of
        Inl e \<Rightarrow> Inl e
      | Inr (Some p, r) \<Rightarrow> Inr (p, r)
      | Inr (None, r) \<Rightarrow> read_xudp_packet r)"
  by pat_completeness auto
termination
  by (relation "measure length") (auto dest: read_xudp_step_length)

declare read_xudp_packet.simps [simp del]

lemma v4_list: "length bs = 4 \<Longrightarrow> [bs ! 0, bs ! 1, bs ! 2, bs ! 3] = bs"
  by (auto simp: eval_nat_numeral length_Suc_conv)

lemma encode_addr_port_cases:
  assumes "encode_addr_port t = Inr ap"
  obtains (v4) ip where "t_addr t = TIp (V4 ip)" "ap = be16 (t_port t) @ 1 # v4_octets ip"
  | (v6) ip where "t_addr t = TIp (V6 ip)" "ap = be16 (t_port t) @ 3 # v6_octets ip"
  | (dom) d where "t_addr t = TDomain d" "length d < 256" "ap = be16 (t_port t) @ 2 # of_nat (length d) # d"
  using assms
  by (auto simp: encode_addr_port_def ADDR_IPV4_def ADDR_IPV6_def ADDR_DOMAIN_def rbind_eq_Inr try_u8_Some
      split: target_addr.splits ip_addr.splits)

lemma decode_addr_port_encode:
  assumes "encode_addr_port t = Inr ap" "addr_wf (t_addr t)"
  shows "decode_addr_port (ap @ rest) = Inr (target_new (t_addr t) (t_port t) Udp)"
proof -
  obtain a b where ab: "be16 (t_port t) = [a, b]" "from_be16 [a, b] = t_port t" by (rule be16_split)
  show ?thesis
    using assms(1)
  proof (cases rule: encode_addr_port_cases)
    case (v4 ip)
    have "[v4_octets ip ! 0, v4_octets ip ! Suc 0, v4_octets ip ! 2, v4_octets ip ! 3] = v4_octets ip"
      using v4_list [OF length_v4_octets, of ip] by simp
    then show ?thesis
      by (simp add: v4 ab decode_addr_port_def ADDR_IPV4_def Let_def nth_append)
  next
    case (v6 ip)
    then show ?thesis
      by (simp add: ab decode_addr_port_def ADDR_IPV4_def ADDR_IPV6_def Let_def)
  next
    case (dom d)
    then show ?thesis
      using assms(2)
      by (simp add: ab decode_addr_port_def ADDR_IPV4_def ADDR_IPV6_def ADDR_DOMAIN_def Let_def)
  qed
qed

text \<open>An XUDP target in a mux frame is the network byte and the address with its port.\<close>

lemma encode_target_addr_port:
  assumes "encode_target st t = Inr tb"
  obtains ap where "encode_addr_port t = Inr ap" "tb = (if t_network t = Tcp then 1 else 2) # ap"
  using assms
proof (cases rule: encode_target_cases)
  case (v4 ip)
  then show thesis using that by (simp add: encode_addr_port_def ADDR_IPV4_def)
next
  case (v6 ip)
  then show thesis using that by (simp add: encode_addr_port_def ADDR_IPV6_def)
next
  case (dom d)
  then show thesis using that by (simp add: encode_addr_port_def ADDR_DOMAIN_def try_u8_def)
qed

text \<open>What a mux frame means to the XUDP reader of VLESS.\<close>

definition xudp_meaning :: "frame \<Rightarrow> xudp_packet option" where
  "xudp_meaning f =
     (case f_payload f of
        None \<Rightarrow> None
      | Some p \<Rightarrow>
          if p = [] \<or> f_status f = KeepAlive then None
          else Some \<lparr>xp_source = (case f_target f of
                                    Some t \<Rightarrow> if t_network t = Udp then Some t else None
                                  | None \<Rightarrow> None), xp_payload = p\<rparr>)"

lemma streams_read_udp_packet:
  assumes "length p \<le> MAX_PAYLOAD"
  shows "streams eof_error read_udp_packet (be16 (of_nat (length p)) @ p) p"
  unfolding read_udp_packet_def
  by (rule streams_bind [OF streams_u16], rule streams_take) (use assms in simp)

lemma xudp_source:
  assumes tb: "target_bytes f tb" and wf: "frame_wf f"
    and gid: "global_id f \<noteq> None \<longrightarrow> (\<exists>t. f_target f = Some t)"
  shows "(if length (frame_meta f tb) > 4 \<and> frame_meta f tb ! 4 = XUDP_NETWORK_UDP
      then rbind (decode_addr_port (drop 5 (frame_meta f tb))) (\<lambda>t. Inr (Some t)) else Inr None) =
    Inr (case f_target f of Some t \<Rightarrow> if t_network t = Udp then Some t else None | None \<Rightarrow> None)"
proof (cases "f_target f")
  case None
  then have "tb = []" "gid_bytes f = []"
    using tb gid by (auto simp: target_bytes_def gid_bytes_def split: option.splits)
  then show ?thesis using None by (simp add: frame_meta_def)
next
  case (Some t)
  then have "encode_target (f_status f) t = Inr tb" using tb by (simp add: target_bytes_def)
  then obtain ap where ap: "encode_addr_port t = Inr ap" "tb = (if t_network t = Tcp then 1 else 2) # ap"
    by (rule encode_target_addr_port)
  have "drop 5 (frame_meta f tb) = ap @ gid_bytes f"
    "frame_meta f tb ! 4 = (if t_network t = Tcp then 1 else 2)" "length (frame_meta f tb) > 4"
    by (simp_all add: frame_meta_def ap(2) nth_append)
  moreover have "target_new (t_addr t) (t_port t) Udp = t" if "t_network t = Udp"
    using target_new_eq [of t] that by simp
  ultimately show ?thesis
    using decode_addr_port_encode [OF ap(1), of "gid_bytes f"] wf Some
    by (cases "t_network t") (simp_all add: frame_wf_def XUDP_NETWORK_UDP_def)
qed

lemma streams_read_xudp_step:
  assumes ok: "mux_frame_ok f" and st: "f_status f \<noteq> End"
  shows "streams eof_error read_xudp_step (mux_wire f) (xudp_meaning f)"
proof -
  have wf: "frame_wf f" and e: "mux_encode f = Inr (mux_wire f)"
    using ok by (auto simp: mux_frame_ok_def mux_wire_def)
  obtain tb where tb: "target_bytes f tb"
    and w: "mux_wire f = be16 (of_nat (length (frame_meta f tb))) @ frame_meta f tb @ payload_bytes f"
    and p: "\<And>p. f_payload f = Some p \<Longrightarrow> length p \<le> MAX_PAYLOAD"
    and c: "f_error f \<Longrightarrow> f_status f = End" "f_status f = New \<Longrightarrow> f_target f \<noteq> None"
      "global_id f \<noteq> None \<Longrightarrow> f_status f = New \<and> (\<exists>t. f_target f = Some t \<and> t_network t = Udp)"
    using mux_encode_shape [OF e] by metis
  let ?m = "frame_meta f tb"
  let ?src = "case f_target f of Some t \<Rightarrow> if t_network t = Udp then Some t else None | None \<Rightarrow> None"
  have l: "4 \<le> length ?m" "length ?m \<le> 272" using frame_meta_length [OF tb wf] by simp_all
  have len: "unat (of_nat (length ?m) :: u16) = length ?m" using l by simp
  have lt: "\<not> (of_nat (length ?m) :: u16) < 4" using l len by (simp add: word_less_nat_alt)
  have m2: "?m ! 2 = status_code (f_status f)" "?m ! 3 = opt_byte f" by (simp_all add: frame_meta_def)
  have cmd: "\<not> status_code (f_status f) \<notin> {XUDP_CMD_NEW, XUDP_CMD_KEEP, XUDP_CMD_DISCARD}"
    using st by (cases "f_status f") (simp_all add: XUDP_CMD_NEW_def XUDP_CMD_KEEP_def XUDP_CMD_DISCARD_def)
  have disc: "status_code (f_status f) = XUDP_CMD_DISCARD \<longleftrightarrow> f_status f = KeepAlive"
    by (cases "f_status f") (simp_all add: XUDP_CMD_DISCARD_def)
  have opt: "opt_byte f = (if f_payload f = None then 0 else 1)"
    using c(1) st by (auto simp: opt_byte_def)
  have rest: "streams eof_error (\<lambda>r. if opt_byte f \<noteq> XUDP_OPT_DATA then Inr (None, r)
      else rbind (read_udp_packet r) (\<lambda>(payload, r).
        if payload = [] \<or> f_status f = KeepAlive then Inr (None, r)
        else Inr (Some \<lparr>xp_source = ?src, xp_payload = payload\<rparr>, r))) (payload_bytes f) (xudp_meaning f)"
  proof (cases "f_payload f")
    case None
    then show ?thesis
      by (simp add: opt XUDP_OPT_DATA_def payload_bytes_def xudp_meaning_def streams_return)
  next
    case (Some pl)
    have "streams eof_error (\<lambda>r. if pl = [] \<or> f_status f = KeepAlive then Inr (None, r)
        else Inr (Some \<lparr>xp_source = ?src, xp_payload = pl\<rparr>, r)) [] (xudp_meaning f)"
      using Some by (auto simp: xudp_meaning_def streams_return)
    then have "streams eof_error (\<lambda>r. rbind (read_udp_packet r) (\<lambda>(payload, r).
        if payload = [] \<or> f_status f = KeepAlive then Inr (None, r)
        else Inr (Some \<lparr>xp_source = ?src, xp_payload = payload\<rparr>, r)))
        ((be16 (of_nat (length pl)) @ pl) @ []) (xudp_meaning f)"
      by (rule streams_bind [OF streams_read_udp_packet [OF p [OF Some]]])
    then show ?thesis using Some by (simp add: opt XUDP_OPT_DATA_def payload_bytes_def)
  qed
  have g: "global_id f \<noteq> None \<longrightarrow> (\<exists>t. f_target f = Some t)" using c(3) by blast
  show ?thesis
    unfolding w read_xudp_step_def [abs_def] Let_def
    by (rule streams_bind [OF streams_u16], rule streams_if [OF lt],
        rule streams_bind [OF streams_take [OF len [symmetric]]])
      (simp only: m2 cmd disc if_False xudp_source [OF tb wf g] rbind_Inr rest)
qed

lemma read_xudp_skip:
  "list_all (\<lambda>f. mux_frame_ok f \<and> f_status f \<noteq> End \<and> xudp_meaning f = None) fs \<Longrightarrow>
     read_xudp_packet (concat (map mux_wire fs) @ rest) = read_xudp_packet rest"
proof (induction fs)
  case (Cons f fs)
  then have "read_xudp_step (mux_wire f @ concat (map mux_wire fs) @ rest) =
      Inr (None, concat (map mux_wire fs) @ rest)"
    using streamsD [OF streams_read_xudp_step [of f]] by simp
  then show ?case using Cons by (subst read_xudp_packet.simps) simp
qed simp

section \<open>Headers\<close>

lemma encode_addr_inj:
  assumes "encode_addr a = Inr x" "encode_addr b = Inr y" "x = y"
  shows "a = b"
proof -
  have v4: "v4_octets i = v4_octets j \<longleftrightarrow> i = j" for i j by (metis v4_from_octets_octets)
  have v6: "v6_octets i = v6_octets j \<longleftrightarrow> i = j" for i j by (metis v6_from_octets_octets)
  show ?thesis
    using assms
    by (auto simp: encode_addr_def ADDR_IPV4_def ADDR_IPV6_def ADDR_DOMAIN_def rbind_eq_Inr v4 v6
        split: target_addr.splits ip_addr.splits)
qed

lemma command_code_inj [simp]: "command_code c = command_code d \<longleftrightarrow> c = d"
  by (cases c; cases d) simp_all

lemma encode_addons_shape:
  assumes "encode_addons ev r = Inr ad"
  shows "ad = (if is_vision_flow (v_flow r) then of_nat (length (ev VISION_FLOW)) # ev VISION_FLOW else [0])"
    and "is_vision_flow (v_flow r) \<Longrightarrow> length (ev VISION_FLOW) < 256"
  using assms by (auto simp: encode_addons_def Let_def rbind_eq_Inr try_u8_Some split: if_splits)

lemma addons_append_inj:
  assumes "encode_addons ev r = Inr x" "encode_addons ev s = Inr y" "ev VISION_FLOW \<noteq> []" "x @ u = y @ v"
  shows "is_vision_flow (v_flow r) = is_vision_flow (v_flow s) \<and> u = v"
proof -
  have "(of_nat (length (ev VISION_FLOW)) :: u8) \<noteq> 0" if "length (ev VISION_FLOW) < 256"
    using that assms(3) unat_of_nat_u8 [OF that] by (metis length_0_conv unat_0)
  then show ?thesis
    using encode_addons_shape [OF assms(1)] encode_addons_shape [OF assms(2)] assms(4)
    by (auto split: if_splits)
qed

section \<open>Properties\<close>



text \<open>
  C28. The packet encoders of VLESS write mux frames: a new XUDP packet is the mux encoding of a
  session-opening frame with the target and the global id, a keep packet the encoding of a
  keeping frame with its source, whenever the mux encoder accepts that frame.
\<close>

theorem xudp_packets_are_mux_frames:
  assumes "mux_frame_ok \<lparr>session_id = 0, f_status = New, f_error = False, f_target = Some t,
      global_id = Some gid, f_payload = Some p\<rparr>"
    and "mux_frame_ok \<lparr>session_id = 0, f_status = Keep, f_error = False, f_target = src,
      global_id = None, f_payload = Some q\<rparr>"
  shows "encode_xudp_new_packet t p gid =
      Inr (mux_wire \<lparr>session_id = 0, f_status = New, f_error = False, f_target = Some t,
        global_id = Some gid, f_payload = Some p\<rparr>) \<and>
    encode_xudp_keep_packet src q =
      Inr (mux_wire \<lparr>session_id = 0, f_status = Keep, f_error = False, f_target = src,
        global_id = None, f_payload = Some q\<rparr>)"
proof
  let ?n = "\<lparr>session_id = 0, f_status = New, f_error = False, f_target = Some t, global_id = Some gid, f_payload = Some p\<rparr>"
  obtain tb where tb: "target_bytes ?n tb" "frame_wf ?n" "length p \<le> MAX_PAYLOAD" "t_network t = Udp"
    and w: "mux_wire ?n = be16 (of_nat (length (frame_meta ?n tb))) @ frame_meta ?n tb @ payload_bytes ?n"
    using mux_encode_shape [OF mux_frame_ok_encode [OF assms(1)]] assms(1) by (auto simp: mux_frame_ok_def)
  have "encode_target New t = Inr tb" using tb(1) by (simp add: target_bytes_def)
  then obtain ap where ap: "encode_addr_port t = Inr ap" "tb = 2 # ap"
    by (rule encode_target_addr_port) (use tb(4) in simp)
  have "be16 0 = [0, 0]" by (simp add: be16_def be_bytes_def upt_conv_Cons)
  then show "encode_xudp_new_packet t p gid = Inr (mux_wire ?n)"
    using frame_meta_length [OF tb(1,2)] tb(3)
    by (simp add: encode_xudp_new_packet_def encode_xudp_frame_def ap w frame_meta_def gid_bytes_def payload_bytes_def
        opt_byte_def XUDP_CMD_NEW_def XUDP_OPT_DATA_def XUDP_NETWORK_UDP_def try_u16_def MAX_PAYLOAD_def)
next
  let ?k = "\<lparr>session_id = 0, f_status = Keep, f_error = False, f_target = src, global_id = None, f_payload = Some q\<rparr>"
  obtain tb where tb: "target_bytes ?k tb" "frame_wf ?k" "length q \<le> MAX_PAYLOAD"
    and w: "mux_wire ?k = be16 (of_nat (length (frame_meta ?k tb))) @ frame_meta ?k tb @ payload_bytes ?k"
    using mux_encode_shape [OF mux_frame_ok_encode [OF assms(2)]] assms(2) by (auto simp: mux_frame_ok_def)
  have src: "(case src of None \<Rightarrow> Inr [] | Some t \<Rightarrow> rbind (encode_addr_port t) (\<lambda>ap. Inr ([XUDP_NETWORK_UDP] @ ap))) = Inr tb"
  proof (cases src)
    case None
    then show ?thesis using tb(1) by (simp add: target_bytes_def)
  next
    case (Some t)
    then have e: "encode_target Keep t = Inr tb" using tb(1) by (simp add: target_bytes_def)
    show ?thesis
      by (rule encode_target_addr_port [OF e])
        (use encode_target_shape(2) [OF e] Some in \<open>simp add: XUDP_NETWORK_UDP_def\<close>)
  qed
  have "be16 0 = [0, 0]" by (simp add: be16_def be_bytes_def upt_conv_Cons)
  then show "encode_xudp_keep_packet src q = Inr (mux_wire ?k)"
    using frame_meta_length [OF tb(1,2)] tb(3)
    unfolding encode_xudp_keep_packet_def src
    by (simp add: encode_xudp_frame_def w frame_meta_def gid_bytes_def payload_bytes_def
        opt_byte_def XUDP_CMD_KEEP_def XUDP_OPT_DATA_def try_u16_def MAX_PAYLOAD_def)
qed

lemma new_frame_ok:
  "mux_frame_ok \<lparr>session_id = 0, f_status = New, f_error = False,
     f_target = Some \<lparr>t_addr = TIp (V4 1), t_port = 53, t_network = Udp\<rparr>,
     global_id = Some (replicate 8 7), f_payload = Some [1]\<rparr>"
  by (simp add: mux_frame_ok_def frame_wf_def mux_encode_def encode_target_def MAX_PAYLOAD_def Let_def)

lemma demo_keep_ok: "mux_frame_ok demo_keep"
  using demo_keep_wire by (simp add: mux_frame_ok_def)

theorem xudp_packets_are_mux_frames_witness:
  "encode_xudp_keep_packet (Some \<lparr>t_addr = TDomain [97], t_port = 53, t_network = Udp\<rparr>) [1, 2] =
     Inr (mux_wire demo_keep)"
  using xudp_packets_are_mux_frames [OF new_frame_ok demo_keep_ok [unfolded demo_keep_def]]
  by (simp add: demo_keep_def)

text \<open>
  C20. The XUDP reader of VLESS understands a mux stream: it skips the frames that carry no datagram,
  returns the packet of the first one that does, and stops exactly behind it; cut inside that
  frame, the stream gives the end-of-file error.
\<close>

theorem xudp_reads_mux_stream:
  assumes "list_all (\<lambda>f. mux_frame_ok f \<and> f_status f \<noteq> End \<and> xudp_meaning f = None) fs"
    and "mux_frame_ok f" "f_status f \<noteq> End" "xudp_meaning f = Some p"
  shows "read_xudp_packet (concat (map mux_wire fs) @ mux_wire f @ rest) = Inr (p, rest) \<and>
    (strict_prefix q (mux_wire f) \<longrightarrow> read_xudp_packet (concat (map mux_wire fs) @ q) = Inl eof_error)"
proof -
  note s = streams_read_xudp_step [OF assms(2,3)]
  have "read_xudp_packet (mux_wire f @ rest) = Inr (p, rest)"
    using streamsD [OF s, of rest] assms(4) by (subst read_xudp_packet.simps) simp
  moreover have "read_xudp_packet q = Inl eof_error" if "strict_prefix q (mux_wire f)"
    using streams_eof [OF s that] by (subst read_xudp_packet.simps) simp
  ultimately show ?thesis by (simp add: read_xudp_skip [OF assms(1)])
qed

definition demo_alive :: frame where
  "demo_alive = \<lparr>session_id = 0, f_status = KeepAlive, f_error = False, f_target = None, global_id = None,
     f_payload = None\<rparr>"

theorem xudp_reads_mux_stream_witness:
  "read_xudp_packet (concat (map mux_wire [demo_alive]) @ mux_wire demo_keep @ [5]) =
     Inr (\<lparr>xp_source = Some \<lparr>t_addr = TDomain [97], t_port = 53, t_network = Udp\<rparr>, xp_payload = [1, 2]\<rparr>, [5])"
proof -
  have "mux_frame_ok demo_alive"
    by (simp add: demo_alive_def mux_frame_ok_def frame_wf_def mux_encode_def Let_def)
  then have skip: "list_all (\<lambda>f. mux_frame_ok f \<and> f_status f \<noteq> End \<and> xudp_meaning f = None) [demo_alive]"
    by (simp add: demo_alive_def xudp_meaning_def)
  have "f_status demo_keep \<noteq> End"
    and "xudp_meaning demo_keep =
      Some \<lparr>xp_source = Some \<lparr>t_addr = TDomain [97], t_port = 53, t_network = Udp\<rparr>, xp_payload = [1, 2]\<rparr>"
    by (simp_all add: demo_keep_def xudp_meaning_def)
  from xudp_reads_mux_stream [OF skip demo_keep_ok this, of "[5]"] show ?thesis by simp
qed

end
