(* ===== verification/Xr_Poll.thy ===== *)
theory Xr_Poll
  imports Xr_Codec
begin

text \<open>
  Polled byte streams. A poll is not ready, or it is ready with a result; a stream is its own
  state with a poll operation. \<open>poll_source\<close> is what a reader may rely on: a poll that is ready
  takes the next bytes, a poll that is not loses none, and only so many polls are not ready.
  \<open>poll_sink\<close> is the same for a writer. \<open>poll_to_end\<close> and \<open>poll_write_all\<close> are the executor's loops around
  them; their fuel is a number of polls.
\<close>

section \<open>Polls\<close>

datatype 'a poll = Pending | Ready 'a

section \<open>Sources\<close>

text \<open>\<open>read_to_end\<close>: polls with room for \<open>n\<close> bytes until the stream ends.\<close>

fun poll_to_end ::
    "(nat \<Rightarrow> 's \<Rightarrow> (io_error + bytes) poll \<times> 's) \<Rightarrow> nat \<Rightarrow> nat \<Rightarrow> 's \<Rightarrow> (io_error + bytes) option" where
  "poll_to_end rd n 0 s = None"
| "poll_to_end rd n (Suc k) s =
     (case rd n s of
        (Pending, s') \<Rightarrow> poll_to_end rd n k s'
      | (Ready (Inl e), s') \<Rightarrow> Some (Inl e)
      | (Ready (Inr c), s') \<Rightarrow>
          if c = [] then Some (Inr [])
          else map_option (map_sum id ((@) c)) (poll_to_end rd n k s'))"

text \<open>What one poll may do: \<open>rest\<close> are the bytes still to come, \<open>work\<close> bounds the polls until the end.\<close>

fun poll_outcome ::
    "('s \<Rightarrow> bool) \<Rightarrow> ('s \<Rightarrow> bytes) \<Rightarrow> ('s \<Rightarrow> nat) \<Rightarrow> nat \<Rightarrow> 's \<Rightarrow> (io_error + bytes) poll \<times> 's \<Rightarrow> bool" where
  "poll_outcome good rest work n s (Pending, s') \<longleftrightarrow> good s' \<and> rest s' = rest s \<and> work s' < work s"
| "poll_outcome good rest work n s (Ready (Inl e), s') \<longleftrightarrow> False"
| "poll_outcome good rest work n s (Ready (Inr c), s') \<longleftrightarrow>
     good s' \<and> rest s = c @ rest s' \<and> length c \<le> n \<and> (if c = [] then rest s = [] else work s' < work s)"

lemma poll_outcome_trans:
  "poll_outcome good rest work n t r \<Longrightarrow> rest t = rest s \<Longrightarrow> work t \<le> work s \<Longrightarrow>
   poll_outcome good rest work n s r"
  by (cases "(good, rest, work, n, t, r)" rule: poll_outcome.cases) (auto split: if_splits)

locale poll_source =
  fixes rd :: "nat \<Rightarrow> 's \<Rightarrow> (io_error + bytes) poll \<times> 's"
    and good :: "'s \<Rightarrow> bool"
    and rest :: "'s \<Rightarrow> bytes"
    and work :: "'s \<Rightarrow> nat"
  assumes rd_outcome: "good s \<Longrightarrow> 0 < n \<Longrightarrow> poll_outcome good rest work n s (rd n s)"
begin

lemma poll_cases:
  assumes "good s" "0 < n"
  obtains (pending) s' where "rd n s = (Pending, s')" "good s'" "rest s' = rest s" "work s' < work s"
  | (eof) s' where "rd n s = (Ready (Inr []), s')" "good s'" "rest s = []" "rest s' = []"
  | (bytes) c s' where "rd n s = (Ready (Inr c), s')" "c \<noteq> []" "good s'" "rest s = c @ rest s'"
      "length c \<le> n" "work s' < work s"
  using rd_outcome [OF assms]
  by (cases "(good, rest, work, n, s, rd n s)" rule: poll_outcome.cases)
    (auto intro: that split: if_splits)

lemma poll_to_end_rest:
  assumes "good s" "0 < n" "work s < k"
  shows "poll_to_end rd n k s = Some (Inr (rest s))"
  using assms(1,3)
proof (induction k arbitrary: s)
  case (Suc k)
  from Suc.prems(1) assms(2) show ?case
  proof (cases rule: poll_cases)
    case (pending s')
    then show ?thesis using Suc by auto
  next
    case (bytes c s')
    then have "poll_to_end rd n k s' = Some (Inr (rest s'))" using Suc by auto
    then show ?thesis using bytes by simp
  qed simp
qed simp

end

section \<open>A stream of pieces\<close>

text \<open>
  What the polls of a socket will give: nothing yet, an error, or a piece of data, of which a poll
  takes as much as it has room for. No bytes is the end.
\<close>

type_synonym polls = "(io_error + bytes) poll list"

fun poll_chunk :: "nat \<Rightarrow> polls \<Rightarrow> (io_error + bytes) poll \<times> polls" where
  "poll_chunk limit [] = (Ready (Inr []), [])"
| "poll_chunk limit (Pending # ps) = (Pending, ps)"
| "poll_chunk limit (Ready (Inl e) # ps) = (Ready (Inl e), ps)"
| "poll_chunk limit (Ready (Inr c) # ps) =
     (if length c \<le> limit then (Ready (Inr c), ps)
      else (Ready (Inr (take limit c)), Ready (Inr (drop limit c)) # ps))"

fun poll_ok :: "(io_error + bytes) poll \<Rightarrow> bool" where
  "poll_ok Pending = True"
| "poll_ok (Ready (Inl e)) = False"
| "poll_ok (Ready (Inr c)) = (c \<noteq> [])"

fun poll_bytes :: "(io_error + bytes) poll \<Rightarrow> bytes" where
  "poll_bytes Pending = []"
| "poll_bytes (Ready (Inl e)) = []"
| "poll_bytes (Ready (Inr c)) = c"

abbreviation polls_ok :: "polls \<Rightarrow> bool" where
  "polls_ok ps \<equiv> list_all poll_ok ps"

definition polls_bytes :: "polls \<Rightarrow> bytes" where
  "polls_bytes ps = concat (map poll_bytes ps)"

definition polls_work :: "polls \<Rightarrow> nat" where
  "polls_work ps = length ps + length (polls_bytes ps)"

lemma polls_bytes_simps [simp]:
  "polls_bytes [] = []"
  "polls_bytes (p # ps) = poll_bytes p @ polls_bytes ps"
  by (simp_all add: polls_bytes_def)

lemma polls_bytes_append [simp]: "polls_bytes (ps @ qs) = polls_bytes ps @ polls_bytes qs"
  by (simp add: polls_bytes_def)

interpretation pq: poll_source poll_chunk polls_ok polls_bytes polls_work
proof
  fix s n assume "polls_ok s" "0 < (n :: nat)"
  then show "poll_outcome polls_ok polls_bytes polls_work n s (poll_chunk n s)"
    by (cases "(n, s)" rule: poll_chunk.cases) (auto simp: polls_work_def)
qed

end
