(* ===== verification/Xr_Vision.thy ===== *)
theory Xr_Vision
  imports Xr_Text Xr_Poll
begin

text \<open>
  The padding of the Vision flow, \<open>crates/xray-proxy/src/vless/vision.rs\<close>, and the reader that strips the
  VLESS response header, \<open>vless/response_stream.rs\<close>. The random number generator is a
  parameter \<open>gen_range\<close>, from the bound to a number below it. The streams are polymorphic in the
  state of the transport below them, whose operations are the record \<open>vision_io\<close>, as the Rust
  types are generic in \<open>S: VisionStreamIo\<close>.
\<close>

section \<open>Blocks\<close>

definition HEADER_LEN :: nat where "HEADER_LEN = 5"
definition USER_ID_LEN :: nat where "USER_ID_LEN = 16"
definition MAX_CONTENT_LEN :: nat where "MAX_CONTENT_LEN = 65535"

definition DEFAULT_VISION_SEED :: "u32 list" where
  "DEFAULT_VISION_SEED = [900, 500, 900, 256]"

datatype vision_command = VContinue | VEnd | VDirect

datatype vision_error =
    ShortBlock | UserMismatch | UnknownCommand u8 | LengthMismatch | PayloadTooLarge nat

fun vision_code :: "vision_command \<Rightarrow> u8" where
  "vision_code VContinue = 0"
| "vision_code VEnd = 1"
| "vision_code VDirect = 2"

definition vision_try_from :: "u8 \<Rightarrow> vision_error + vision_command" where
  "vision_try_from v =
     (if v = 0 then Inr VContinue else if v = 1 then Inr VEnd else if v = 2 then Inr VDirect
      else Inl (UnknownCommand v))"

record unpadded_block =
  u_command :: vision_command
  u_payload :: bytes

record vision_padding =
  vp_user_id :: bytes
  vp_seed :: "u32 list"
  vp_user_id_emitted :: bool

definition vision_padding_new :: "bytes \<Rightarrow> u32 list \<Rightarrow> vision_padding" where
  "vision_padding_new user_id seed =
     \<lparr>vp_user_id = user_id, vp_seed = seed, vp_user_id_emitted = False\<rparr>"

definition random_padding_len :: "(u32 \<Rightarrow> nat) \<Rightarrow> u32 \<Rightarrow> nat" where
  "random_padding_len gen_range upper_bound = (if upper_bound = 0 then 0 else gen_range upper_bound)"

definition padding_len :: "(u32 \<Rightarrow> nat) \<Rightarrow> vision_padding \<Rightarrow> nat \<Rightarrow> bool \<Rightarrow> u16 \<Rightarrow> nat" where
  "padding_len gen_range vp content_len long_padding extra =
     (if extra \<noteq> 0 then unat extra
      else if long_padding \<and> content_len < unat (vp_seed vp ! 0)
      then min ((unat (vp_seed vp ! 2) - content_len) + random_padding_len gen_range (vp_seed vp ! 1)) MAX_CONTENT_LEN
      else min (random_padding_len gen_range (vp_seed vp ! 3)) MAX_CONTENT_LEN)"

definition pad_into_with_long_padding ::
    "(u32 \<Rightarrow> nat) \<Rightarrow> bytes \<Rightarrow> vision_command \<Rightarrow> bool \<Rightarrow> u16 \<Rightarrow> bytes \<Rightarrow> vision_padding \<Rightarrow>
     (vision_error + bytes) \<times> vision_padding" where
  "pad_into_with_long_padding gen_range payload command long_padding extra out vp =
     (let content_len = length payload in
      if content_len > MAX_CONTENT_LEN then (Inl (PayloadTooLarge content_len), vp)
      else let n = padding_len gen_range vp content_len long_padding extra in
        (Inr (out @ (if vp_user_id_emitted vp then [] else vp_user_id vp) @
              [vision_code command] @ be16 (of_nat content_len) @ be16 (of_nat n) @ payload @ replicate n 0),
         vp\<lparr>vp_user_id_emitted := True\<rparr>))"

definition pad_into ::
    "(u32 \<Rightarrow> nat) \<Rightarrow> bytes \<Rightarrow> vision_command \<Rightarrow> u16 \<Rightarrow> bytes \<Rightarrow> vision_padding \<Rightarrow>
     (vision_error + bytes) \<times> vision_padding" where
  "pad_into gen_range payload command extra out vp =
     pad_into_with_long_padding gen_range payload command True extra out vp"

definition pad ::
    "(u32 \<Rightarrow> nat) \<Rightarrow> bytes \<Rightarrow> vision_command \<Rightarrow> u16 \<Rightarrow> vision_padding \<Rightarrow>
     (vision_error + bytes) \<times> vision_padding" where
  "pad gen_range payload command extra vp = pad_into gen_range payload command extra [] vp"

record vision_header =
  vh_command :: vision_command
  vh_content_len :: nat
  vh_total_len :: nat

definition parse_header :: "bytes \<Rightarrow> nat \<Rightarrow> vision_error + vision_header" where
  "parse_header padded offset =
     (if length padded < offset + HEADER_LEN then Inl ShortBlock
      else
        rbind (vision_try_from (padded ! offset)) (\<lambda>command.
        let content_len = unat (from_be16 [padded ! (offset + 1), padded ! (offset + 2)]);
            plen = unat (from_be16 [padded ! (offset + 3), padded ! (offset + 4)])
        in Inr \<lparr>vh_command = command, vh_content_len = content_len,
                vh_total_len = HEADER_LEN + content_len + plen\<rparr>))"

definition unpad_offset :: "bytes \<Rightarrow> bytes \<Rightarrow> vision_error + nat" where
  "unpad_offset padded expected_user_id =
     (if slice_get padded 0 USER_ID_LEN = Some expected_user_id then Inr USER_ID_LEN
      else (case parse_header padded 0 of
          Inr header \<Rightarrow>
            if vh_total_len header = length padded then Inr 0
            else if length padded \<ge> USER_ID_LEN + HEADER_LEN then Inl UserMismatch
            else Inl LengthMismatch
        | Inl (UnknownCommand c) \<Rightarrow> Inl (UnknownCommand c)
        | Inl err \<Rightarrow> if length padded \<ge> USER_ID_LEN + HEADER_LEN then Inl UserMismatch else Inl err))"

definition unpad_vision_block :: "bytes \<Rightarrow> bytes \<Rightarrow> vision_error + unpadded_block" where
  "unpad_vision_block padded expected_user_id =
     (if length padded < HEADER_LEN then Inl ShortBlock
      else
        rbind (unpad_offset padded expected_user_id) (\<lambda>offset.
        rbind (parse_header padded offset) (\<lambda>header.
        if vh_total_len header = length padded - offset
        then let payload_start = offset + HEADER_LEN in
          Inr \<lparr>u_command = vh_command header,
               u_payload = take (vh_content_len header) (drop payload_start padded)\<rparr>
        else Inl LengthMismatch)))"

section \<open>Transports below\<close>

text \<open>The trait \<open>VisionStreamIo\<close> with its supertraits \<open>AsyncRead\<close> and \<open>AsyncWrite\<close>, method by method.\<close>

record 's vision_io =
  io_read :: "nat \<Rightarrow> 's \<Rightarrow> (io_error + bytes) poll \<times> 's"
  io_write :: "bytes \<Rightarrow> 's \<Rightarrow> (io_error + nat) poll \<times> 's"
  io_flush :: "'s \<Rightarrow> (io_error + unit) poll \<times> 's"
  io_shutdown :: "'s \<Rightarrow> (io_error + unit) poll \<times> 's"
  io_release_record_alignment :: "'s \<Rightarrow> 's"
  io_read_direct :: "nat \<Rightarrow> 's \<Rightarrow> (io_error + bytes) poll \<times> 's"
  io_write_direct :: "bytes \<Rightarrow> 's \<Rightarrow> (io_error + nat) poll \<times> 's"
  io_flush_direct :: "'s \<Rightarrow> (io_error + unit) poll \<times> 's"
  io_shutdown_direct :: "'s \<Rightarrow> (io_error + unit) poll \<times> 's"

section \<open>The response header\<close>

definition RESPONSE_VLESS_VERSION :: u8 where "RESPONSE_VLESS_VERSION = 0"

datatype response_header_state = Version | AddonsLength | Addons | Done

record 's response_stream =
  rs_inner :: 's
  rs_state :: response_header_state
  rs_addons_remaining :: nat

definition response_new :: "'s \<Rightarrow> 's response_stream" where
  "response_new inner = \<lparr>rs_inner = inner, rs_state = Version, rs_addons_remaining = 0\<rparr>"

definition poll_read_one ::
    "'s vision_io \<Rightarrow> 's response_stream \<Rightarrow> (io_error + u8) poll \<times> 's response_stream" where
  "poll_read_one io s =
     (case io_read io 1 (rs_inner s) of
        (Pending, i) \<Rightarrow> (Pending, s\<lparr>rs_inner := i\<rparr>)
      | (Ready (Inl e), i) \<Rightarrow> (Ready (Inl e), s\<lparr>rs_inner := i\<rparr>)
      | (Ready (Inr c), i) \<Rightarrow>
          (if c = [] then Ready (Inl (Io UnexpectedEof ''vless response header ended early''))
           else Ready (Inr (c ! 0)), s\<lparr>rs_inner := i\<rparr>))"

definition poll_discard_addons ::
    "'s vision_io \<Rightarrow> 's response_stream \<Rightarrow> (io_error + unit) poll \<times> 's response_stream" where
  "poll_discard_addons io s =
     (case io_read io (min (rs_addons_remaining s) 64) (rs_inner s) of
        (Pending, i) \<Rightarrow> (Pending, s\<lparr>rs_inner := i\<rparr>)
      | (Ready (Inl e), i) \<Rightarrow> (Ready (Inl e), s\<lparr>rs_inner := i\<rparr>)
      | (Ready (Inr c), i) \<Rightarrow>
          if c = []
          then (Ready (Inl (Io UnexpectedEof ''vless response addons ended early'')), s\<lparr>rs_inner := i\<rparr>)
          else let left = rs_addons_remaining s - length c in
            (Ready (Inr ()),
             s\<lparr>rs_inner := i, rs_addons_remaining := left,
               rs_state := (if left = 0 then Done else rs_state s)\<rparr>))"

text \<open>
  The loop goes down through the header states, and in \<open>Addons\<close> each round takes at least one of
  the remaining bytes.
\<close>

fun header_rank :: "response_header_state \<Rightarrow> nat" where
  "header_rank Version = 3"
| "header_rank AddonsLength = 2"
| "header_rank Addons = 1"
| "header_rank Done = 0"

function poll_discard_response_header ::
    "'s vision_io \<Rightarrow> 's response_stream \<Rightarrow> (io_error + unit) poll \<times> 's response_stream" where
  "poll_discard_response_header io s =
     (case rs_state s of
        Version \<Rightarrow>
          (case poll_read_one io s of
             (Pending, s') \<Rightarrow> (Pending, s')
           | (Ready (Inl e), s') \<Rightarrow> (Ready (Inl e), s')
           | (Ready (Inr version), s') \<Rightarrow>
               if version \<noteq> RESPONSE_VLESS_VERSION
               then (Ready (Inl (Io InvalidData
                      (''unexpected vless response version '' @ show_nat (unat version)))), s')
               else poll_discard_response_header io (s'\<lparr>rs_state := AddonsLength\<rparr>))
      | AddonsLength \<Rightarrow>
          (case poll_read_one io s of
             (Pending, s') \<Rightarrow> (Pending, s')
           | (Ready (Inl e), s') \<Rightarrow> (Ready (Inl e), s')
           | (Ready (Inr n), s') \<Rightarrow>
               poll_discard_response_header io
                 (s'\<lparr>rs_addons_remaining := unat n, rs_state := (if n = 0 then Done else Addons)\<rparr>))
      | Addons \<Rightarrow>
          (case poll_discard_addons io s of
             (Pending, s') \<Rightarrow> (Pending, s')
           | (Ready (Inl e), s') \<Rightarrow> (Ready (Inl e), s')
           | (Ready (Inr _), s') \<Rightarrow> poll_discard_response_header io s')
      | Done \<Rightarrow> (Ready (Inr ()), s))"
  by pat_completeness auto

lemma poll_read_one_keeps:
  "poll_read_one io s = (r, s') \<Longrightarrow> rs_state s' = rs_state s \<and> rs_addons_remaining s' = rs_addons_remaining s"
  by (auto simp: poll_read_one_def split: prod.splits poll.splits sum.splits)

lemma poll_discard_addons_progress:
  assumes "poll_discard_addons io s = (Ready (Inr u), s')" "rs_state s = Addons"
  shows "rs_state s' = Done \<or> rs_state s' = Addons \<and> rs_addons_remaining s' < rs_addons_remaining s"
  using assms
  by (auto simp: poll_discard_addons_def Let_def split: prod.splits poll.splits sum.splits if_splits)

termination poll_discard_response_header
  by (relation "measures [\<lambda>(io, s). header_rank (rs_state s), \<lambda>(io, s). rs_addons_remaining s]")
    (auto dest: poll_read_one_keeps [OF sym] poll_discard_addons_progress [OF sym])

declare poll_discard_response_header.simps [simp del]

definition response_poll_read ::
    "'s vision_io \<Rightarrow> nat \<Rightarrow> 's response_stream \<Rightarrow> (io_error + bytes) poll \<times> 's response_stream" where
  "response_poll_read io n s =
     (case poll_discard_response_header io s of
        (Pending, s') \<Rightarrow> (Pending, s')
      | (Ready (Inl e), s') \<Rightarrow> (Ready (Inl e), s')
      | (Ready (Inr _), s') \<Rightarrow>
          (case io_read io n (rs_inner s') of (r, i) \<Rightarrow> (r, s'\<lparr>rs_inner := i\<rparr>)))"

definition response_poll_read_direct ::
    "'s vision_io \<Rightarrow> nat \<Rightarrow> 's response_stream \<Rightarrow> (io_error + bytes) poll \<times> 's response_stream" where
  "response_poll_read_direct io n s =
     (case poll_discard_response_header io s of
        (Pending, s') \<Rightarrow> (Pending, s')
      | (Ready (Inl e), s') \<Rightarrow> (Ready (Inl e), s')
      | (Ready (Inr _), s') \<Rightarrow>
          (case io_read_direct io n (rs_inner s') of (r, i) \<Rightarrow> (r, s'\<lparr>rs_inner := i\<rparr>)))"

text \<open>The write half only passes on to the transport.\<close>

definition on_inner :: "('s \<Rightarrow> 'r \<times> 's) \<Rightarrow> 's response_stream \<Rightarrow> 'r \<times> 's response_stream" where
  "on_inner f s = (case f (rs_inner s) of (r, i) \<Rightarrow> (r, s\<lparr>rs_inner := i\<rparr>))"

definition response_io :: "'s vision_io \<Rightarrow> 's response_stream vision_io" where
  "response_io io =
     \<lparr>io_read = response_poll_read io,
      io_write = (\<lambda>input. on_inner (io_write io input)),
      io_flush = on_inner (io_flush io),
      io_shutdown = on_inner (io_shutdown io),
      io_release_record_alignment =
        (\<lambda>s. s\<lparr>rs_inner := io_release_record_alignment io (rs_inner s)\<rparr>),
      io_read_direct = response_poll_read_direct io,
      io_write_direct = (\<lambda>input. on_inner (io_write_direct io input)),
      io_flush_direct = on_inner (io_flush_direct io),
      io_shutdown_direct = on_inner (io_shutdown_direct io)\<rparr>"

section \<open>The body behind the response header\<close>

text \<open>The bytes that remain after the header, from each state of the reader.\<close>

fun response_body :: "response_header_state \<Rightarrow> nat \<Rightarrow> bytes \<Rightarrow> bytes option" where
  "response_body Version r (v # n # bs) =
     (if v = RESPONSE_VLESS_VERSION \<and> unat n \<le> length bs then Some (drop (unat n) bs) else None)"
| "response_body AddonsLength r (n # bs) =
     (if unat n \<le> length bs then Some (drop (unat n) bs) else None)"
| "response_body Addons r bs = (if 0 < r \<and> r \<le> length bs then Some (drop r bs) else None)"
| "response_body Done r bs = Some bs"
| "response_body _ r _ = None"

definition response_rest :: "('s \<Rightarrow> bytes) \<Rightarrow> 's response_stream \<Rightarrow> bytes option" where
  "response_rest rest s = response_body (rs_state s) (rs_addons_remaining s) (rest (rs_inner s))"

definition response_good :: "('s \<Rightarrow> bool) \<Rightarrow> ('s \<Rightarrow> bytes) \<Rightarrow> 's response_stream \<Rightarrow> bool" where
  "response_good good rest s \<longleftrightarrow> good (rs_inner s) \<and> response_rest rest s \<noteq> None"

locale vision_inner =
  plain: poll_source "io_read io" good rest work + direct: poll_source "io_read_direct io" good rest work
  for io :: "'s vision_io" and good :: "'s \<Rightarrow> bool" and rest :: "'s \<Rightarrow> bytes" and work :: "'s \<Rightarrow> nat" +
  assumes release: "good s \<Longrightarrow>
    good (io_release_record_alignment io s) \<and>
    rest (io_release_record_alignment io s) = rest s \<and>
    work (io_release_record_alignment io s) \<le> work s"
begin

lemma poll_read_one_cases:
  assumes "good (rs_inner s)" "rest (rs_inner s) = b # bs"
  obtains (wait) i where "poll_read_one io s = (Pending, s\<lparr>rs_inner := i\<rparr>)" "good i" "rest i = b # bs"
      "work i < work (rs_inner s)"
  | (byte) i where "poll_read_one io s = (Ready (Inr b), s\<lparr>rs_inner := i\<rparr>)" "good i" "rest i = bs"
      "work i < work (rs_inner s)"
proof -
  have "0 < (1 :: nat)" by simp
  with assms(1) show thesis
  proof (cases rule: plain.poll_cases)
    case (pending i)
    then show thesis using assms(2) wait [of i] by (simp add: poll_read_one_def)
  next
    case (eof i)
    then show thesis using assms(2) by simp
  next
    case (bytes c i)
    then have "c = [b]" using assms(2) by (cases c) auto
    then show thesis using bytes assms(2) byte [of i] by (simp add: poll_read_one_def)
  qed
qed

lemma poll_discard_addons_cases:
  assumes "good (rs_inner s)" "rs_state s = Addons" "0 < rs_addons_remaining s"
    "rs_addons_remaining s \<le> length (rest (rs_inner s))"
  obtains (wait) i where "poll_discard_addons io s = (Pending, s\<lparr>rs_inner := i\<rparr>)" "good i"
      "rest i = rest (rs_inner s)" "work i < work (rs_inner s)"
  | (took) s' where "poll_discard_addons io s = (Ready (Inr ()), s')" "good (rs_inner s')"
      "work (rs_inner s') < work (rs_inner s)" "response_rest rest s' = response_rest rest s"
proof -
  have n: "0 < min (rs_addons_remaining s) 64" using assms(3) by simp
  from assms(1) n show thesis
  proof (cases rule: plain.poll_cases)
    case (pending i)
    then show thesis using wait [of i] by (simp add: poll_discard_addons_def)
  next
    case (eof i)
    then show thesis using assms by simp
  next
    case (bytes c i)
    let ?s = "s\<lparr>rs_inner := i, rs_addons_remaining := rs_addons_remaining s - length c,
        rs_state := (if rs_addons_remaining s - length c = 0 then Done else rs_state s)\<rparr>"
    have "poll_discard_addons io s = (Ready (Inr ()), ?s)"
      using bytes by (simp add: poll_discard_addons_def Let_def)
    moreover have "response_rest rest ?s = response_rest rest s"
      using bytes(4,5) assms by (auto simp: response_rest_def)
    ultimately show thesis using bytes took [of ?s] by simp
  qed
qed

text \<open>One round of the loop: it waits, takes part of the header, or stands behind it.\<close>

lemma discard_round:
  assumes "response_good good rest s"
  obtains (wait) s' where "poll_discard_response_header io s = (Pending, s')"
      "response_good good rest s'" "response_rest rest s' = response_rest rest s"
      "work (rs_inner s') < work (rs_inner s)"
  | (step) s' where "poll_discard_response_header io s = poll_discard_response_header io s'"
      "response_good good rest s'" "response_rest rest s' = response_rest rest s"
      "work (rs_inner s') < work (rs_inner s)"
  | (stop) "poll_discard_response_header io s = (Ready (Inr ()), s)" "rs_state s = Done"
proof (cases "rs_state s")
  case Version
  with assms obtain n bs where bs: "rest (rs_inner s) = 0 # n # bs" "unat n \<le> length bs" "good (rs_inner s)"
    by (cases "rest (rs_inner s)"; cases "tl (rest (rs_inner s))")
      (auto simp: response_good_def response_rest_def RESPONSE_VLESS_VERSION_def split: if_splits)
  from bs(3,1) show thesis
  proof (cases rule: poll_read_one_cases)
    case (wait i)
    then show thesis
      using that(1) [of "s\<lparr>rs_inner := i\<rparr>"] bs Version
      by (simp add: poll_discard_response_header.simps [of io s] response_good_def response_rest_def RESPONSE_VLESS_VERSION_def)
  next
    case (byte i)
    then show thesis
      using that(2) [of "s\<lparr>rs_inner := i, rs_state := AddonsLength\<rparr>"] bs Version
      by (simp add: poll_discard_response_header.simps [of io s] response_good_def response_rest_def RESPONSE_VLESS_VERSION_def)
  qed
next
  case AddonsLength
  with assms obtain n bs where bs: "rest (rs_inner s) = n # bs" "unat n \<le> length bs" "good (rs_inner s)"
    by (cases "rest (rs_inner s)") (auto simp: response_good_def response_rest_def split: if_splits)
  from bs(3,1) show thesis
  proof (cases rule: poll_read_one_cases)
    case (wait i)
    then show thesis
      using that(1) [of "s\<lparr>rs_inner := i\<rparr>"] bs AddonsLength
      by (simp add: poll_discard_response_header.simps [of io s] response_good_def response_rest_def)
  next
    case (byte i)
    then show thesis
      using that(2) [of "s\<lparr>rs_inner := i, rs_addons_remaining := unat n,
          rs_state := (if n = 0 then Done else Addons)\<rparr>"] bs AddonsLength
      by (simp add: poll_discard_response_header.simps [of io s] response_good_def response_rest_def unat_gt_0)
  qed
next
  case Addons
  with assms have a: "good (rs_inner s)" "0 < rs_addons_remaining s"
      "rs_addons_remaining s \<le> length (rest (rs_inner s))"
    by (auto simp: response_good_def response_rest_def split: if_splits)
  from a(1) Addons a(2,3) show thesis
  proof (cases rule: poll_discard_addons_cases)
    case (wait i)
    then show thesis
      using that(1) [of "s\<lparr>rs_inner := i\<rparr>"] a Addons
      by (simp add: poll_discard_response_header.simps [of io s] response_good_def response_rest_def)
  next
    case (took s')
    then show thesis
      using that(2) [of s'] assms Addons
      by (simp add: poll_discard_response_header.simps [of io s] response_good_def)
  qed
next
  case Done
  then show thesis using that(3) by (simp add: poll_discard_response_header.simps [of io s])
qed

lemma discard_cases:
  assumes "response_good good rest s"
  obtains (wait) s' where "poll_discard_response_header io s = (Pending, s')"
      "response_good good rest s'" "response_rest rest s' = response_rest rest s"
      "work (rs_inner s') < work (rs_inner s)"
  | (stop) s' where "poll_discard_response_header io s = (Ready (Inr ()), s')" "good (rs_inner s')"
      "rs_state s' = Done" "response_rest rest s = Some (rest (rs_inner s'))"
      "work (rs_inner s') \<le> work (rs_inner s)"
  using assms
proof (induction "work (rs_inner s)" arbitrary: s thesis rule: less_induct)
  case less
  from less.prems(3) show thesis
  proof (cases rule: discard_round)
    case (wait s')
    then show thesis using less.prems(1) by blast
  next
    case (step s')
    show thesis
    proof (rule less.hyps [OF step(4) _ _ step(2)])
      fix t assume "poll_discard_response_header io s' = (Pending, t)" "response_good good rest t"
        "response_rest rest t = response_rest rest s'" "work (rs_inner t) < work (rs_inner s')"
      then show thesis using less.prems(1) [of t] step by simp
    next
      fix t assume "poll_discard_response_header io s' = (Ready (Inr ()), t)" "good (rs_inner t)"
        "rs_state t = Done" "response_rest rest s' = Some (rest (rs_inner t))"
        "work (rs_inner t) \<le> work (rs_inner s')"
      then show thesis using less.prems(2) [of t] step by simp
    qed
  next
    case stop
    then show thesis
      using less.prems(2) [of s] less.prems(3) by (simp add: response_good_def response_rest_def)
  qed
qed

text \<open>Reading through the header reader is again a source, for the plain and the direct reads.\<close>

lemma response_source:
  assumes "poll_source r good rest work"
    and f: "\<And>n s. f n s = (case poll_discard_response_header io s of
          (Pending, s') \<Rightarrow> (Pending, s')
        | (Ready (Inl e), s') \<Rightarrow> (Ready (Inl e), s')
        | (Ready (Inr _), s') \<Rightarrow> (case r n (rs_inner s') of (p, i) \<Rightarrow> (p, s'\<lparr>rs_inner := i\<rparr>)))"
  shows "poll_source f (response_good good rest) (\<lambda>s. the (response_rest rest s)) (\<lambda>s. work (rs_inner s))"
proof
  fix s n assume g: "response_good good rest s" and n: "0 < (n :: nat)"
  from g show "poll_outcome (response_good good rest) (\<lambda>s. the (response_rest rest s))
      (\<lambda>s. work (rs_inner s)) n s (f n s)"
  proof (cases rule: discard_cases)
    case (wait s')
    then show ?thesis by (simp add: f)
  next
    case (stop s')
    from stop(2) n show ?thesis
      by (cases rule: poll_source.poll_cases [OF assms(1)])
        (use stop in \<open>auto simp: f response_good_def response_rest_def\<close>)
  qed
qed

lemma vision_inner_response:
  "vision_inner (response_io io) (response_good good rest) (\<lambda>s. the (response_rest rest s)) (\<lambda>s. work (rs_inner s))"
proof -
  have plain: "poll_source (io_read (response_io io)) (response_good good rest)
      (\<lambda>s. the (response_rest rest s)) (\<lambda>s. work (rs_inner s))"
    by (rule response_source [OF plain.poll_source_axioms])
      (simp add: response_io_def response_poll_read_def)
  have direct: "poll_source (io_read_direct (response_io io)) (response_good good rest)
      (\<lambda>s. the (response_rest rest s)) (\<lambda>s. work (rs_inner s))"
    by (rule response_source [OF direct.poll_source_axioms])
      (simp add: response_io_def response_poll_read_direct_def)
  show ?thesis
    by (rule vision_inner.intro [OF plain direct], unfold_locales)
      (auto simp: response_io_def response_good_def response_rest_def dest: release)
qed

end

context vision_inner
begin

lemma response_read_all:
  assumes "good i" "rest i = RESPONSE_VLESS_VERSION # n # addons @ body" "length addons = unat n"
    and "0 < room" "work i < polls"
  shows "poll_to_end (response_poll_read io) room polls (response_new i) = Some (Inr body)"
proof -
  have "poll_source (response_poll_read io) (response_good good rest)
      (\<lambda>s. the (response_rest rest s)) (\<lambda>s. work (rs_inner s))"
    using vision_inner_response by (simp add: vision_inner_def response_io_def)
  from poll_source.poll_to_end_rest [OF this, of "response_new i" room polls] show ?thesis
    using assms by (simp add: response_good_def response_rest_def response_new_def RESPONSE_VLESS_VERSION_def)
qed

end

section \<open>A pipe\<close>

text \<open>
  A transport without a record layer, whose direct methods are the plain ones, as the sources
  implement the trait for \<open>DuplexStream\<close> and \<open>Cursor\<close>. Its reads come from a list of polls; a write
  takes what the next entry of \<open>p_accepts\<close> allows, at least one byte, and everything when the list
  is used up.
\<close>

record pipe =
  p_reads :: polls
  p_accepts :: "nat poll list"
  p_written :: bytes

definition pipe_read :: "nat \<Rightarrow> pipe \<Rightarrow> (io_error + bytes) poll \<times> pipe" where
  "pipe_read n p = (case poll_chunk n (p_reads p) of (r, ps) \<Rightarrow> (r, p\<lparr>p_reads := ps\<rparr>))"

definition pipe_write :: "bytes \<Rightarrow> pipe \<Rightarrow> (io_error + nat) poll \<times> pipe" where
  "pipe_write input p =
     (case p_accepts p of
        [] \<Rightarrow> (Ready (Inr (length input)), p\<lparr>p_written := p_written p @ input\<rparr>)
      | Pending # as \<Rightarrow> (Pending, p\<lparr>p_accepts := as\<rparr>)
      | Ready n # as \<Rightarrow>
          (Ready (Inr (min (Suc n) (length input))),
           p\<lparr>p_accepts := as, p_written := p_written p @ take (Suc n) input\<rparr>))"

definition pipe_io :: "pipe vision_io" where
  "pipe_io =
     \<lparr>io_read = pipe_read, io_write = pipe_write,
      io_flush = (\<lambda>p. (Ready (Inr ()), p)), io_shutdown = (\<lambda>p. (Ready (Inr ()), p)),
      io_release_record_alignment = (\<lambda>p. p),
      io_read_direct = pipe_read, io_write_direct = pipe_write,
      io_flush_direct = (\<lambda>p. (Ready (Inr ()), p)), io_shutdown_direct = (\<lambda>p. (Ready (Inr ()), p))\<rparr>"

lemma pipe_source:
  "poll_source pipe_read (\<lambda>p. polls_ok (p_reads p)) (\<lambda>p. polls_bytes (p_reads p)) (\<lambda>p. polls_work (p_reads p))"
proof
  fix s :: pipe and n assume "polls_ok (p_reads s)" "0 < (n :: nat)"
  then show "poll_outcome (\<lambda>p. polls_ok (p_reads p)) (\<lambda>p. polls_bytes (p_reads p))
      (\<lambda>p. polls_work (p_reads p)) n s (pipe_read n s)"
    by (cases rule: pq.poll_cases) (auto simp: pipe_read_def)
qed

interpretation pio: vision_inner pipe_io "\<lambda>p. polls_ok (p_reads p)" "\<lambda>p. polls_bytes (p_reads p)"
    "\<lambda>p. polls_work (p_reads p)"
  by (rule vision_inner.intro [OF _ _ vision_inner_axioms.intro]) (simp_all add: pipe_io_def pipe_source)

interpretation rio: vision_inner "response_io pipe_io"
    "response_good (\<lambda>p. polls_ok (p_reads p)) (\<lambda>p. polls_bytes (p_reads p))"
    "\<lambda>s. the (response_rest (\<lambda>p. polls_bytes (p_reads p)) s)" "\<lambda>s. polls_work (p_reads (rs_inner s))"
  by (rule pio.vision_inner_response)

text \<open>
  C21. Reading a VLESS response to its end gives the body behind the header, whatever the
  length of the addons, however the transport splits the bytes and whenever it is not ready; it
  takes no more polls than the transport needs to deliver its bytes.
\<close>

theorem response_stream_strips_header:
  assumes "vision_inner io good rest work"
    and "good i" "rest i = RESPONSE_VLESS_VERSION # n # addons @ body" "length addons = unat n"
    and "0 < room" "work i < polls"
  shows "poll_to_end (response_poll_read io) room polls (response_new i) = Some (Inr body)"
  using vision_inner.response_read_all [OF assms] .

theorem response_stream_strips_header_witness:
  "poll_to_end (response_poll_read pipe_io) 2 20
     (response_new \<lparr>p_reads = [Ready (Inr [0]), Pending, Ready (Inr [2, 7, 7, 65, 66]), Pending, Ready (Inr [67])],
        p_accepts = [], p_written = []\<rparr>) = Some (Inr [65, 66, 67])"
  by (rule response_stream_strips_header [OF pio.vision_inner_axioms, where n = 2 and addons = "[7, 7]"])
    (simp_all add: RESPONSE_VLESS_VERSION_def polls_work_def)

section \<open>Blocks on the wire\<close>

definition vision_block :: "vision_command \<Rightarrow> bytes \<Rightarrow> nat \<Rightarrow> bytes" where
  "vision_block c payload n =
     [vision_code c] @ be16 (of_nat (length payload)) @ be16 (of_nat n) @ payload @ replicate n 0"

lemma length_vision_block [simp]: "length (vision_block c p n) = 5 + length p + n"
  by (simp add: vision_block_def)

lemma vision_try_from_code [simp]: "vision_try_from (vision_code c) = Inr c"
  by (cases c) (simp_all add: vision_try_from_def)

lemma vision_code_le: "vision_code c \<in> {0, 1, 2}"
  by (cases c) simp_all

lemma from_be16_split [simp]: "from_be16 [be16 w ! 0, be16 w ! Suc 0] = w"
  by (rule be16_split [of w]) simp

lemma parse_header_block:
  assumes "length p \<le> MAX_CONTENT_LEN" "n \<le> MAX_CONTENT_LEN"
  shows "parse_header (pre @ vision_block c p n @ suf) (length pre) =
     Inr \<lparr>vh_command = c, vh_content_len = length p, vh_total_len = 5 + length p + n\<rparr>"
  using assms by (simp add: parse_header_def HEADER_LEN_def vision_block_def nth_append MAX_CONTENT_LEN_def Let_def)

lemma unpad_first_block:
  assumes "length uid = USER_ID_LEN" "length p \<le> MAX_CONTENT_LEN" "n \<le> MAX_CONTENT_LEN"
  shows "unpad_vision_block (uid @ vision_block c p n) uid = Inr \<lparr>u_command = c, u_payload = p\<rparr>"
proof -
  have "unpad_offset (uid @ vision_block c p n) uid = Inr USER_ID_LEN"
    using assms(1) by (simp add: unpad_offset_def slice_get_def)
  then show ?thesis
    using parse_header_block [OF assms(2,3), of uid c "[]"] assms(1)
    by (simp add: unpad_vision_block_def HEADER_LEN_def vision_block_def)
qed

lemma unpad_next_block:
  assumes "take USER_ID_LEN (vision_block c p n) \<noteq> uid" "length p \<le> MAX_CONTENT_LEN" "n \<le> MAX_CONTENT_LEN"
  shows "unpad_vision_block (vision_block c p n) uid = Inr \<lparr>u_command = c, u_payload = p\<rparr>"
proof -
  note ph = parse_header_block [OF assms(2,3), of "[]" c "[]", simplified]
  have "unpad_offset (vision_block c p n) uid = Inr 0"
    using assms(1) ph by (simp add: unpad_offset_def slice_get_Some USER_ID_LEN_def)
  then show ?thesis
    using ph by (simp add: unpad_vision_block_def HEADER_LEN_def vision_block_def)
qed

lemma padding_len_le: "padding_len gen_range vp content_len long_padding extra \<le> MAX_CONTENT_LEN"
  by (simp add: padding_len_def MAX_CONTENT_LEN_def)

lemma pad_into_block:
  assumes "length payload \<le> MAX_CONTENT_LEN"
  shows "pad_into_with_long_padding gen_range payload c long_padding extra out vp =
    (Inr (out @ (if vp_user_id_emitted vp then [] else vp_user_id vp) @
       vision_block c payload (padding_len gen_range vp (length payload) long_padding extra)),
     vp\<lparr>vp_user_id_emitted := True\<rparr>)"
  using assms by (simp add: pad_into_with_long_padding_def vision_block_def Let_def)

text \<open>
  C25. A payload that fits the length field is padded, whatever the seed and the random numbers, with
  at most \<open>u16::MAX\<close> bytes, so that neither length field is truncated, and unpadding the block gives
  the command and the payload back: for the first block, which starts with the user id, always, and
  for a later one when it does not happen to start with the bytes of the user id. A longer payload
  is refused without a change of state.
\<close>

theorem vision_pad_unpad:
  assumes "length (vp_user_id vp) = USER_ID_LEN"
  shows "if length payload \<le> MAX_CONTENT_LEN
    then \<exists>block. pad gen_range payload c extra vp = (Inr block, vp\<lparr>vp_user_id_emitted := True\<rparr>) \<and>
      length block \<le> USER_ID_LEN + HEADER_LEN + length payload + MAX_CONTENT_LEN \<and>
      (vp_user_id_emitted vp \<longrightarrow> take USER_ID_LEN block \<noteq> vp_user_id vp \<longrightarrow>
         unpad_vision_block block (vp_user_id vp) = Inr \<lparr>u_command = c, u_payload = payload\<rparr>) \<and>
      (\<not> vp_user_id_emitted vp \<longrightarrow>
         unpad_vision_block block (vp_user_id vp) = Inr \<lparr>u_command = c, u_payload = payload\<rparr>)
    else pad gen_range payload c extra vp = (Inl (PayloadTooLarge (length payload)), vp)"
proof (cases "length payload \<le> MAX_CONTENT_LEN")
  case True
  note [simp] = pad_def pad_into_def pad_into_block [OF True]
  show ?thesis
    using True assms padding_len_le [of gen_range vp "length payload" True extra]
    by (auto simp: unpad_first_block unpad_next_block HEADER_LEN_def)
next
  case False
  then show ?thesis by (simp add: pad_def pad_into_def pad_into_with_long_padding_def Let_def)
qed

theorem vision_pad_unpad_witness:
  "\<exists>block. pad (\<lambda>b. unat b - 1) [104, 105] VEnd 3 (vision_padding_new (replicate 16 9) DEFAULT_VISION_SEED) =
      (Inr block, (vision_padding_new (replicate 16 9) DEFAULT_VISION_SEED)\<lparr>vp_user_id_emitted := True\<rparr>) \<and>
    unpad_vision_block block (replicate 16 9) = Inr \<lparr>u_command = VEnd, u_payload = [104, 105]\<rparr>"
  using vision_pad_unpad [of "vision_padding_new (replicate 16 9) DEFAULT_VISION_SEED" "[104, 105]" "\<lambda>b. unat b - 1" VEnd 3]
  by (auto simp: vision_padding_new_def USER_ID_LEN_def MAX_CONTENT_LEN_def)

text \<open>The condition on later blocks is needed: one that starts with the bytes of the user id is not read back.\<close>

lemma later_block_like_user_id:
  "take USER_ID_LEN (vision_block VContinue (replicate 11 7) 0) = [0, 0, 11, 0, 0] @ replicate 11 7 \<and>
   unpad_vision_block (vision_block VContinue (replicate 11 7) 0) ([0, 0, 11, 0, 0] @ replicate 11 7) = Inl ShortBlock"
  by code_simp

end
