(* ===== verification/Xr_Vision_Stream.thy ===== *)
theory Xr_Vision_Stream
  imports Xr_Vision
begin

text \<open>
  The Vision stream, \<open>crates/xray-proxy/src/vless/vision_stream.rs\<close>: a reader that takes the padded
  blocks apart as they arrive and a writer that pads until the traffic inside is recognised as
  TLS 1.3 (or as something else), and then stops padding. \<open>remaining_server_hello\<close> is an \<open>int\<close>:
  packets are at most 65535 bytes on both call sites, which keeps it in the range of \<open>i32\<close>.
\<close>

section \<open>State\<close>

definition READ_CHUNK_LEN :: nat where "READ_CHUNK_LEN = 8 * 1024"
definition TLS_CLIENT_HANDSHAKE_START :: bytes where "TLS_CLIENT_HANDSHAKE_START = [0x16, 0x03]"
definition TLS_SERVER_HANDSHAKE_START :: bytes where "TLS_SERVER_HANDSHAKE_START = [0x16, 0x03, 0x03]"
definition TLS_APPLICATION_DATA_START :: bytes where "TLS_APPLICATION_DATA_START = [0x17, 0x03, 0x03]"
definition TLS_13_SUPPORTED_VERSIONS :: bytes where
  "TLS_13_SUPPORTED_VERSIONS = [0x00, 0x2b, 0x00, 0x02, 0x03, 0x04]"
definition TLS_HANDSHAKE_TYPE_CLIENT_HELLO :: u8 where "TLS_HANDSHAKE_TYPE_CLIENT_HELLO = 0x01"
definition TLS_HANDSHAKE_TYPE_SERVER_HELLO :: u8 where "TLS_HANDSHAKE_TYPE_SERVER_HELLO = 0x02"
definition TLS_AES_128_CCM_8_SHA256 :: u16 where "TLS_AES_128_CCM_8_SHA256 = 0x1305"

record 's vision_stream =
  vs_inner :: 's
  vs_user_id :: bytes
  vs_padding :: vision_padding
  vs_pending_write :: bytes
  vs_pending_write_len :: nat
  vs_pending_direct_write_mode :: bool
  vs_pending_end_write_mode :: bool
  vs_raw_read :: bytes
  vs_decoded_read :: bytes
  vs_inbound_user_id_seen :: bool
  vs_padding_write_mode :: bool
  vs_direct_write_mode :: bool
  vs_padding_read_mode :: bool
  vs_direct_read_mode :: bool
  vs_inner_eof :: bool
  vs_packets_to_filter :: nat
  vs_enable_xtls :: bool
  vs_is_tls12_or_above :: bool
  vs_is_tls :: bool
  vs_cipher :: u16
  vs_remaining_server_hello :: int

definition vision_stream_new :: "'s \<Rightarrow> bytes \<Rightarrow> u32 list \<Rightarrow> 's vision_stream" where
  "vision_stream_new inner user_id seed =
     \<lparr>vs_inner = inner, vs_user_id = user_id, vs_padding = vision_padding_new user_id seed,
      vs_pending_write = [], vs_pending_write_len = 0, vs_pending_direct_write_mode = False,
      vs_pending_end_write_mode = False, vs_raw_read = [], vs_decoded_read = [],
      vs_inbound_user_id_seen = False, vs_padding_write_mode = True, vs_direct_write_mode = False,
      vs_padding_read_mode = True, vs_direct_read_mode = False, vs_inner_eof = False,
      vs_packets_to_filter = 8, vs_enable_xtls = False, vs_is_tls12_or_above = False,
      vs_is_tls = False, vs_cipher = 0, vs_remaining_server_hello = - 1\<rparr>"

fun vision_display :: "vision_error \<Rightarrow> string" where
  "vision_display ShortBlock = ''vision block is shorter than header''"
| "vision_display UserMismatch = ''vision user id mismatch''"
| "vision_display (UnknownCommand c) = ''unknown vision command '' @ show_nat (unat c)"
| "vision_display LengthMismatch = ''vision block length is inconsistent''"
| "vision_display (PayloadTooLarge n) =
     ''vision payload length '' @ show_nat n @ '' exceeds u16 content length limit''"

definition vision_to_io :: "vision_error \<Rightarrow> io_error" where
  "vision_to_io e = Io InvalidData (vision_display e)"

section \<open>Recognising TLS\<close>

text \<open>\<open>xs.windows(w.len()).any(|window| window == w)\<close>\<close>

fun has_window :: "bytes \<Rightarrow> bytes \<Rightarrow> bool" where
  "has_window w [] = (w = [])"
| "has_window w (x # xs) = (take (length w) (x # xs) = w \<or> has_window w xs)"

definition filter_hello :: "bytes \<Rightarrow> 's vision_stream \<Rightarrow> 's vision_stream" where
  "filter_hello packet s =
     (if length packet \<ge> 6 then
        if take 3 packet = TLS_SERVER_HANDSHAKE_START \<and> packet ! 5 = TLS_HANDSHAKE_TYPE_SERVER_HELLO then
          let remaining = int (unat (from_be16 [packet ! 3, packet ! 4])) + int HEADER_LEN;
              s = s\<lparr>vs_remaining_server_hello := remaining, vs_is_tls12_or_above := True, vs_is_tls := True\<rparr>
          in if length packet \<ge> 79 \<and> remaining \<ge> 79 then
               let cipher_offset = 43 + unat (packet ! 43) + 1
               in if length packet \<ge> cipher_offset + 2
                  then s\<lparr>vs_cipher := from_be16 [packet ! cipher_offset, packet ! (cipher_offset + 1)]\<rparr>
                  else s
             else s
        else if take 2 packet = TLS_CLIENT_HANDSHAKE_START \<and> packet ! 5 = TLS_HANDSHAKE_TYPE_CLIENT_HELLO
        then s\<lparr>vs_is_tls := True\<rparr>
        else s
      else s)"

definition filter_versions :: "bytes \<Rightarrow> 's vision_stream \<Rightarrow> 's vision_stream" where
  "filter_versions packet s =
     (if vs_remaining_server_hello s > 0 then
        let end' = min (nat (vs_remaining_server_hello s)) (length packet);
            s = s\<lparr>vs_remaining_server_hello := vs_remaining_server_hello s - int (length packet)\<rparr>
        in if has_window TLS_13_SUPPORTED_VERSIONS (take end' packet) then
             (if vs_cipher s \<noteq> 0 \<and> vs_cipher s \<noteq> TLS_AES_128_CCM_8_SHA256
              then s\<lparr>vs_enable_xtls := True\<rparr> else s)\<lparr>vs_packets_to_filter := 0\<rparr>
           else if vs_remaining_server_hello s \<le> 0 then s\<lparr>vs_packets_to_filter := 0\<rparr>
           else s
      else s)"

definition filter_tls_packet :: "bytes \<Rightarrow> 's vision_stream \<Rightarrow> 's vision_stream" where
  "filter_tls_packet packet s =
     (if vs_packets_to_filter s = 0 \<or> packet = [] then s
      else filter_versions packet
        (filter_hello packet (s\<lparr>vs_packets_to_filter := vs_packets_to_filter s - 1\<rparr>)))"

text \<open>The loop of \<open>is_complete_tls_application_data_records\<close> on the bytes from \<open>offset\<close> on.\<close>

function tls_records :: "bytes \<Rightarrow> bool" where
  "tls_records input =
     (if input = [] then True
      else if length input < HEADER_LEN then False
      else if take 3 input \<noteq> TLS_APPLICATION_DATA_START then False
      else
        let record_len = unat (from_be16 [input ! 3, input ! 4]); rest = drop HEADER_LEN input
        in if length rest < record_len then False else tls_records (drop record_len rest))"
  by pat_completeness auto
termination by (relation "measure length") (auto simp: HEADER_LEN_def)

declare tls_records.simps [simp del]

definition is_complete_tls_application_data_records :: "bytes \<Rightarrow> bool" where
  "is_complete_tls_application_data_records input \<longleftrightarrow> tls_records input \<and> input \<noteq> []"

section \<open>Reading\<close>

text \<open>\<open>fill_output\<close> into room for \<open>n\<close> bytes: the bytes it moves.\<close>

definition fill_output :: "nat \<Rightarrow> 's vision_stream \<Rightarrow> bytes \<times> 's vision_stream" where
  "fill_output n s =
     (take n (vs_decoded_read s), s\<lparr>vs_decoded_read := drop n (vs_decoded_read s)\<rparr>)"

definition next_frame_offset :: "'s vision_stream \<Rightarrow> nat option" where
  "next_frame_offset s =
     (if vs_raw_read s = [] then None
      else if vs_inbound_user_id_seen s then Some 0
      else if length (vs_raw_read s) < USER_ID_LEN then
        if prefix (vs_raw_read s) (vs_user_id s) then None else Some 0
      else if take USER_ID_LEN (vs_raw_read s) = vs_user_id s then Some USER_ID_LEN
      else Some 0)"

definition next_frame_len :: "'s vision_stream \<Rightarrow> io_error + nat option" where
  "next_frame_len s =
     (case next_frame_offset s of
        None \<Rightarrow> Inr None
      | Some offset \<Rightarrow>
          if length (vs_raw_read s) < offset + HEADER_LEN then Inr None
          else
            rbind (map_err vision_to_io (vision_try_from (vs_raw_read s ! offset))) (\<lambda>_.
            let content_len = unat (from_be16 [vs_raw_read s ! (offset + 1), vs_raw_read s ! (offset + 2)]);
                padding_len = unat (from_be16 [vs_raw_read s ! (offset + 3), vs_raw_read s ! (offset + 4)]);
                frame_len = offset + HEADER_LEN + content_len + padding_len
            in if length (vs_raw_read s) < frame_len then Inr None else Inr (Some frame_len)))"

definition decode_next_frame :: "'s vision_io \<Rightarrow> 's vision_stream \<Rightarrow> (io_error + bool) \<times> 's vision_stream" where
  "decode_next_frame io s =
     (case next_frame_len s of
        Inl e \<Rightarrow> (Inl e, s)
      | Inr None \<Rightarrow> (Inr False, s)
      | Inr (Some frame_len) \<Rightarrow>
          let frame = take frame_len (vs_raw_read s);
              s = s\<lparr>vs_raw_read := drop frame_len (vs_raw_read s)\<rparr>
          in (case unpad_vision_block frame (vs_user_id s) of
                Inl e \<Rightarrow> (Inl (vision_to_io e), s)
              | Inr unpadded \<Rightarrow>
                  let s = filter_tls_packet (u_payload unpadded) (s\<lparr>vs_inbound_user_id_seen := True\<rparr>);
                      s = s\<lparr>vs_decoded_read := vs_decoded_read s @ u_payload unpadded\<rparr>
                  in if u_command unpadded \<in> {VEnd, VDirect} then
                       let s = s\<lparr>vs_padding_read_mode := False,
                                 vs_direct_read_mode := (u_command unpadded = VDirect),
                                 vs_decoded_read := vs_decoded_read s @ vs_raw_read s,
                                 vs_raw_read := []\<rparr>
                       in (Inr True,
                           if u_command unpadded = VEnd
                           then s\<lparr>vs_inner := io_release_record_alignment io (vs_inner s)\<rparr> else s)
                     else (Inr True, s)))"

text \<open>A read on the transport, plain or direct, straight into the caller's buffer.\<close>

definition read_inner ::
    "(nat \<Rightarrow> 's \<Rightarrow> (io_error + bytes) poll \<times> 's) \<Rightarrow> nat \<Rightarrow> 's vision_stream \<Rightarrow>
     (io_error + bytes) poll \<times> 's vision_stream" where
  "read_inner rd n s = (case rd n (vs_inner s) of (r, i) \<Rightarrow> (r, s\<lparr>vs_inner := i\<rparr>))"

text \<open>
  The loop of \<open>poll_read\<close>. It goes round as long as the transport is ready with blocks that carry
  nothing, so it need not return.
\<close>

partial_function (option) vision_read_loop ::
    "'s vision_io \<Rightarrow> nat \<Rightarrow> 's vision_stream \<Rightarrow> ((io_error + bytes) poll \<times> 's vision_stream) option" where
  "vision_read_loop io n s =
     (case decode_next_frame io s of
        (Inl e, s) \<Rightarrow> Some (Ready (Inl e), s)
      | (Inr decoded, s) \<Rightarrow>
          if decoded then
            (case fill_output n s of
               (c, s) \<Rightarrow>
                 if c \<noteq> [] \<or> n = 0 then Some (Ready (Inr c), s)
                 else if vs_direct_read_mode s then Some (read_inner (io_read_direct io) n s)
                 else if \<not> vs_padding_read_mode s then Some (read_inner (io_read io) n s)
                 else vision_read_loop io n s)
          else if vs_inner_eof s then Some (Ready (Inr []), s)
          else
            (case read_inner (io_read io) READ_CHUNK_LEN s of
               (Pending, s) \<Rightarrow> Some (Pending, s)
             | (Ready (Inl e), s) \<Rightarrow> Some (Ready (Inl e), s)
             | (Ready (Inr filled), s) \<Rightarrow>
                 if filled = [] then
                   let s = s\<lparr>vs_inner_eof := True\<rparr>
                   in if vs_raw_read s = [] then Some (Ready (Inr []), s)
                      else Some (Ready (Inl (Io UnexpectedEof ''incomplete vision frame'')), s)
                 else vision_read_loop io n (s\<lparr>vs_raw_read := vs_raw_read s @ filled\<rparr>)))"

definition vision_poll_read ::
    "'s vision_io \<Rightarrow> nat \<Rightarrow> 's vision_stream \<Rightarrow> ((io_error + bytes) poll \<times> 's vision_stream) option" where
  "vision_poll_read io n s =
     (case fill_output n s of
        (c, s) \<Rightarrow>
          if c \<noteq> [] \<or> n = 0 then Some (Ready (Inr c), s)
          else if vs_direct_read_mode s then Some (read_inner (io_read_direct io) n s)
          else if \<not> vs_padding_read_mode s then Some (read_inner (io_read io) n s)
          else vision_read_loop io n s)"

text \<open>A poll that does not return, seen as an error, so that a result of a read also says that every poll returned.\<close>

definition returning ::
    "(nat \<Rightarrow> 's \<Rightarrow> ((io_error + bytes) poll \<times> 's) option) \<Rightarrow> nat \<Rightarrow> 's \<Rightarrow> (io_error + bytes) poll \<times> 's" where
  "returning f n s = (case f n s of Some r \<Rightarrow> r | None \<Rightarrow> (Ready (Inl (Io OtherKind ''poll does not return'')), s))"

section \<open>The reader decodes\<close>

text \<open>
  The content of a padded stream behind the user id: the payloads of its blocks up to the first
  one that ends the padding, and everything after that.
\<close>

function vision_content :: "bytes \<Rightarrow> bytes option" where
  "vision_content w =
     (if w = [] then Some []
      else (case parse_header w 0 of
          Inl e \<Rightarrow> None
        | Inr h \<Rightarrow>
            if length w < vh_total_len h then None
            else
              let payload = take (vh_content_len h) (drop HEADER_LEN w)
              in if vh_command h = VContinue
                 then map_option ((@) payload) (vision_content (drop (vh_total_len h) w))
                 else Some (payload @ drop (vh_total_len h) w)))"
  by pat_completeness auto
termination
  by (relation "measure length")
    (auto simp: parse_header_def HEADER_LEN_def rbind_eq_Inr Let_def split: if_splits)

declare vision_content.simps [simp del]

definition vision_expect :: "bool \<Rightarrow> bytes \<Rightarrow> bytes \<Rightarrow> bytes option" where
  "vision_expect seen uid bs =
     (if seen then vision_content bs
      else if bs = [] then Some []
      else if prefix uid bs \<and> length uid < length bs then vision_content (drop (length uid) bs)
      else None)"

definition vision_read_good :: "('s \<Rightarrow> bool) \<Rightarrow> ('s \<Rightarrow> bytes) \<Rightarrow> 's vision_stream \<Rightarrow> bool" where
  "vision_read_good good rest s \<longleftrightarrow>
     good (vs_inner s) \<and> length (vs_user_id s) = USER_ID_LEN \<and> 2 < vs_user_id s ! 0 \<and>
     (if vs_padding_read_mode s
      then \<not> vs_direct_read_mode s \<and>
        vision_expect (vs_inbound_user_id_seen s) (vs_user_id s) (vs_raw_read s @ rest (vs_inner s)) \<noteq> None \<and>
        (vs_inner_eof s \<longrightarrow> vs_raw_read s = [] \<and> rest (vs_inner s) = [])
      else vs_raw_read s = [])"

definition vision_read_rest :: "('s \<Rightarrow> bytes) \<Rightarrow> 's vision_stream \<Rightarrow> bytes" where
  "vision_read_rest rest s =
     vs_decoded_read s @
     (if vs_padding_read_mode s
      then the (vision_expect (vs_inbound_user_id_seen s) (vs_user_id s) (vs_raw_read s @ rest (vs_inner s)))
      else rest (vs_inner s))"

definition vision_read_work :: "('s \<Rightarrow> bytes) \<Rightarrow> ('s \<Rightarrow> nat) \<Rightarrow> 's vision_stream \<Rightarrow> nat" where
  "vision_read_work rest work s =
     work (vs_inner s) + length (vs_decoded_read s) + length (vs_raw_read s) + length (rest (vs_inner s))"

text \<open>The filter touches none of the fields that carry data or modes.\<close>

definition vs_frame :: "'s vision_stream \<Rightarrow> 's vision_stream" where
  "vs_frame s = s\<lparr>vs_packets_to_filter := 0, vs_enable_xtls := False, vs_is_tls12_or_above := False,
     vs_is_tls := False, vs_cipher := 0, vs_remaining_server_hello := 0\<rparr>"

lemma vs_frame_update [simp]:
  "vs_frame (s\<lparr>vs_packets_to_filter := a\<rparr>) = vs_frame s"
  "vs_frame (s\<lparr>vs_enable_xtls := b\<rparr>) = vs_frame s"
  "vs_frame (s\<lparr>vs_is_tls12_or_above := b\<rparr>) = vs_frame s"
  "vs_frame (s\<lparr>vs_is_tls := b\<rparr>) = vs_frame s"
  "vs_frame (s\<lparr>vs_cipher := c\<rparr>) = vs_frame s"
  "vs_frame (s\<lparr>vs_remaining_server_hello := i\<rparr>) = vs_frame s"
  by (simp_all add: vs_frame_def)

lemma vs_frame_filter_hello [simp]: "vs_frame (filter_hello p s) = vs_frame s"
  unfolding filter_hello_def Let_def by (simp split: if_split)

lemma vs_frame_filter_versions [simp]: "vs_frame (filter_versions p s) = vs_frame s"
  unfolding filter_versions_def Let_def by (simp split: if_split)

lemma vs_frame_filter [simp]: "vs_frame (filter_tls_packet p s) = vs_frame s"
  by (simp add: filter_tls_packet_def)

lemma vs_frame_push [simp]:
  "vs_frame (s\<lparr>vs_inner := a\<rparr>) = (vs_frame s)\<lparr>vs_inner := a\<rparr>"
  "vs_frame (s\<lparr>vs_raw_read := b\<rparr>) = (vs_frame s)\<lparr>vs_raw_read := b\<rparr>"
  "vs_frame (s\<lparr>vs_decoded_read := b\<rparr>) = (vs_frame s)\<lparr>vs_decoded_read := b\<rparr>"
  "vs_frame (s\<lparr>vs_inbound_user_id_seen := c\<rparr>) = (vs_frame s)\<lparr>vs_inbound_user_id_seen := c\<rparr>"
  "vs_frame (s\<lparr>vs_padding_read_mode := c\<rparr>) = (vs_frame s)\<lparr>vs_padding_read_mode := c\<rparr>"
  "vs_frame (s\<lparr>vs_direct_read_mode := c\<rparr>) = (vs_frame s)\<lparr>vs_direct_read_mode := c\<rparr>"
  by (simp_all add: vs_frame_def)

lemma vs_frame_inner [simp]: "(vs_frame s)\<lparr>vs_inner := vs_inner s\<rparr> = vs_frame s"
  by (cases s) (simp add: vs_frame_def)

lemma vs_frameD:
  assumes "vs_frame s = vs_frame t"
  shows "vs_inner s = vs_inner t"
    "vs_user_id s = vs_user_id t"
    "vs_padding s = vs_padding t"
    "vs_pending_write s = vs_pending_write t"
    "vs_pending_write_len s = vs_pending_write_len t"
    "vs_pending_direct_write_mode s = vs_pending_direct_write_mode t"
    "vs_pending_end_write_mode s = vs_pending_end_write_mode t"
    "vs_raw_read s = vs_raw_read t"
    "vs_decoded_read s = vs_decoded_read t"
    "vs_inbound_user_id_seen s = vs_inbound_user_id_seen t"
    "vs_padding_write_mode s = vs_padding_write_mode t"
    "vs_direct_write_mode s = vs_direct_write_mode t"
    "vs_padding_read_mode s = vs_padding_read_mode t"
    "vs_direct_read_mode s = vs_direct_read_mode t"
    "vs_inner_eof s = vs_inner_eof t"
proof -
  show "vs_inner s = vs_inner t" using arg_cong [OF assms, of vs_inner] by (simp add: vs_frame_def)
  show "vs_user_id s = vs_user_id t" using arg_cong [OF assms, of vs_user_id] by (simp add: vs_frame_def)
  show "vs_padding s = vs_padding t" using arg_cong [OF assms, of vs_padding] by (simp add: vs_frame_def)
  show "vs_pending_write s = vs_pending_write t" using arg_cong [OF assms, of vs_pending_write] by (simp add: vs_frame_def)
  show "vs_pending_write_len s = vs_pending_write_len t" using arg_cong [OF assms, of vs_pending_write_len] by (simp add: vs_frame_def)
  show "vs_pending_direct_write_mode s = vs_pending_direct_write_mode t" using arg_cong [OF assms, of vs_pending_direct_write_mode] by (simp add: vs_frame_def)
  show "vs_pending_end_write_mode s = vs_pending_end_write_mode t" using arg_cong [OF assms, of vs_pending_end_write_mode] by (simp add: vs_frame_def)
  show "vs_raw_read s = vs_raw_read t" using arg_cong [OF assms, of vs_raw_read] by (simp add: vs_frame_def)
  show "vs_decoded_read s = vs_decoded_read t" using arg_cong [OF assms, of vs_decoded_read] by (simp add: vs_frame_def)
  show "vs_inbound_user_id_seen s = vs_inbound_user_id_seen t" using arg_cong [OF assms, of vs_inbound_user_id_seen] by (simp add: vs_frame_def)
  show "vs_padding_write_mode s = vs_padding_write_mode t" using arg_cong [OF assms, of vs_padding_write_mode] by (simp add: vs_frame_def)
  show "vs_direct_write_mode s = vs_direct_write_mode t" using arg_cong [OF assms, of vs_direct_write_mode] by (simp add: vs_frame_def)
  show "vs_padding_read_mode s = vs_padding_read_mode t" using arg_cong [OF assms, of vs_padding_read_mode] by (simp add: vs_frame_def)
  show "vs_direct_read_mode s = vs_direct_read_mode t" using arg_cong [OF assms, of vs_direct_read_mode] by (simp add: vs_frame_def)
  show "vs_inner_eof s = vs_inner_eof t" using arg_cong [OF assms, of vs_inner_eof] by (simp add: vs_frame_def)
qed

lemmas filter_tls_packet_keeps [simp] = vs_frameD [OF vs_frame_filter]

lemma parse_header_append: "parse_header (pre @ w) (length pre) = parse_header w 0"
  by (simp add: parse_header_def nth_append numeral_2_eq_2)

lemma parse_header_take: "HEADER_LEN \<le> k \<Longrightarrow> parse_header w 0 = Inr h \<Longrightarrow> parse_header (take k w) 0 = Inr h"
  by (auto simp: parse_header_def HEADER_LEN_def split: if_splits)

lemma parse_header_total: "parse_header w k = Inr h \<Longrightarrow>
    HEADER_LEN \<le> length w \<and> HEADER_LEN + vh_content_len h \<le> vh_total_len h"
  by (auto simp: parse_header_def HEADER_LEN_def Let_def rbind_eq_Inr split: if_splits)

lemma parse_header_command: "parse_header w 0 = Inr h \<Longrightarrow> w ! 0 = vision_code (vh_command h)"
  by (auto simp: parse_header_def HEADER_LEN_def Let_def vision_try_from_def split: if_splits)

lemma unpad_parsed:
  assumes "parse_header w 0 = Inr h" "vh_total_len h \<le> length w" "length uid = USER_ID_LEN" "2 < uid ! 0"
  shows "unpad_vision_block ((if seen then [] else uid) @ take (vh_total_len h) w) uid =
    Inr \<lparr>u_command = vh_command h, u_payload = take (vh_content_len h) (drop HEADER_LEN w)\<rparr>"
proof -
  let ?f = "take (vh_total_len h) w"
  note t = parse_header_total [OF assms(1)]
  have f: "parse_header ?f 0 = Inr h"
    using t by (intro parse_header_take [OF _ assms(1)]) simp
  have p: "take (vh_content_len h) (drop HEADER_LEN ?f) = take (vh_content_len h) (drop HEADER_LEN w)"
    using t by (simp add: drop_take min_absorb1 le_diff_conv2)
  have l: "length ?f = vh_total_len h" using assms(2) by simp
  show ?thesis
  proof (cases seen)
    case True
    have "slice_get ?f 0 USER_ID_LEN \<noteq> Some uid"
    proof
      assume "slice_get ?f 0 USER_ID_LEN = Some uid"
      then have "uid ! 0 = ?f ! 0"
        using t by (auto simp: slice_get_Some USER_ID_LEN_def HEADER_LEN_def)
      then have "uid ! 0 = vision_code (vh_command h)" using parse_header_command [OF f] by simp
      then show False using assms(4) vision_code_le [of "vh_command h"] by auto
    qed
    then have "unpad_offset ?f uid = Inr 0" using f l by (simp add: unpad_offset_def)
    then show ?thesis using True f p l t by (simp add: unpad_vision_block_def)
  next
    case False
    have "unpad_offset (uid @ ?f) uid = Inr USER_ID_LEN"
      using assms(3) by (simp add: unpad_offset_def slice_get_def)
    then show ?thesis
      using False f p l t assms(3) parse_header_append [of uid ?f]
      by (simp add: unpad_vision_block_def)
  qed
qed

lemma next_frame_offset_eq:
  assumes "vs_raw_read s @ rs = pre @ w" "pre = (if vs_inbound_user_id_seen s then [] else vs_user_id s)"
    and "length (vs_user_id s) = USER_ID_LEN"
  shows "next_frame_offset s =
    (if vs_raw_read s = [] \<or> length (vs_raw_read s) < length pre then None else Some (length pre))"
proof (cases "vs_inbound_user_id_seen s")
  case True
  then show ?thesis using assms(2) by (simp add: next_frame_offset_def)
next
  case False
  then have eq: "vs_raw_read s @ rs = vs_user_id s @ w" "pre = vs_user_id s" using assms by simp_all
  have "prefix (vs_raw_read s) (vs_user_id s)" if "length (vs_raw_read s) < USER_ID_LEN"
    using eq(1) that assms(3) by (metis less_imp_le prefixI prefix_length_prefix)
  moreover have "take USER_ID_LEN (vs_raw_read s) = vs_user_id s" if "\<not> length (vs_raw_read s) < USER_ID_LEN"
    using eq(1) that assms(3) prefix_take_eq [of "vs_raw_read s" "vs_user_id s" w]
    by (metis not_less prefixI)
  ultimately show ?thesis using False assms(3) eq(2) by (simp add: next_frame_offset_def)
qed

lemma next_frame_len_eq:
  assumes "vs_raw_read s @ rs = pre @ w" "pre = (if vs_inbound_user_id_seen s then [] else vs_user_id s)"
    and "length (vs_user_id s) = USER_ID_LEN"
  shows "next_frame_len s =
    (if length (vs_raw_read s) < length pre + HEADER_LEN then Inr None
     else (case parse_header w 0 of
         Inl e \<Rightarrow> Inl (vision_to_io e)
       | Inr h \<Rightarrow> if length (vs_raw_read s) < length pre + vh_total_len h then Inr None
                  else Inr (Some (length pre + vh_total_len h))))"
proof (cases "length (vs_raw_read s) < length pre + HEADER_LEN")
  case True
  then show ?thesis by (simp add: next_frame_len_def next_frame_offset_eq [OF assms])
next
  case False
  then have o: "next_frame_offset s = Some (length pre)"
    by (auto simp: next_frame_offset_eq [OF assms] HEADER_LEN_def)
  have n: "vs_raw_read s ! (length pre + i) = w ! i" if "i < 5" for i
  proof -
    have "(vs_raw_read s @ rs) ! (length pre + i) = vs_raw_read s ! (length pre + i)"
      using False that by (simp add: nth_append HEADER_LEN_def)
    then show ?thesis by (simp add: assms(1))
  qed
  have "length (vs_raw_read s) + length rs = length pre + length w"
    using arg_cong [OF assms(1), of length] by simp
  then have "\<not> length w < 5" using False by (simp add: HEADER_LEN_def)
  then show ?thesis
    using False n [of 0] n [of 1] n [of 2] n [of 3] n [of 4] o
    by (cases "vision_try_from (w ! 0)")
      (simp_all add: next_frame_len_def parse_header_def Let_def HEADER_LEN_def numeral_2_eq_2 ac_simps)
qed

lemma vision_content_Nil [simp]: "vision_content [] = Some []"
  by (simp add: vision_content.simps)

lemma vision_contentE:
  assumes "vision_content w = Some xs" "w \<noteq> []"
  obtains h where "parse_header w 0 = Inr h" "vh_total_len h \<le> length w"
    "if vh_command h = VContinue
     then \<exists>ys. vision_content (drop (vh_total_len h) w) = Some ys \<and>
       xs = take (vh_content_len h) (drop HEADER_LEN w) @ ys
     else xs = take (vh_content_len h) (drop HEADER_LEN w) @ drop (vh_total_len h) w"
proof (cases "parse_header w 0")
  case (Inl e)
  then show thesis using assms by (simp add: vision_content.simps [of w])
next
  case (Inr h)
  then have "vh_total_len h \<le> length w"
    using assms by (simp add: vision_content.simps [of w] split: if_splits)
  then show thesis
    using assms Inr by (intro that [OF Inr]) (auto simp: vision_content.simps [of w] Let_def split: if_splits)
qed

text \<open>What a round of the decoder finds: an incomplete block, or a block that it takes off the input.\<close>

lemma decode_cases:
  assumes "vision_expect (vs_inbound_user_id_seen s) (vs_user_id s) (vs_raw_read s @ rs) = Some xs"
    and "length (vs_user_id s) = USER_ID_LEN" "2 < vs_user_id s ! 0"
  obtains (more) "decode_next_frame io s = (Inr False, s)" "rs = [] \<longrightarrow> vs_raw_read s = [] \<and> xs = []"
  | (cont) p k ys s' where "decode_next_frame io s = (Inr True, s')" "0 < k" "length p < k" "k \<le> length (vs_raw_read s)"
      "vs_frame s' = vs_frame (s\<lparr>vs_raw_read := drop k (vs_raw_read s), vs_inbound_user_id_seen := True,
         vs_decoded_read := vs_decoded_read s @ p\<rparr>)"
      "vision_content (drop k (vs_raw_read s) @ rs) = Some ys" "xs = p @ ys"
  | (last) p k d i s' where "decode_next_frame io s = (Inr True, s')" "0 < k" "length p < k" "k \<le> length (vs_raw_read s)"
      "vs_frame s' = vs_frame (s\<lparr>vs_inner := i, vs_inbound_user_id_seen := True, vs_padding_read_mode := False,
         vs_direct_read_mode := d, vs_decoded_read := vs_decoded_read s @ p @ drop k (vs_raw_read s),
         vs_raw_read := []\<rparr>)"
      "i \<in> {vs_inner s, io_release_record_alignment io (vs_inner s)}"
      "xs = p @ drop k (vs_raw_read s) @ rs"
proof -
  let ?raw = "vs_raw_read s" and ?seen = "vs_inbound_user_id_seen s"
  let ?pre = "if ?seen then [] else vs_user_id s"
  show thesis
  proof (cases "?raw @ rs = []")
    case True
    then have "next_frame_len s = Inr None" by (simp add: next_frame_len_def next_frame_offset_def)
    then show thesis
      using True assms(1) by (intro more) (auto simp: decode_next_frame_def vision_expect_def split: if_splits)
  next
    case False
    obtain w where w: "?raw @ rs = ?pre @ w" "w \<noteq> []" "vision_content w = Some xs"
    proof (cases ?seen)
      case True
      then show thesis using assms(1) False by (intro that [of "?raw @ rs"]) (simp_all add: vision_expect_def)
    next
      case not_seen: False
      let ?bs = "?raw @ rs"
      have e: "prefix (vs_user_id s) ?bs" "length (vs_user_id s) < length ?bs"
        "vision_content (drop (length (vs_user_id s)) ?bs) = Some xs"
        using assms(1) False not_seen by (simp_all only: vision_expect_def if_False option.distinct simp_thms split: if_splits)
      show thesis
      proof (rule that)
        show "?bs = ?pre @ drop (length (vs_user_id s)) ?bs"
        proof -
          obtain zs where z: "?bs = vs_user_id s @ zs" using e(1) by (auto simp: prefix_def)
          show ?thesis unfolding z using not_seen by simp
        qed
        show "drop (length (vs_user_id s)) ?bs \<noteq> []" using e(2) by (simp only: drop_eq_Nil not_le)
      qed (rule e(3))
    qed
    obtain h where h: "parse_header w 0 = Inr h" "vh_total_len h \<le> length w"
      "if vh_command h = VContinue
       then \<exists>ys. vision_content (drop (vh_total_len h) w) = Some ys \<and>
         xs = take (vh_content_len h) (drop HEADER_LEN w) @ ys
       else xs = take (vh_content_len h) (drop HEADER_LEN w) @ drop (vh_total_len h) w"
      by (rule vision_contentE [OF w(3,2)])
    let ?k = "length ?pre + vh_total_len h" and ?p = "take (vh_content_len h) (drop HEADER_LEN w)"
    have t: "HEADER_LEN + vh_content_len h \<le> vh_total_len h" using parse_header_total [OF h(1)] by simp
    have len: "length ?raw + length rs = length ?pre + length w"
      using arg_cong [OF w(1), of length] by simp
    show thesis
    proof (cases "length ?raw < ?k")
      case True
      then have "next_frame_len s = Inr None"
        using h(1) t by (simp add: next_frame_len_eq [OF w(1) refl assms(2)])
      then show thesis
        using True len h(2) by (intro more) (auto simp: decode_next_frame_def)
    next
      case k: False
      have nf: "next_frame_len s = Inr (Some ?k)"
        using h(1) t k by (simp add: next_frame_len_eq [OF w(1) refl assms(2)])
      have "take ?k (?raw @ rs) = ?pre @ take (vh_total_len h) w" by (simp add: w(1))
      then have fr: "take ?k ?raw = ?pre @ take (vh_total_len h) w" using k by simp
      have "drop ?k (?raw @ rs) = drop (vh_total_len h) w" by (simp add: w(1))
      then have dr: "drop ?k ?raw @ rs = drop (vh_total_len h) w" using k by simp
      have up: "unpad_vision_block (take ?k ?raw) (vs_user_id s) = Inr \<lparr>u_command = vh_command h, u_payload = ?p\<rparr>"
        unfolding fr by (rule unpad_parsed [OF h(1,2) assms(2,3)])
      have kp: "0 < ?k" "length ?p < ?k" "?k \<le> length ?raw" using t k by (auto simp: HEADER_LEN_def)
      show thesis
      proof (cases "vh_command h = VContinue")
        case True
        then obtain ys where ys: "vision_content (drop ?k ?raw @ rs) = Some ys" "xs = ?p @ ys"
          using h(3) dr by auto
        show thesis
          by (rule cont [OF _ kp _ ys], simp add: decode_next_frame_def nf up True Let_def) simp
      next
        case False
        then have e: "vh_command h \<in> {VEnd, VDirect}" by (cases "vh_command h") auto
        have xs: "xs = ?p @ drop ?k ?raw @ rs" using h(3) dr False by simp
        let ?i = "if vh_command h = VEnd then io_release_record_alignment io (vs_inner s) else vs_inner s"
        show thesis
          by (rule last [OF _ kp _ _ xs, where d = "vh_command h = VDirect" and i = ?i],
              use e in \<open>simp add: decode_next_frame_def nf up Let_def\<close>)
            (use e in auto)
      qed
    qed
  qed
qed

context vision_inner
begin

abbreviation vr_good :: "'s vision_stream \<Rightarrow> bool" where "vr_good \<equiv> vision_read_good good rest"
abbreviation vr_rest :: "'s vision_stream \<Rightarrow> bytes" where "vr_rest \<equiv> vision_read_rest rest"
abbreviation vr_work :: "'s vision_stream \<Rightarrow> nat" where "vr_work \<equiv> vision_read_work rest work"

lemma read_inner_outcome:
  assumes "poll_source rd good rest work" "vr_good s" "\<not> vs_padding_read_mode s" "vs_decoded_read s = []" "0 < n"
  shows "poll_outcome vr_good vr_rest vr_work n s (read_inner rd n s)"
proof -
  have "good (vs_inner s)" using assms(2) by (simp add: vision_read_good_def)
  then show ?thesis
    using \<open>0 < n\<close>
    by (cases rule: poll_source.poll_cases [OF assms(1)])
      (use assms(2-4) in \<open>auto simp: read_inner_def vision_read_good_def vision_read_rest_def vision_read_work_def\<close>)
qed

lemma fill_output_outcome:
  assumes "vr_good s" "fill_output n s = (c, s')" "c \<noteq> []"
  shows "poll_outcome vr_good vr_rest vr_work n s (Ready (Inr c), s')"
  using assms by (auto simp: fill_output_def vision_read_good_def vision_read_rest_def vision_read_work_def)

lemma fill_output_Nil:
  "fill_output n s = (c, s') \<Longrightarrow> c = [] \<Longrightarrow> 0 < n \<Longrightarrow> s' = s \<and> vs_decoded_read s = []"
  by (auto simp: fill_output_def)

text \<open>A round of the decoder on a good state keeps what is to be read and shortens the way.\<close>

lemma decode_round:
  assumes "vr_good s" "vs_padding_read_mode s" "vs_decoded_read s = []"
  obtains (more) "decode_next_frame io s = (Inr False, s)"
      "rest (vs_inner s) = [] \<longrightarrow> vs_raw_read s = [] \<and> vr_rest s = []"
  | (frame) s' where "decode_next_frame io s = (Inr True, s')" "vr_good s'" "vr_rest s' = vr_rest s"
      "vr_work s' < vr_work s" "vs_direct_read_mode s' \<longrightarrow> \<not> vs_padding_read_mode s'"
proof -
  obtain xs where xs: "vision_expect (vs_inbound_user_id_seen s) (vs_user_id s) (vs_raw_read s @ rest (vs_inner s)) = Some xs"
    using assms(1,2) by (auto simp: vision_read_good_def)
  have u: "length (vs_user_id s) = USER_ID_LEN" "2 < vs_user_id s ! 0" and g: "good (vs_inner s)"
    using assms(1) by (simp_all add: vision_read_good_def)
  have rest: "vr_rest s = xs" using assms(2,3) xs by (simp add: vision_read_rest_def)
  from xs u show thesis
  proof (cases rule: decode_cases [where io = io])
    case more
    then show thesis using that(1) rest by simp
  next
    case (cont p k ys s')
    note f = vs_frameD [OF cont(5), simplified]
    show thesis
      by (rule that(2) [OF cont(1)])
        (use cont(2-4,6,7) f assms rest g u xs in \<open>auto simp: vision_read_good_def vision_read_rest_def vision_read_work_def vision_expect_def\<close>)
  next
    case (last p k d i s')
    note f = vs_frameD [OF last(5), simplified]
    have i: "good i" "rest i = rest (vs_inner s)" "work i \<le> work (vs_inner s)"
      using last(6) release [OF g] g by auto
    show thesis
      by (rule that(2) [OF last(1)])
        (use last(2-4,7) f i assms rest g u in \<open>auto simp: vision_read_good_def vision_read_rest_def vision_read_work_def\<close>)
  qed
qed

lemma vision_read_loop_outcome:
  assumes "vr_good s" "vs_padding_read_mode s" "vs_decoded_read s = []" "0 < n"
  shows "\<exists>r. vision_read_loop io n s = Some r \<and> poll_outcome vr_good vr_rest vr_work n s r"
  using assms(1-3)
proof (induction "vr_work s" arbitrary: s rule: less_induct)
  case less
  from less.prems show ?case
  proof (cases rule: decode_round)
    case (frame s')
    obtain c t where ct: "fill_output n s' = (c, t)" by force
    show ?thesis
    proof (cases "c = []")
      case False
      then have "poll_outcome vr_good vr_rest vr_work n s (Ready (Inr c), t)"
        using frame by (intro poll_outcome_trans [OF fill_output_outcome [OF frame(2) ct]]) auto
      then show ?thesis using frame(1) ct False by (simp add: vision_read_loop.simps [of io n s])
    next
      case True
      then have t: "t = s'" "vs_decoded_read s' = []" using fill_output_Nil [OF ct] \<open>0 < n\<close> by auto
      show ?thesis
      proof (cases "vs_padding_read_mode s'")
        case pad: True
        obtain r where r: "vision_read_loop io n s' = Some r" "poll_outcome vr_good vr_rest vr_work n s' r"
          using less.hyps [OF frame(4,2) pad t(2)] by blast
        then have "poll_outcome vr_good vr_rest vr_work n s r"
          using frame by (intro poll_outcome_trans [OF r(2)]) auto
        then show ?thesis
          using frame ct True t r pad \<open>0 < n\<close> by (auto simp: vision_read_loop.simps [of io n s])
      next
        case False
        have "poll_outcome vr_good vr_rest vr_work n s (read_inner (io_read io) n s')"
          "poll_outcome vr_good vr_rest vr_work n s (read_inner (io_read_direct io) n s')"
          using frame False t \<open>0 < n\<close>
          by (auto intro!: poll_outcome_trans [OF read_inner_outcome [OF plain.poll_source_axioms]]
              poll_outcome_trans [OF read_inner_outcome [OF direct.poll_source_axioms]])
        then show ?thesis
          using frame(1) ct True t False \<open>0 < n\<close>
          by (cases "read_inner (io_read io) n s'"; cases "read_inner (io_read_direct io) n s'")
            (simp add: vision_read_loop.simps [of io n s])
      qed
    qed
  next
    case more
    show ?thesis
    proof (cases "vs_inner_eof s")
      case True
      then have "vr_rest s = []" using more(2) less.prems by (simp add: vision_read_good_def)
      then show ?thesis using True more(1) less.prems by (simp add: vision_read_loop.simps [of io n s])
    next
      case False
      have "good (vs_inner s)" "0 < READ_CHUNK_LEN"
        using less.prems(1) by (simp_all add: vision_read_good_def READ_CHUNK_LEN_def)
      then show ?thesis
      proof (cases rule: plain.poll_cases)
        case (pending i)
        then show ?thesis
          using False more(1) less.prems
          by (simp add: vision_read_loop.simps [of io n s] read_inner_def vision_read_good_def
              vision_read_rest_def vision_read_work_def)
      next
        case (eof i)
        then show ?thesis
          using False more less.prems
          by (auto simp: vision_read_loop.simps [of io n s] read_inner_def vision_read_good_def
              vision_read_rest_def vision_read_work_def Let_def)
      next
        case (bytes c i)
        let ?t = "s\<lparr>vs_inner := i, vs_raw_read := vs_raw_read s @ c\<rparr>"
        have t: "vr_work ?t < vr_work s" "vr_good ?t" "vr_rest ?t = vr_rest s"
          using bytes less.prems False by (simp_all add: vision_read_good_def vision_read_rest_def vision_read_work_def)
        obtain r where r: "vision_read_loop io n ?t = Some r" "poll_outcome vr_good vr_rest vr_work n ?t r"
          using less.hyps [OF t(1,2)] less.prems by auto
        have "vision_read_loop io n s = Some r"
          using bytes False more(1) r(1) by (simp add: vision_read_loop.simps [of io n s] read_inner_def)
        moreover have "poll_outcome vr_good vr_rest vr_work n s r"
          using t by (intro poll_outcome_trans [OF r(2)]) auto
        ultimately show ?thesis by simp
      qed
    qed
  qed
qed

lemma vision_read_source: "poll_source (returning (vision_poll_read io)) vr_good vr_rest vr_work"
proof
  fix s n assume g: "vr_good s" and n: "0 < (n :: nat)"
  obtain c t where ct: "fill_output n s = (c, t)" by force
  show "poll_outcome vr_good vr_rest vr_work n s (returning (vision_poll_read io) n s)"
  proof (cases "c = []")
    case False
    then show ?thesis
      using fill_output_outcome [OF g ct] ct by (simp add: returning_def vision_poll_read_def)
  next
    case True
    then have t: "t = s" "vs_decoded_read s = []" using fill_output_Nil [OF ct] n by auto
    show ?thesis
    proof (cases "vs_padding_read_mode s")
      case pad: True
      then have "\<not> vs_direct_read_mode s" using g by (simp add: vision_read_good_def)
      then show ?thesis
        using vision_read_loop_outcome [OF g pad t(2) n] ct True t pad n
        by (auto simp: returning_def vision_poll_read_def)
    next
      case False
      then show ?thesis
        using read_inner_outcome [OF plain.poll_source_axioms g False t(2) n]
          read_inner_outcome [OF direct.poll_source_axioms g False t(2) n] ct True t n
        by (simp add: returning_def vision_poll_read_def)
    qed
  qed
qed

lemma vision_read_all:
  assumes "good i" "rest i = uid @ w" "w \<noteq> []" "vision_content w = Some content"
    and "length uid = USER_ID_LEN" "2 < uid ! 0" "0 < n" "work i + length (rest i) < polls"
  shows "poll_to_end (returning (vision_poll_read io)) n polls (vision_stream_new i uid seed) = Some (Inr content)"
proof -
  have "vr_good (vision_stream_new i uid seed)" "vr_rest (vision_stream_new i uid seed) = content"
    "vr_work (vision_stream_new i uid seed) < polls"
    using assms
    by (simp_all add: vision_read_good_def vision_read_rest_def vision_read_work_def vision_stream_new_def vision_expect_def)
  then show ?thesis using poll_source.poll_to_end_rest [OF vision_read_source _ assms(7)] by metis
qed

end

section \<open>The filter stays in range\<close>

definition filter_range :: "'s vision_stream \<Rightarrow> bool" where
  "filter_range s \<longleftrightarrow> vs_packets_to_filter s \<le> 8 \<and>
     - 65535 \<le> vs_remaining_server_hello s \<and> vs_remaining_server_hello s \<le> 65540"



end
