(* ===== verification/Xr_Vision_Write.thy ===== *)
theory Xr_Vision_Write
  imports Xr_Vision_Stream
begin

text \<open>
  The writing half of \<open>crates/xray-proxy/src/vless/vision_stream.rs\<close>, and that a Vision stream reads what
  another one wrote. \<open>vision_sink\<close> is what the writer relies on of the transport below.
\<close>

section \<open>Writing\<close>

definition queue_padded_write ::
    "(u32 \<Rightarrow> nat) \<Rightarrow> bytes \<Rightarrow> vision_command \<Rightarrow> bool \<Rightarrow> 's vision_stream \<Rightarrow> (io_error + unit) \<times> 's vision_stream" where
  "queue_padded_write gen_range input command long_padding s =
     (case pad_into_with_long_padding gen_range input command long_padding 0 (vs_pending_write s) (vs_padding s) of
        (Inl e, vp) \<Rightarrow> (Inl (vision_to_io e), s\<lparr>vs_padding := vp\<rparr>)
      | (Inr out, vp) \<Rightarrow> (Inr (), s\<lparr>vs_padding := vp, vs_pending_write := out\<rparr>))"

definition queue_empty_padding_frame ::
    "(u32 \<Rightarrow> nat) \<Rightarrow> 's vision_stream \<Rightarrow> (io_error + unit) \<times> 's vision_stream" where
  "queue_empty_padding_frame gen_range s = queue_padded_write gen_range [] VContinue True s"

function poll_drain_pending ::
    "'s vision_io \<Rightarrow> 's vision_stream \<Rightarrow> (io_error + unit) poll \<times> 's vision_stream" where
  "poll_drain_pending io s =
     (if vs_pending_write s \<noteq> [] then
        (case io_write io (vs_pending_write s) (vs_inner s) of
           (Pending, i) \<Rightarrow> (Pending, s\<lparr>vs_inner := i\<rparr>)
         | (Ready (Inl e), i) \<Rightarrow> (Ready (Inl e), s\<lparr>vs_inner := i\<rparr>)
         | (Ready (Inr written), i) \<Rightarrow>
             if written = 0
             then (Ready (Inl (Io WriteZero ''failed to write vision frame'')), s\<lparr>vs_inner := i\<rparr>)
             else poll_drain_pending io
               (s\<lparr>vs_inner := i, vs_pending_write := drop written (vs_pending_write s)\<rparr>))
      else if vs_pending_direct_write_mode s then
        (case io_flush io (vs_inner s) of
           (Pending, i) \<Rightarrow> (Pending, s\<lparr>vs_inner := i\<rparr>)
         | (Ready (Inl e), i) \<Rightarrow> (Ready (Inl e), s\<lparr>vs_inner := i\<rparr>)
         | (Ready (Inr _), i) \<Rightarrow>
             (Ready (Inr ()),
              s\<lparr>vs_inner := i, vs_padding_write_mode := False, vs_direct_write_mode := True,
                vs_pending_direct_write_mode := False\<rparr>))
      else if vs_pending_end_write_mode s then
        (Ready (Inr ()), s\<lparr>vs_padding_write_mode := False, vs_pending_end_write_mode := False\<rparr>)
      else (Ready (Inr ()), s))"
  by pat_completeness auto
termination
  by (relation "measure (\<lambda>(io, s). length (vs_pending_write s))") auto

declare poll_drain_pending.simps [simp del]

text \<open>The frame that \<open>poll_write\<close> queues for input in padding mode.\<close>

definition queue_input ::
    "(u32 \<Rightarrow> nat) \<Rightarrow> bytes \<Rightarrow> 's vision_stream \<Rightarrow> (io_error + unit) \<times> 's vision_stream" where
  "queue_input gen_range input s =
     (if vs_is_tls s \<and> is_complete_tls_application_data_records input then
        if vs_enable_xtls s then
          (case queue_padded_write gen_range input VDirect True s of
             (Inl e, s) \<Rightarrow> (Inl e, s)
           | (Inr _, s) \<Rightarrow> (Inr (), s\<lparr>vs_pending_direct_write_mode := True\<rparr>))
        else
          (case queue_padded_write gen_range input VEnd True s of
             (Inl e, s) \<Rightarrow> (Inl e, s)
           | (Inr _, s) \<Rightarrow> (Inr (), s\<lparr>vs_pending_end_write_mode := True\<rparr>))
      else if \<not> vs_is_tls12_or_above s \<and> vs_packets_to_filter s \<le> 1 then
        (case queue_padded_write gen_range input VEnd (vs_is_tls s) s of
           (Inl e, s) \<Rightarrow> (Inl e, s)
         | (Inr _, s) \<Rightarrow> (Inr (), s\<lparr>vs_pending_end_write_mode := True\<rparr>))
      else queue_padded_write gen_range input VContinue (vs_is_tls s) s)"

definition write_inner ::
    "(bytes \<Rightarrow> 's \<Rightarrow> (io_error + nat) poll \<times> 's) \<Rightarrow> bytes \<Rightarrow> 's vision_stream \<Rightarrow>
     (io_error + nat) poll \<times> 's vision_stream" where
  "write_inner wr input s = (case wr input (vs_inner s) of (r, i) \<Rightarrow> (r, s\<lparr>vs_inner := i\<rparr>))"

text \<open>\<open>poll_write\<close> once nothing is left over from the call before.\<close>

definition vision_write_input ::
    "'s vision_io \<Rightarrow> (u32 \<Rightarrow> nat) \<Rightarrow> bytes \<Rightarrow> 's vision_stream \<Rightarrow> (io_error + nat) poll \<times> 's vision_stream" where
  "vision_write_input io gen_range input s =
     (if vs_pending_write_len s \<noteq> 0
      then (Ready (Inr (vs_pending_write_len s)), s\<lparr>vs_pending_write_len := 0\<rparr>)
      else if vs_direct_write_mode s then write_inner (io_write_direct io) input s
      else if \<not> vs_padding_write_mode s then write_inner (io_write io) input s
      else if input = [] then (Ready (Inr 0), s)
      else
        let accepted_len = min (length input) MAX_CONTENT_LEN; input = take accepted_len input
        in (case queue_input gen_range input (filter_tls_packet input s) of
              (Inl e, s) \<Rightarrow> (Ready (Inl e), s)
            | (Inr _, s) \<Rightarrow>
                (case poll_drain_pending io (s\<lparr>vs_pending_write_len := accepted_len\<rparr>) of
                   (Pending, s) \<Rightarrow> (Pending, s)
                 | (Ready (Inl e), s) \<Rightarrow> (Ready (Inl e), s)
                 | (Ready (Inr _), s) \<Rightarrow>
                     (Ready (Inr (vs_pending_write_len s)), s\<lparr>vs_pending_write_len := 0\<rparr>))))"

definition vision_poll_write ::
    "'s vision_io \<Rightarrow> (u32 \<Rightarrow> nat) \<Rightarrow> bytes \<Rightarrow> 's vision_stream \<Rightarrow> (io_error + nat) poll \<times> 's vision_stream" where
  "vision_poll_write io gen_range input s =
     (if vs_pending_write s \<noteq> [] \<or> vs_pending_direct_write_mode s \<or> vs_pending_end_write_mode s then
        (case poll_drain_pending io s of
           (Pending, s) \<Rightarrow> (Pending, s)
         | (Ready (Inl e), s) \<Rightarrow> (Ready (Inl e), s)
         | (Ready (Inr _), s) \<Rightarrow> vision_write_input io gen_range input s)
      else vision_write_input io gen_range input s)"

definition vision_poll_flush ::
    "'s vision_io \<Rightarrow> 's vision_stream \<Rightarrow> (io_error + unit) poll \<times> 's vision_stream" where
  "vision_poll_flush io s =
     (case poll_drain_pending io s of
        (Pending, s) \<Rightarrow> (Pending, s)
      | (Ready (Inl e), s) \<Rightarrow> (Ready (Inl e), s)
      | (Ready (Inr _), s) \<Rightarrow>
          (case (if vs_direct_write_mode s then io_flush_direct io else io_flush io) (vs_inner s) of
             (r, i) \<Rightarrow> (r, s\<lparr>vs_inner := i\<rparr>)))"

definition vision_poll_shutdown ::
    "'s vision_io \<Rightarrow> 's vision_stream \<Rightarrow> (io_error + unit) poll \<times> 's vision_stream" where
  "vision_poll_shutdown io s =
     (case poll_drain_pending io s of
        (Pending, s) \<Rightarrow> (Pending, s)
      | (Ready (Inl e), s) \<Rightarrow> (Ready (Inl e), s)
      | (Ready (Inr _), s) \<Rightarrow>
          (case (if vs_direct_write_mode s then io_shutdown_direct io else io_shutdown io) (vs_inner s) of
             (r, i) \<Rightarrow> (r, s\<lparr>vs_inner := i\<rparr>)))"

text \<open>\<open>write_all\<close>: the executor's loop; a poll that is not ready is repeated with the same data.\<close>

fun vision_write_all ::
    "'s vision_io \<Rightarrow> (nat \<Rightarrow> u32 \<Rightarrow> nat) \<Rightarrow> nat \<Rightarrow> bytes \<Rightarrow> 's vision_stream \<Rightarrow>
     ((io_error + unit) \<times> 's vision_stream) option" where
  "vision_write_all io rng 0 input s = None"
| "vision_write_all io rng (Suc k) input s =
     (if input = [] then Some (Inr (), s)
      else (case vision_poll_write io (rng k) input s of
          (Pending, s) \<Rightarrow> vision_write_all io rng k input s
        | (Ready (Inl e), s) \<Rightarrow> Some (Inl e, s)
        | (Ready (Inr n), s) \<Rightarrow>
            if n = 0 then Some (Inl (Io WriteZero ''failed to write whole buffer''), s)
            else vision_write_all io rng k (drop n input) s))"

section \<open>The writer encodes\<close>

text \<open>
  Bytes that stand for \<open>acc\<close> and leave the padding on, or have ended it, whatever follows.
\<close>

definition open_content :: "bytes \<Rightarrow> bytes \<Rightarrow> bool" where
  "open_content w acc \<longleftrightarrow> (\<forall>v. vision_content (w @ v) = map_option ((@) acc) (vision_content v))"

definition closed_content :: "bytes \<Rightarrow> bytes \<Rightarrow> bool" where
  "closed_content w acc \<longleftrightarrow> (\<forall>v. vision_content (w @ v) = Some (acc @ v))"

lemma vision_content_block:
  assumes "length p \<le> MAX_CONTENT_LEN" "n \<le> MAX_CONTENT_LEN"
  shows "vision_content (vision_block c p n @ v) =
    (if c = VContinue then map_option ((@) p) (vision_content v) else Some (p @ v))"
proof -
  note ph = parse_header_block [OF assms, of "[]" c v, simplified]
  have "vision_block c p n \<noteq> []" by (simp add: vision_block_def)
  moreover have "take (length p) (drop HEADER_LEN (vision_block c p n @ v)) = p"
    by (simp add: vision_block_def HEADER_LEN_def)
  ultimately show ?thesis
    by (simp add: vision_content.simps [of "vision_block c p n @ v"] ph Let_def)
qed

lemma map_option_append_Nil [simp]: "map_option ((@) []) x = x"
  by (cases x) simp_all

lemma open_content_Nil [simp]: "open_content [] acc \<longleftrightarrow> acc = []"
proof
  assume "open_content [] acc"
  then have "vision_content ([] @ []) = map_option ((@) acc) (vision_content [])" unfolding open_content_def by blast
  then show "acc = []" by simp
next
  show "acc = [] \<Longrightarrow> open_content [] acc" by (simp add: open_content_def map_option_append_Nil)
qed

lemma open_content_snoc:
  assumes "open_content w acc" "length p \<le> MAX_CONTENT_LEN" "n \<le> MAX_CONTENT_LEN"
  shows "open_content (w @ vision_block VContinue p n) (acc @ p)"
    and "c \<noteq> VContinue \<Longrightarrow> closed_content (w @ vision_block c p n) (acc @ p)"
  using assms
  by (auto simp: open_content_def closed_content_def vision_content_block option.map_comp comp_def
      intro!: option.map_cong0)

lemma closed_content_append: "closed_content w acc \<Longrightarrow> closed_content (w @ v) (acc @ v)"
  by (simp add: closed_content_def)

lemma content_of: "open_content w acc \<or> closed_content w acc \<Longrightarrow> vision_content w = Some acc"
  unfolding open_content_def closed_content_def by (metis append_Nil2 option.map(2) vision_content_Nil)

fun write_outcome ::
    "('s \<Rightarrow> bool) \<Rightarrow> ('s \<Rightarrow> bytes) \<Rightarrow> ('s \<Rightarrow> nat) \<Rightarrow> bytes \<Rightarrow> 's \<Rightarrow> (io_error + nat) poll \<times> 's \<Rightarrow> bool" where
  "write_outcome live sent patience bs s (Pending, s') \<longleftrightarrow> live s' \<and> sent s' = sent s \<and> patience s' < patience s"
| "write_outcome live sent patience bs s (Ready (Inl e), s') \<longleftrightarrow> False"
| "write_outcome live sent patience bs s (Ready (Inr n), s') \<longleftrightarrow>
     live s' \<and> 0 < n \<and> n \<le> length bs \<and> sent s' = sent s @ take n bs \<and> patience s' \<le> patience s"

fun flush_outcome ::
    "('s \<Rightarrow> bool) \<Rightarrow> ('s \<Rightarrow> bytes) \<Rightarrow> ('s \<Rightarrow> nat) \<Rightarrow> 's \<Rightarrow> (io_error + unit) poll \<times> 's \<Rightarrow> bool" where
  "flush_outcome live sent patience s (Pending, s') \<longleftrightarrow> live s' \<and> sent s' = sent s \<and> patience s' < patience s"
| "flush_outcome live sent patience s (Ready (Inl e), s') \<longleftrightarrow> False"
| "flush_outcome live sent patience s (Ready (Inr u), s') \<longleftrightarrow> live s' \<and> sent s' = sent s \<and> patience s' \<le> patience s"

text \<open>What the writer has handed over or holds: behind \<open>base\<close>, which ends with the user id, the encoding of \<open>acc\<close>.\<close>

definition vision_idle :: "'s vision_stream \<Rightarrow> bool" where
  "vision_idle s \<longleftrightarrow>
     vs_pending_write s = [] \<and> \<not> vs_pending_direct_write_mode s \<and> \<not> vs_pending_end_write_mode s"

definition vision_wrote :: "bytes \<Rightarrow> bytes \<Rightarrow> bytes \<Rightarrow> 's vision_stream \<Rightarrow> bool" where
  "vision_wrote base out acc s \<longleftrightarrow>
     (if vp_user_id_emitted (vs_padding s)
      then \<exists>w. w \<noteq> [] \<and> out = base @ w \<and>
        (if vs_padding_write_mode s \<and> \<not> vs_pending_direct_write_mode s \<and> \<not> vs_pending_end_write_mode s
         then open_content w acc else closed_content w acc)
      else out @ vs_user_id s = base \<and> acc = [] \<and> vision_idle s \<and> vs_padding_write_mode s)"

definition vision_write_good :: "('s \<Rightarrow> bool) \<Rightarrow> ('s \<Rightarrow> bytes) \<Rightarrow> bytes \<Rightarrow> bytes \<Rightarrow> 's vision_stream \<Rightarrow> bool" where
  "vision_write_good live sent base acc s \<longleftrightarrow>
     live (vs_inner s) \<and> vp_user_id (vs_padding s) = vs_user_id s \<and>
     (if vs_padding_write_mode s then \<not> vs_direct_write_mode s else vision_idle s) \<and>
     \<not> (vs_pending_direct_write_mode s \<and> vs_pending_end_write_mode s) \<and>
     vision_wrote base (sent (vs_inner s) @ vs_pending_write s) acc s"

locale vision_sink =
  fixes io :: "'s vision_io" and live :: "'s \<Rightarrow> bool" and sent :: "'s \<Rightarrow> bytes" and patience :: "'s \<Rightarrow> nat"
  assumes sink_write: "live s \<Longrightarrow> bs \<noteq> [] \<Longrightarrow> write_outcome live sent patience bs s (io_write io bs s)"
    and sink_write_direct: "live s \<Longrightarrow> bs \<noteq> [] \<Longrightarrow> write_outcome live sent patience bs s (io_write_direct io bs s)"
    and sink_flush: "live s \<Longrightarrow> flush_outcome live sent patience s (io_flush io s)"
begin

abbreviation vw_good :: "bytes \<Rightarrow> bytes \<Rightarrow> 's vision_stream \<Rightarrow> bool" where
  "vw_good \<equiv> vision_write_good live sent"

lemma write_cases:
  assumes "write_outcome live sent patience bs s r"
  obtains (wait) s' where "r = (Pending, s')" "live s'" "sent s' = sent s" "patience s' < patience s"
  | (took) n s' where "r = (Ready (Inr n), s')" "live s'" "0 < n" "n \<le> length bs"
      "sent s' = sent s @ take n bs" "patience s' \<le> patience s"
  using assms by (cases "(live, sent, patience, bs, s, r)" rule: write_outcome.cases) auto

lemma flush_cases:
  assumes "live s"
  obtains (wait) s' where "io_flush io s = (Pending, s')" "live s'" "sent s' = sent s" "patience s' < patience s"
  | (flushed) u s' where "io_flush io s = (Ready (Inr u), s')" "live s'" "sent s' = sent s" "patience s' \<le> patience s"
  using sink_flush [OF assms]
  by (cases "(live, sent, patience, s, io_flush io s)" rule: flush_outcome.cases) auto

lemma vw_good_inner:
  "vw_good base acc s \<Longrightarrow> live i \<Longrightarrow> sent i = sent (vs_inner s) \<Longrightarrow> vw_good base acc (s\<lparr>vs_inner := i\<rparr>)"
  by (auto simp: vision_write_good_def vision_wrote_def vision_idle_def split: if_splits)

lemma vw_good_direct:
  "vw_good base acc s \<Longrightarrow> live i \<Longrightarrow> sent i = sent (vs_inner s) \<Longrightarrow> vs_pending_direct_write_mode s \<Longrightarrow>
   vs_pending_write s = [] \<Longrightarrow>
   vw_good base acc (s\<lparr>vs_inner := i, vs_padding_write_mode := False, vs_direct_write_mode := True,
     vs_pending_direct_write_mode := False\<rparr>)"
  by (auto simp: vision_write_good_def vision_wrote_def vision_idle_def split: if_splits)

lemma vw_good_end:
  "vw_good base acc s \<Longrightarrow> vs_pending_end_write_mode s \<Longrightarrow> vs_pending_write s = [] \<Longrightarrow>
   vw_good base acc (s\<lparr>vs_padding_write_mode := False, vs_pending_end_write_mode := False\<rparr>)"
  by (auto simp: vision_write_good_def vision_wrote_def vision_idle_def split: if_splits)

lemma drain_cases:
  assumes "vw_good base acc s"
  obtains (wait) s' where "poll_drain_pending io s = (Pending, s')" "vw_good base acc s'"
      "patience (vs_inner s') < patience (vs_inner s)" "vs_pending_write_len s' = vs_pending_write_len s"
  | (idle) s' where "poll_drain_pending io s = (Ready (Inr ()), s')" "vw_good base acc s'" "vision_idle s'"
      "patience (vs_inner s') \<le> patience (vs_inner s)" "vs_pending_write_len s' = vs_pending_write_len s"
  using assms
proof (induction "length (vs_pending_write s)" arbitrary: s thesis rule: less_induct)
  case less
  note g = less.prems(3)
  have live: "live (vs_inner s)" using g by (simp add: vision_write_good_def)
  show thesis
  proof (cases "vs_pending_write s = []")
    case False
    from sink_write [OF live False] show thesis
    proof (cases rule: write_cases)
      case (wait i)
      then show thesis
        using False by (intro less.prems(1) [OF _ vw_good_inner [OF g wait(2,3)]])
          (simp_all add: poll_drain_pending.simps [of io s])
    next
      case (took n i)
      let ?t = "s\<lparr>vs_inner := i, vs_pending_write := drop n (vs_pending_write s)\<rparr>"
      have eq: "poll_drain_pending io s = poll_drain_pending io ?t"
        using took False by (simp add: poll_drain_pending.simps [of io s])
      have t: "vw_good base acc ?t"
        using took g False by (auto simp: vision_write_good_def vision_wrote_def vision_idle_def split: if_splits)
      show thesis
      proof (rule less.hyps [OF _ _ _ t])
        show "length (vs_pending_write ?t) < length (vs_pending_write s)" using took False by simp
      next
        fix s' assume "poll_drain_pending io ?t = (Pending, s')" "vw_good base acc s'"
          "patience (vs_inner s') < patience (vs_inner ?t)" "vs_pending_write_len s' = vs_pending_write_len ?t"
        then show thesis using less.prems(1) [of s'] eq took by simp
      next
        fix s' assume "poll_drain_pending io ?t = (Ready (Inr ()), s')" "vw_good base acc s'" "vision_idle s'"
          "patience (vs_inner s') \<le> patience (vs_inner ?t)" "vs_pending_write_len s' = vs_pending_write_len ?t"
        then show thesis using less.prems(2) [of s'] eq took by simp
      qed
    qed
  next
    case empty: True
    show thesis
    proof (cases "vs_pending_direct_write_mode s")
      case True
      from live show thesis
      proof (cases rule: flush_cases)
        case (wait i)
        then show thesis
          using empty True by (intro less.prems(1) [OF _ vw_good_inner [OF g wait(2,3)]])
            (simp_all add: poll_drain_pending.simps [of io s])
      next
        case (flushed u i)
        have "\<not> vs_pending_end_write_mode s" using g True by (simp add: vision_write_good_def)
        then have "vision_idle (s\<lparr>vs_inner := i, vs_padding_write_mode := False, vs_direct_write_mode := True,
            vs_pending_direct_write_mode := False\<rparr>)"
          using empty by (simp add: vision_idle_def)
        then show thesis
          using flushed empty True
          by (intro less.prems(2) [OF _ vw_good_direct [OF g flushed(2,3) True empty]])
            (simp_all add: poll_drain_pending.simps [of io s])
      qed
    next
      case direct: False
      show thesis
      proof (cases "vs_pending_end_write_mode s")
        case True
        show thesis
          by (rule less.prems(2) [OF _ vw_good_end [OF g True empty]])
            (use direct True empty in \<open>simp_all add: poll_drain_pending.simps [of io s] vision_idle_def\<close>)
      next
        case False
        show thesis
          by (rule less.prems(2) [OF _ g])
            (use direct False empty in \<open>simp_all add: poll_drain_pending.simps [of io s] vision_idle_def\<close>)
      qed
    qed
  qed
qed

end

text \<open>Queueing input in padding mode appends its frame.\<close>

lemma queue_padded_write_eq:
  assumes "length p \<le> MAX_CONTENT_LEN"
  obtains n where "n \<le> MAX_CONTENT_LEN"
    "queue_padded_write gen_range p c long s = (Inr (), s\<lparr>vs_padding := (vs_padding s)\<lparr>vp_user_id_emitted := True\<rparr>,
      vs_pending_write := vs_pending_write s @
        (if vp_user_id_emitted (vs_padding s) then [] else vp_user_id (vs_padding s)) @ vision_block c p n\<rparr>)"
  by (rule that [OF padding_len_le]) (simp add: queue_padded_write_def pad_into_block [OF assms])

text \<open>The state after queueing a frame, with the modes that take effect once it is written.\<close>

definition vision_queued ::
    "vision_command \<Rightarrow> bytes \<Rightarrow> nat \<Rightarrow> bool \<Rightarrow> bool \<Rightarrow> 's vision_stream \<Rightarrow> 's vision_stream" where
  "vision_queued c p n d e s =
     s\<lparr>vs_padding := (vs_padding s)\<lparr>vp_user_id_emitted := True\<rparr>,
       vs_pending_write := vs_pending_write s @
         (if vp_user_id_emitted (vs_padding s) then [] else vp_user_id (vs_padding s)) @ vision_block c p n,
       vs_pending_direct_write_mode := d, vs_pending_end_write_mode := e\<rparr>"

lemma queue_input_eq:
  assumes "length p \<le> MAX_CONTENT_LEN" "vision_idle s"
  obtains c n d e where "queue_input gen_range p s = (Inr (), vision_queued c p n d e s)"
    "n \<le> MAX_CONTENT_LEN" "(c = VContinue) \<longleftrightarrow> \<not> d \<and> \<not> e" "\<not> (d \<and> e)"
proof -
  have flags: "s\<lparr>vs_pending_direct_write_mode := False\<rparr> = s" "s\<lparr>vs_pending_end_write_mode := False\<rparr> = s"
    using assms(2) by (simp_all add: vision_idle_def)
  have q: "\<exists>n. n \<le> MAX_CONTENT_LEN \<and>
      queue_padded_write gen_range p c long s = (Inr (), vision_queued c p n False False s)" for c long
  proof (rule queue_padded_write_eq [OF assms(1), of gen_range c long s])
    fix n assume "n \<le> MAX_CONTENT_LEN" "queue_padded_write gen_range p c long s =
      (Inr (), s\<lparr>vs_padding := (vs_padding s)\<lparr>vp_user_id_emitted := True\<rparr>,
      vs_pending_write := vs_pending_write s @
        (if vp_user_id_emitted (vs_padding s) then [] else vp_user_id (vs_padding s)) @ vision_block c p n\<rparr>)"
    then show ?thesis
      using assms(2) by (cases s) (auto simp: vision_queued_def vision_idle_def)
  qed
  have [simp]: "(vision_queued c p n False False s)\<lparr>vs_pending_direct_write_mode := True\<rparr> = vision_queued c p n True False s"
      "(vision_queued c p n False False s)\<lparr>vs_pending_end_write_mode := True\<rparr> = vision_queued c p n False True s" for c n
    by (simp_all add: vision_queued_def)
  consider "vs_is_tls s \<and> is_complete_tls_application_data_records p" "vs_enable_xtls s"
    | "vs_is_tls s \<and> is_complete_tls_application_data_records p" "\<not> vs_enable_xtls s"
    | "\<not> (vs_is_tls s \<and> is_complete_tls_application_data_records p)" "\<not> vs_is_tls12_or_above s \<and> vs_packets_to_filter s \<le> 1"
    | "\<not> (vs_is_tls s \<and> is_complete_tls_application_data_records p)" "\<not> (\<not> vs_is_tls12_or_above s \<and> vs_packets_to_filter s \<le> 1)"
    by blast
  then show thesis
  proof cases
    case 1
    then show thesis using q [of VDirect True] that [of VDirect _ True False] by (auto simp: queue_input_def)
  next
    case 2
    then show thesis using q [of VEnd True] that [of VEnd _ False True] by (auto simp: queue_input_def)
  next
    case 3
    then show thesis using q [of VEnd "vs_is_tls s"] that [of VEnd _ False True] by (auto simp: queue_input_def)
  next
    case 4
    then show thesis using q [of VContinue "vs_is_tls s"] that [of VContinue _ False False] by (auto simp: queue_input_def)
  qed
qed

context vision_sink
begin

lemma queued_good:
  assumes "vw_good base acc s" "vs_padding_write_mode s" "vision_idle s"
    and "length p \<le> MAX_CONTENT_LEN" "n \<le> MAX_CONTENT_LEN" "(c = VContinue) \<longleftrightarrow> \<not> d \<and> \<not> e" "\<not> (d \<and> e)"
  shows "vw_good base (acc @ p) (vision_queued c p n d e s)"
proof -
  obtain w where w: "open_content w acc"
    "sent (vs_inner s) @ (if vp_user_id_emitted (vs_padding s) then [] else vs_user_id s) = base @ w"
    using assms(1-3) unfolding vision_write_good_def vision_wrote_def vision_idle_def by (auto split: if_splits)
  have b: "vision_block c p n \<noteq> []" by (simp add: vision_block_def)
  have "if \<not> d \<and> \<not> e then open_content (w @ vision_block c p n) (acc @ p)
      else closed_content (w @ vision_block c p n) (acc @ p)"
    using open_content_snoc [OF w(1) assms(4,5)] assms(6) by auto
  then show ?thesis
    using w(2) b assms(1-3,7)
    unfolding vision_write_good_def vision_wrote_def vision_idle_def vision_queued_def
    by (auto intro!: exI [of _ "w @ vision_block c p n"])
qed

lemma filter_good [simp]: "vw_good base acc (filter_tls_packet p s) = vw_good base acc s"
  by (simp add: vision_write_good_def vision_wrote_def vision_idle_def)

lemma good_len [simp]: "vw_good base acc (s\<lparr>vs_pending_write_len := n\<rparr>) = vw_good base acc s"
  by (simp add: vision_write_good_def vision_wrote_def vision_idle_def)

text \<open>
  A state between two polls of \<open>write_all\<close>: \<open>acc\<close> has been taken, of the data that the caller still
  holds the first \<open>pending_write_len\<close> bytes are among it.
\<close>

definition between :: "bytes \<Rightarrow> bytes \<Rightarrow> bytes \<Rightarrow> 's vision_stream \<Rightarrow> bool" where
  "between base whole input s \<longleftrightarrow>
     (\<exists>acc. vw_good base acc s \<and> acc @ drop (vs_pending_write_len s) input = whole) \<and>
     vs_pending_write_len s \<le> length input \<and> (vs_pending_write_len s = 0 \<longrightarrow> vision_idle s)"

fun poll_write_outcome ::
    "bytes \<Rightarrow> bytes \<Rightarrow> bytes \<Rightarrow> 's vision_stream \<Rightarrow> (io_error + nat) poll \<times> 's vision_stream \<Rightarrow> bool" where
  "poll_write_outcome base whole input s (Pending, s') \<longleftrightarrow>
     between base whole input s' \<and> patience (vs_inner s') < patience (vs_inner s)"
| "poll_write_outcome base whole input s (Ready (Inl e), s') \<longleftrightarrow> False"
| "poll_write_outcome base whole input s (Ready (Inr n), s') \<longleftrightarrow>
     0 < n \<and> n \<le> length input \<and> vs_pending_write_len s' = 0 \<and> between base whole (drop n input) s' \<and>
     patience (vs_inner s') \<le> patience (vs_inner s)"

lemma write_inner_outcome:
  assumes "write_outcome live sent patience input (vs_inner s) (wr input (vs_inner s))" "vw_good base acc s"
    "vision_idle s" "\<not> vs_padding_write_mode s" "vs_pending_write_len s = 0" "acc @ input = whole"
  shows "poll_write_outcome base whole input s (write_inner wr input s)"
  using assms(1)
proof (cases rule: write_cases)
  case (wait i)
  then show ?thesis
    using vw_good_inner [OF assms(2) wait(2,3)] assms(3,5,6)
    by (auto simp: write_inner_def between_def vision_idle_def)
next
  case (took n i)
  have "vw_good base (acc @ take n input) (s\<lparr>vs_inner := i\<rparr>)"
    using assms(2-4) took closed_content_append
    unfolding vision_write_good_def vision_wrote_def vision_idle_def by (auto 4 3 split: if_splits)
  then show ?thesis
    using took assms(3,5,6) by (auto simp: write_inner_def between_def vision_idle_def intro!: exI [of _ "acc @ take n input"])
qed

lemma write_input_outcome:
  assumes "vw_good base acc s" "vision_idle s" "vs_pending_write_len s \<le> length input" "input \<noteq> []"
    and "acc @ drop (vs_pending_write_len s) input = whole"
  shows "poll_write_outcome base whole input s (vision_write_input io gen_range input s)"
proof (cases "vs_pending_write_len s = 0")
  case False
  then show ?thesis
    using assms by (auto simp: vision_write_input_def between_def vision_idle_def)
next
  case len: True
  have live: "live (vs_inner s)" and d: "vs_direct_write_mode s \<longrightarrow> \<not> vs_padding_write_mode s"
    using assms(1) by (auto simp: vision_write_good_def split: if_splits)
  show ?thesis
  proof (cases "vs_padding_write_mode s")
    case False
    have "poll_write_outcome base whole input s (write_inner (io_write io) input s)"
      "poll_write_outcome base whole input s (write_inner (io_write_direct io) input s)"
      using assms False len sink_write [OF live assms(4)] sink_write_direct [OF live assms(4)]
      by (auto intro: write_inner_outcome)
    then show ?thesis using False len by (simp add: vision_write_input_def)
  next
    case pad: True
    define n where "n = min (length input) MAX_CONTENT_LEN"
    let ?p = "take n input" and ?f = "filter_tls_packet (take n input) s"
    have p: "length ?p \<le> MAX_CONTENT_LEN" by (simp add: n_def)
    have f: "vision_idle ?f" "vw_good base acc ?f" "vs_padding_write_mode ?f"
      using assms(1,2) pad by (simp_all add: vision_idle_def)
    obtain c m d' e where q: "queue_input gen_range ?p ?f = (Inr (), vision_queued c ?p m d' e ?f)"
        "m \<le> MAX_CONTENT_LEN" "(c = VContinue) \<longleftrightarrow> \<not> d' \<and> \<not> e" "\<not> (d' \<and> e)"
      by (rule queue_input_eq [OF p f(1)])
    let ?q = "(vision_queued c ?p m d' e ?f)\<lparr>vs_pending_write_len := n\<rparr>"
    have g: "vw_good base (acc @ ?p) ?q" using queued_good [OF f(2,3,1) p q(2-4)] by simp
    have n: "0 < n" "n \<le> length input" using assms(4) by (simp_all add: n_def MAX_CONTENT_LEN_def)
    have i: "vs_inner ?q = vs_inner s" "vs_pending_write_len ?q = n" by (simp_all add: vision_queued_def)
    have w: "(acc @ ?p) @ drop n input = whole" using assms(5) len by simp
    have nd: "\<not> vs_direct_write_mode s" using d pad by simp
    from g show ?thesis
    proof (cases rule: drain_cases)
      case (wait s')
      then have "vision_write_input io gen_range input s = (Pending, s')"
        using len nd pad assms(4) q(1) by (simp add: vision_write_input_def Let_def flip: n_def)
      moreover have "vs_pending_write_len s' \<noteq> 0" "vs_pending_write_len s' = n" using wait(4) i n by simp_all
      ultimately show ?thesis using wait i w n by (auto simp: between_def)
    next
      case (idle s')
      then have "vision_write_input io gen_range input s = (Ready (Inr n), s'\<lparr>vs_pending_write_len := 0\<rparr>)"
        using len nd pad assms(4) q(1) i by (simp add: vision_write_input_def Let_def flip: n_def)
      then show ?thesis using idle i n w by (auto simp: between_def vision_idle_def)
    qed
  qed
qed

lemma poll_write_outcome_patience:
  "poll_write_outcome base whole input t r \<Longrightarrow> patience (vs_inner t) \<le> patience (vs_inner s) \<Longrightarrow>
   poll_write_outcome base whole input s r"
  by (cases "(base, whole, input, t, r)" rule: poll_write_outcome.cases) auto

lemma poll_write_good:
  assumes "between base whole input s" "input \<noteq> []"
  shows "poll_write_outcome base whole input s (vision_poll_write io gen_range input s)"
proof -
  obtain acc where acc: "vw_good base acc s" "acc @ drop (vs_pending_write_len s) input = whole"
      "vs_pending_write_len s \<le> length input"
    using assms(1) by (auto simp: between_def)
  show ?thesis
  proof (cases "vision_idle s")
    case True
    then show ?thesis
      using write_input_outcome [OF acc(1) True acc(3) assms(2) acc(2)]
      by (simp add: vision_poll_write_def vision_idle_def)
  next
    case False
    then have b: "vs_pending_write s \<noteq> [] \<or> vs_pending_direct_write_mode s \<or> vs_pending_end_write_mode s"
      and n: "vs_pending_write_len s \<noteq> 0"
      using assms(1) by (auto simp: vision_idle_def between_def)
    from acc(1) show ?thesis
    proof (cases rule: drain_cases)
      case (wait s')
      then show ?thesis using b n acc by (auto simp: vision_poll_write_def between_def)
    next
      case (idle s')
      then have "poll_write_outcome base whole input s' (vision_write_input io gen_range input s')"
        using acc assms(2) by (intro write_input_outcome) auto
      then show ?thesis
        using poll_write_outcome_patience [OF _ idle(4)] idle(1) b by (simp add: vision_poll_write_def)
    qed
  qed
qed

lemma write_all_good:
  assumes "between base whole input s" "patience (vs_inner s) + length input < k"
  shows "\<exists>s'. vision_write_all io rng k input s = Some (Inr (), s') \<and> vw_good base whole s' \<and> vision_idle s'"
  using assms
proof (induction k arbitrary: input s)
  case (Suc k)
  show ?case
  proof (cases "input = []")
    case True
    then show ?thesis using Suc.prems(1) by (auto simp: between_def)
  next
    case False
    note po = poll_write_good [OF Suc.prems(1) False, of "rng k"]
    obtain r s' where r: "vision_poll_write io (rng k) input s = (r, s')" by force
    show ?thesis
    proof (cases r)
      case Pending
      then show ?thesis using po r False Suc.IH [of input s'] Suc.prems(2) by auto
    next
      case (Ready x)
      then obtain n where x: "x = Inr n" using po r by (cases x) auto
      have "patience (vs_inner s') + length (drop n input) < k" using po r Ready x Suc.prems(2) by auto
      then show ?thesis using po r Ready x False Suc.IH [of "drop n input" s'] by auto
    qed
  qed
qed simp

lemma vision_write_wire:
  assumes "live i" "input \<noteq> []" "patience i + length input < k"
  shows "\<exists>s' w. vision_write_all io rng k input (vision_stream_new i uid seed) = Some (Inr (), s') \<and>
    sent (vs_inner s') = sent i @ uid @ w \<and> w \<noteq> [] \<and> vision_content w = Some input"
proof -
  let ?s = "vision_stream_new i uid seed"
  have "between (sent i @ uid) input input ?s"
    using assms(1)
    by (auto simp: between_def vision_write_good_def vision_wrote_def vision_idle_def vision_stream_new_def
        vision_padding_new_def)
  moreover have "patience (vs_inner ?s) + length input < k" using assms(3) by (simp add: vision_stream_new_def)
  ultimately obtain s' where s': "vision_write_all io rng k input ?s = Some (Inr (), s')" "vw_good (sent i @ uid) input s'" "vision_idle s'"
    using write_all_good by blast
  then show ?thesis
    using assms(2) content_of
    by (auto simp: vision_write_good_def vision_wrote_def vision_idle_def split: if_splits)
qed

end

lemma vision_sink_response:
  assumes "vision_sink io live sent patience"
  shows "vision_sink (response_io io) (\<lambda>s. live (rs_inner s)) (\<lambda>s. sent (rs_inner s)) (\<lambda>s. patience (rs_inner s))"
proof
  have w: "write_outcome (\<lambda>s. live (rs_inner s)) (\<lambda>s. sent (rs_inner s)) (\<lambda>s. patience (rs_inner s)) bs s (on_inner f s)"
    if "write_outcome live sent patience bs (rs_inner s) (f (rs_inner s))" for bs f and s :: "'a response_stream"
    using that
    by (cases "(live, sent, patience, bs, rs_inner s, f (rs_inner s))" rule: write_outcome.cases)
      (auto simp: on_inner_def)
  have fl: "flush_outcome (\<lambda>s. live (rs_inner s)) (\<lambda>s. sent (rs_inner s)) (\<lambda>s. patience (rs_inner s)) s (on_inner f s)"
    if "flush_outcome live sent patience (rs_inner s) (f (rs_inner s))" for f and s :: "'a response_stream"
    using that
    by (cases "(live, sent, patience, rs_inner s, f (rs_inner s))" rule: flush_outcome.cases)
      (auto simp: on_inner_def)
  fix s :: "'a response_stream" and bs :: bytes assume l: "live (rs_inner s)"
  show "flush_outcome (\<lambda>s. live (rs_inner s)) (\<lambda>s. sent (rs_inner s)) (\<lambda>s. patience (rs_inner s)) s (io_flush (response_io io) s)"
    using fl [of s "io_flush io", OF vision_sink.sink_flush [OF assms l]] by (simp add: response_io_def)
  assume b: "bs \<noteq> []"
  show "write_outcome (\<lambda>s. live (rs_inner s)) (\<lambda>s. sent (rs_inner s)) (\<lambda>s. patience (rs_inner s)) bs s (io_write (response_io io) bs s)"
    using w [of bs s "io_write io bs", OF vision_sink.sink_write [OF assms l b]] by (simp add: response_io_def)
  show "write_outcome (\<lambda>s. live (rs_inner s)) (\<lambda>s. sent (rs_inner s)) (\<lambda>s. patience (rs_inner s)) bs s (io_write_direct (response_io io) bs s)"
    using w [of bs s "io_write_direct io bs", OF vision_sink.sink_write_direct [OF assms l b]] by (simp add: response_io_def)
qed

interpretation psk: vision_sink pipe_io "\<lambda>_. True" p_written "\<lambda>p. length (p_accepts p)"
proof
  fix s bs assume "bs \<noteq> ([] :: bytes)"
  then have "write_outcome (\<lambda>_. True) p_written (\<lambda>p. length (p_accepts p)) bs s (pipe_write bs s)"
    by (cases bs) (auto simp: pipe_write_def min_def split: list.splits poll.splits)
  then show "write_outcome (\<lambda>_. True) p_written (\<lambda>p. length (p_accepts p)) bs s (io_write pipe_io bs s)"
    "write_outcome (\<lambda>_. True) p_written (\<lambda>p. length (p_accepts p)) bs s (io_write_direct pipe_io bs s)"
    by (simp_all add: pipe_io_def)
qed (simp add: pipe_io_def)

interpretation rsk: vision_sink "response_io pipe_io" "\<lambda>_. True" "\<lambda>s. p_written (rs_inner s)"
    "\<lambda>s. length (p_accepts (rs_inner s))"
  by (rule vision_sink_response [OF psk.vision_sink_axioms])



end
