(* ===== verification/Xr_Kcp_Segment.thy ===== *)
theory Xr_Kcp_Segment
  imports Xr_Codec
begin

text \<open>
  The mKCP segments, \<open>crates/xray-transport/src/kcp/segment.rs\<close>: the three segment types, how they are
  encoded, and the reader that takes a datagram apart. A well-formed segment is one that the
  encoders of the engine produce; the wire format has no framing of its own, so a datagram of
  well-formed segments reads back exactly.
\<close>

section \<open>Segments\<close>

definition CMD_ACK :: u8 where "CMD_ACK = 0"
definition CMD_DATA :: u8 where "CMD_DATA = 1"
definition CMD_TERMINATE :: u8 where "CMD_TERMINATE = 2"
definition CMD_PING :: u8 where "CMD_PING = 3"
definition OPTION_CLOSE :: u8 where "OPTION_CLOSE = 1"
definition DATA_OVERHEAD :: u32 where "DATA_OVERHEAD = 18"
definition ACK_NUMBER_LIMIT :: nat where "ACK_NUMBER_LIMIT = 128"

record data_segment =
  ds_conv :: u16
  ds_option :: u8
  ds_timestamp :: u32
  ds_number :: u32
  ds_sending_next :: u32
  ds_payload :: bytes

record ack_segment =
  as_conv :: u16
  as_option :: u8
  as_receiving_window :: u32
  as_receiving_next :: u32
  as_timestamp :: u32
  as_numbers :: "u32 list"
  as_limit :: nat

record cmd_segment =
  cs_conv :: u16
  cs_cmd :: u8
  cs_option :: u8
  cs_sending_next :: u32
  cs_receiving_next :: u32
  cs_peer_rto :: u32

datatype segment = Data data_segment | Ack ack_segment | Cmd cmd_segment

fun segment_conv :: "segment \<Rightarrow> u16" where
  "segment_conv (Data s) = ds_conv s"
| "segment_conv (Ack s) = as_conv s"
| "segment_conv (Cmd s) = cs_conv s"

record data_header =
  dh_conv :: u16
  dh_option :: u8
  dh_timestamp :: u32
  dh_number :: u32
  dh_sending_next :: u32

definition encode_data :: "bytes \<Rightarrow> data_header \<Rightarrow> bytes \<Rightarrow> bytes" where
  "encode_data out h payload =
     out @ be16 (dh_conv h) @ [CMD_DATA] @ [dh_option h] @ be32 (dh_timestamp h) @ be32 (dh_number h) @
     be32 (dh_sending_next h) @ be16 (of_nat (length payload)) @ payload"

definition data_encode :: "data_segment \<Rightarrow> bytes \<Rightarrow> bytes" where
  "data_encode s out =
     encode_data out
       \<lparr>dh_conv = ds_conv s, dh_option = ds_option s, dh_timestamp = ds_timestamp s,
        dh_number = ds_number s, dh_sending_next = ds_sending_next s\<rparr> (ds_payload s)"

definition ack_new :: "int \<Rightarrow> ack_segment" where
  "ack_new limit =
     \<lparr>as_conv = 0, as_option = 0, as_receiving_window = 0, as_receiving_next = 0, as_timestamp = 0,
      as_numbers = [], as_limit = nat (min (max limit 1) (int ACK_NUMBER_LIMIT))\<rparr>"

definition put_timestamp :: "u32 \<Rightarrow> ack_segment \<Rightarrow> ack_segment" where
  "put_timestamp timestamp s =
     (if timestamp - as_timestamp s < 0x7FFFFFFF then s\<lparr>as_timestamp := timestamp\<rparr> else s)"

definition is_full :: "ack_segment \<Rightarrow> bool" where
  "is_full s \<longleftrightarrow> length (as_numbers s) = as_limit s"

definition ack_encode :: "ack_segment \<Rightarrow> bytes \<Rightarrow> bytes" where
  "ack_encode s out =
     out @ be16 (as_conv s) @ [CMD_ACK] @ [as_option s] @ be32 (as_receiving_window s) @
     be32 (as_receiving_next s) @ be32 (as_timestamp s) @ [of_nat (length (as_numbers s))] @
     concat (map be32 (as_numbers s))"

definition cmd_encode :: "cmd_segment \<Rightarrow> bytes \<Rightarrow> bytes" where
  "cmd_encode s out =
     out @ be16 (cs_conv s) @ [cs_cmd s] @ [cs_option s] @ be32 (cs_sending_next s) @
     be32 (cs_receiving_next s) @ be32 (cs_peer_rto s)"

fun segment_encode :: "segment \<Rightarrow> bytes \<Rightarrow> bytes" where
  "segment_encode (Data s) out = data_encode s out"
| "segment_encode (Ack s) out = ack_encode s out"
| "segment_encode (Cmd s) out = cmd_encode s out"

definition u32_at :: "bytes \<Rightarrow> u32" where
  "u32_at buf = from_be32 [buf ! 0, buf ! 1, buf ! 2, buf ! 3]"

text \<open>\<open>buf.chunks_exact(4).map(u32_at)\<close>\<close>

fun u32_chunks :: "bytes \<Rightarrow> u32 list" where
  "u32_chunks (a # b # c # d # buf) = u32_at [a, b, c, d] # u32_chunks buf"
| "u32_chunks _ = []"

definition read_segment :: "bytes \<Rightarrow> (segment \<times> bytes) option" where
  "read_segment buf =
     (if length buf < 4 then None
      else
        let conv = from_be16 [buf ! 0, buf ! 1]; cmd = buf ! 2; option = buf ! 3; buf = drop 4 buf
        in if cmd = CMD_DATA then
             if length buf < 15 then None
             else
               let len = unat (from_be16 [buf ! 12, buf ! 13]); rest = drop 14 buf
               in if length rest < len then None
                  else Some (Data \<lparr>ds_conv = conv, ds_option = option, ds_timestamp = u32_at buf,
                                  ds_number = u32_at (drop 4 buf), ds_sending_next = u32_at (drop 8 buf),
                                  ds_payload = take len rest\<rparr>, drop len rest)
           else if cmd = CMD_ACK then
             if length buf < 13 then None
             else
               let count = unat (buf ! 12); rest = drop 13 buf
               in if length rest < count * 4 then None
                  else Some (Ack ((ack_new (int ACK_NUMBER_LIMIT))
                               \<lparr>as_conv := conv, as_option := option, as_receiving_window := u32_at buf,
                                as_receiving_next := u32_at (drop 4 buf), as_timestamp := u32_at (drop 8 buf),
                                as_numbers := u32_chunks (take (count * 4) rest)\<rparr>), drop (count * 4) rest)
           else
             if length buf < 12 then None
             else Some (Cmd \<lparr>cs_conv = conv, cs_cmd = cmd, cs_option = option, cs_sending_next = u32_at buf,
                             cs_receiving_next = u32_at (drop 4 buf), cs_peer_rto = u32_at (drop 8 buf)\<rparr>, drop 12 buf))"

lemma read_segment_shorter: "read_segment buf = Some (s, rest) \<Longrightarrow> length rest < length buf"
  by (auto simp: read_segment_def Let_def split: if_splits)

function read_segments :: "bytes \<Rightarrow> segment list" where
  "read_segments buf =
     (if buf = [] then []
      else (case read_segment buf of None \<Rightarrow> [] | Some (segment, rest) \<Rightarrow> segment # read_segments rest))"
  by pat_completeness auto
termination by (relation "measure length") (auto dest: read_segment_shorter)

declare read_segments.simps [simp del]

section \<open>Reading back\<close>

fun segment_ok :: "segment \<Rightarrow> bool" where
  "segment_ok (Data s) \<longleftrightarrow> ds_payload s \<noteq> [] \<and> length (ds_payload s) < 65536"
| "segment_ok (Ack s) \<longleftrightarrow> length (as_numbers s) < 256 \<and> as_limit s = ACK_NUMBER_LIMIT"
| "segment_ok (Cmd s) \<longleftrightarrow> cs_cmd s \<notin> {CMD_ACK, CMD_DATA}"

lemma be32_split:
  obtains a b c d where "be32 w = [a, b, c, d]" "from_be32 [a, b, c, d] = w"
proof -
  have w: "be32 w = [ucast (drop_bit 24 w), ucast (drop_bit 16 w), ucast (drop_bit 8 w), ucast w]"
    by (simp add: be32_def be_bytes_def upt_conv_Cons)
  show thesis using from_be32_be32 [of w] by (intro that [OF w]) (simp add: w)
qed

lemma u32_at_be32 [simp]: "u32_at (be32 w @ xs) = w"
  by (rule be32_split [of w]) (simp add: u32_at_def)

lemma u32_chunks_be32: "u32_chunks (concat (map be32 ns)) = ns"
proof (induction ns)
  case (Cons n ns)
  show ?case by (rule be32_split [of n]) (use Cons in \<open>simp add: u32_at_def\<close>)
qed simp

lemma length_concat_be32: "length (concat (map be32 ns)) = 4 * length ns"
  by (induction ns) auto

lemma read_segment_data:
  assumes "ds_payload s \<noteq> []" "length (ds_payload s) < 65536"
  shows "read_segment (data_encode s [] @ rest) = Some (Data s, rest)"
proof -
  obtain a b where ab: "be16 (ds_conv s) = [a, b]" "from_be16 [a, b] = ds_conv s" by (rule be16_split)
  obtain c d where cd: "be16 (of_nat (length (ds_payload s))) = [c, d]"
    "from_be16 [c, d] = of_nat (length (ds_payload s))" by (rule be16_split)
  show ?thesis
    using assms
    by (simp add: read_segment_def data_encode_def encode_data_def ab cd nth_append Let_def)
qed

lemma read_segment_ack:
  assumes "length (as_numbers s) < 256" "as_limit s = ACK_NUMBER_LIMIT"
  shows "read_segment (ack_encode s [] @ rest) = Some (Ack s, rest)"
proof -
  obtain a b where ab: "be16 (as_conv s) = [a, b]" "from_be16 [a, b] = as_conv s" by (rule be16_split)
  show ?thesis
    using assms
    by (simp add: read_segment_def ack_encode_def ab nth_append Let_def CMD_ACK_def CMD_DATA_def ack_new_def
        u32_chunks_be32 length_concat_be32 mult.commute ACK_NUMBER_LIMIT_def)
qed

lemma read_segment_cmd:
  assumes "cs_cmd s \<notin> {CMD_ACK, CMD_DATA}"
  shows "read_segment (cmd_encode s [] @ rest) = Some (Cmd s, rest)"
proof -
  obtain a b where ab: "be16 (cs_conv s) = [a, b]" "from_be16 [a, b] = cs_conv s" by (rule be16_split)
  show ?thesis
    using assms
    by (simp add: read_segment_def cmd_encode_def ab nth_append Let_def)
qed

lemma read_segment_encode: "segment_ok s \<Longrightarrow> read_segment (segment_encode s [] @ rest) = Some (s, rest)"
  by (cases s) (auto simp: read_segment_data read_segment_ack read_segment_cmd)

lemma segment_encode_out: "segment_encode s out = out @ segment_encode s []"
  by (cases s) (simp_all add: data_encode_def encode_data_def ack_encode_def cmd_encode_def)

lemma segment_encode_nonempty: "segment_encode s [] \<noteq> []"
  by (cases s) (simp_all add: data_encode_def encode_data_def ack_encode_def cmd_encode_def)

interpretation kseg: stream_codec segment_ok "\<lambda>s. segment_encode s []"
    "\<lambda>buf. map_option (\<lambda>(s, rest). (s, length buf - length rest)) (read_segment buf)"
  by unfold_locales (simp_all add: read_segment_encode segment_encode_nonempty)

lemma read_segments_append:
  "list_all segment_ok ss \<Longrightarrow> read_segments (fold segment_encode ss [] @ buf) = ss @ read_segments buf"
proof (induction ss arbitrary: buf rule: rev_induct)
  case (snoc s ss)
  have "read_segments (segment_encode s [] @ buf) = s # read_segments buf"
    using snoc.prems read_segment_encode [of s buf] segment_encode_nonempty [of s]
    by (simp add: read_segments.simps [of "segment_encode s [] @ buf"])
  then show ?case
    using snoc by (simp add: segment_encode_out [of s "fold segment_encode ss []"])
qed simp

text \<open>What the reader accepts is the encoding of what it returns.\<close>

lemma be32_u32_at: "4 \<le> length xs \<Longrightarrow> be32 (u32_at xs) = take 4 xs"
proof -
  assume "4 \<le> length xs"
  then have "take 4 xs = [xs ! 0, xs ! 1, xs ! 2, xs ! 3]"
    by (auto simp: list_eq_iff_nth_eq less_Suc_eq eval_nat_numeral)
  then show ?thesis by (simp add: u32_at_def be_simps)
qed

lemma be32_at: "n + 4 \<le> length xs \<Longrightarrow> be32 (u32_at (drop n xs)) @ drop (n + 4) xs = drop n xs"
  using append_take_drop_id [of 4 "drop n xs"] by (simp add: be32_u32_at add.commute)

lemma be16_at: "n + 2 \<le> length xs \<Longrightarrow> be16 (from_be16 [xs ! n, xs ! Suc n]) @ drop (n + 2) xs = drop n xs"
  using Cons_nth_drop_Suc [of n xs] Cons_nth_drop_Suc [of "Suc n" xs] by (simp add: be_simps)

lemma concat_u32_chunks: "length xs = 4 * n \<Longrightarrow> concat (map be32 (u32_chunks xs)) = xs \<and> length (u32_chunks xs) = n"
proof (induction xs arbitrary: n rule: u32_chunks.induct)
  case (1 a b c d buf)
  then show ?case using be32_u32_at [of "[a, b, c, d]"] by (cases n) auto
qed (auto, presburger+)

lemma encode_read_segment:
  assumes "read_segment buf = Some (s, rest)"
  shows "segment_encode s [] @ rest = buf"
proof -
  have four: "4 \<le> length buf" using assms by (auto simp: read_segment_def split: if_splits)
  have hd: "be16 (from_be16 [buf ! 0, buf ! 1]) @ buf ! 2 # buf ! 3 # drop 4 buf = buf"
    using be16_at [of 0 buf] Cons_nth_drop_Suc [of 2 buf] Cons_nth_drop_Suc [of 3 buf] four by (simp add: numeral_eq_Suc)
  let ?b = "drop 4 buf"
  consider (data) "buf ! 2 = CMD_DATA" | (ack) "buf ! 2 = CMD_ACK" "buf ! 2 \<noteq> CMD_DATA"
    | (cmd) "buf ! 2 \<noteq> CMD_ACK" "buf ! 2 \<noteq> CMD_DATA" by blast
  then show ?thesis
  proof cases
    case data
    let ?len = "unat (from_be16 [?b ! 12, ?b ! 13])"
    have l: "15 \<le> length ?b" "?len \<le> length (drop 14 ?b)"
      and s: "s = Data \<lparr>ds_conv = from_be16 [buf ! 0, buf ! 1], ds_option = buf ! 3, ds_timestamp = u32_at ?b,
          ds_number = u32_at (drop 4 ?b), ds_sending_next = u32_at (drop 8 ?b), ds_payload = take ?len (drop 14 ?b)\<rparr>"
      and rest: "rest = drop ?len (drop 14 ?b)"
      using assms data four by (auto simp: read_segment_def Let_def split: if_splits)
    have "segment_encode s [] @ rest =
        be16 (from_be16 [buf ! 0, buf ! 1]) @ buf ! 2 # buf ! 3 # be32 (u32_at (drop 0 ?b)) @ be32 (u32_at (drop 4 ?b)) @
        be32 (u32_at (drop 8 ?b)) @ be16 (from_be16 [?b ! 12, ?b ! Suc 12]) @ drop 14 ?b"
      using l(2) data by (simp add: s rest data_encode_def encode_data_def del: drop_drop)
    also have "\<dots> = buf"
      using be16_at [of 12 ?b] be32_at [of 8 ?b] be32_at [of 4 ?b] be32_at [of 0 ?b] l(1) hd by simp
    finally show ?thesis .
  next
    case ack
    let ?n = "unat (?b ! 12)"
    have l: "13 \<le> length ?b" "?n * 4 \<le> length (drop 13 ?b)"
      and s: "s = Ack ((ack_new (int ACK_NUMBER_LIMIT))\<lparr>as_conv := from_be16 [buf ! 0, buf ! 1], as_option := buf ! 3,
          as_receiving_window := u32_at ?b, as_receiving_next := u32_at (drop 4 ?b), as_timestamp := u32_at (drop 8 ?b),
          as_numbers := u32_chunks (take (?n * 4) (drop 13 ?b))\<rparr>)"
      and rest: "rest = drop (?n * 4) (drop 13 ?b)"
      using assms ack four by (auto simp: read_segment_def Let_def split: if_splits)
    have c: "concat (map be32 (u32_chunks (take (?n * 4) (drop 13 ?b)))) = take (?n * 4) (drop 13 ?b)"
      "length (u32_chunks (take (?n * 4) (drop 13 ?b))) = ?n"
      using concat_u32_chunks [of "take (?n * 4) (drop 13 ?b)" ?n] l(2) by auto
    have "segment_encode s [] @ rest =
        be16 (from_be16 [buf ! 0, buf ! 1]) @ buf ! 2 # buf ! 3 # be32 (u32_at (drop 0 ?b)) @ be32 (u32_at (drop 4 ?b)) @
        be32 (u32_at (drop 8 ?b)) @ ?b ! 12 # drop 13 ?b"
      unfolding s rest using c ack(1) by (simp add: ack_encode_def ack_new_def del: drop_drop)
    also have "\<dots> = buf"
      using Cons_nth_drop_Suc [of 12 ?b] be32_at [of 8 ?b] be32_at [of 4 ?b] be32_at [of 0 ?b] l(1) hd by simp
    finally show ?thesis .
  next
    case cmd
    have l: "12 \<le> length ?b"
      and s: "s = Cmd \<lparr>cs_conv = from_be16 [buf ! 0, buf ! 1], cs_cmd = buf ! 2, cs_option = buf ! 3,
          cs_sending_next = u32_at ?b, cs_receiving_next = u32_at (drop 4 ?b), cs_peer_rto = u32_at (drop 8 ?b)\<rparr>"
      and rest: "rest = drop 12 ?b"
      using assms cmd four by (auto simp: read_segment_def Let_def split: if_splits)
    have "segment_encode s [] @ rest =
        be16 (from_be16 [buf ! 0, buf ! 1]) @ buf ! 2 # buf ! 3 # be32 (u32_at (drop 0 ?b)) @ be32 (u32_at (drop 4 ?b)) @
        be32 (u32_at (drop 8 ?b)) @ drop 12 ?b"
      by (simp add: s rest cmd_encode_def)
    also have "\<dots> = buf"
      using be32_at [of 8 ?b] be32_at [of 4 ?b] be32_at [of 0 ?b] l hd by simp
    finally show ?thesis .
  qed
qed

text \<open>
  C38. A datagram of segments that the engine builds reads back as those segments, whatever
  follows them; and whatever the reader accepts is the encoding of the segment it returns
  followed by what is left. An empty data segment is not among those that read back: at the end of a
  datagram it is dropped.
\<close>

theorem kcp_datagram_round_trip:
  "(list_all segment_ok ss \<longrightarrow> read_segments (fold segment_encode ss [] @ tail) = ss @ read_segments tail) \<and>
   (read_segment buf = Some (s, rest) \<longrightarrow> segment_encode s [] @ rest = buf) \<and>
   (ds_payload d = [] \<longrightarrow> read_segments (data_encode d []) = [])"
proof -
  have "read_segments (data_encode d []) = []" if "ds_payload d = []"
  proof -
    have "read_segment (data_encode d []) = None"
      using that by (simp add: read_segment_def data_encode_def encode_data_def nth_append Let_def CMD_DATA_def)
    then show ?thesis by (simp add: read_segments.simps [of "data_encode d []"])
  qed
  then show ?thesis using read_segments_append encode_read_segment by blast
qed

theorem kcp_datagram_round_trip_witness:
  "read_segments (fold segment_encode
     [Data \<lparr>ds_conv = 7, ds_option = 0, ds_timestamp = 5, ds_number = 9, ds_sending_next = 8, ds_payload = [1, 2, 3]\<rparr>,
      Ack \<lparr>as_conv = 7, as_option = 1, as_receiving_window = 40, as_receiving_next = 3, as_timestamp = 5,
        as_numbers = [4, 6], as_limit = 128\<rparr>,
      Cmd \<lparr>cs_conv = 7, cs_cmd = 3, cs_option = 0, cs_sending_next = 1, cs_receiving_next = 2, cs_peer_rto = 100\<rparr>] [] @ []) =
     [Data \<lparr>ds_conv = 7, ds_option = 0, ds_timestamp = 5, ds_number = 9, ds_sending_next = 8, ds_payload = [1, 2, 3]\<rparr>,
      Ack \<lparr>as_conv = 7, as_option = 1, as_receiving_window = 40, as_receiving_next = 3, as_timestamp = 5,
        as_numbers = [4, 6], as_limit = 128\<rparr>,
      Cmd \<lparr>cs_conv = 7, cs_cmd = 3, cs_option = 0, cs_sending_next = 1, cs_receiving_next = 2, cs_peer_rto = 100\<rparr>]"
  by (subst kcp_datagram_round_trip [THEN conjunct1, rule_format])
    (simp_all add: CMD_ACK_def CMD_DATA_def ACK_NUMBER_LIMIT_def read_segments.simps)

end
