(* ===== verification/Xr_Kcp.thy ===== *)
theory Xr_Kcp
  imports Xr_Kcp_Segment
begin

text \<open>
  The mKCP engine, \<open>crates/xray-transport/src/kcp/engine.rs\<close>: round-trip estimation, the sending and the
  receiving worker, and the connection with its states. Time and sequence numbers are 32-bit
  words, compared and subtracted as the code does; the driver's clock is the argument
  \<open>current\<close>. The receiving window is a map, as it is a \<open>HashMap\<close>. \<open>engine_config\<close> is from \<open>kcp/mod.rs\<close>.
\<close>

section \<open>Configuration\<close>

record kcp_config =
  kc_mtu :: u32
  kc_tti :: u32
  kc_uplink_capacity :: u32
  kc_downlink_capacity :: u32
  kc_cwnd_multiplier :: u32
  kc_max_sending_window :: u32

definition engine_config :: "kcp_config \<Rightarrow> io_error + kcp_config" where
  "engine_config c =
     (if \<not> (21 \<le> kc_mtu c \<and> kc_mtu c \<le> 8192)
      then Inl (Io InvalidInput ''mKCP mtu must be between 21 and 8192'')
      else if \<not> (10 \<le> kc_tti c \<and> kc_tti c \<le> 1000)
      then Inl (Io InvalidInput ''mKCP tti must be between 10 and 1000'')
      else if kc_cwnd_multiplier c = 0
      then Inl (Io InvalidInput ''mKCP cwndMultiplier must be at least 1'')
      else if kc_max_sending_window c < kc_mtu c
      then Inl (Io InvalidInput ''mKCP maxSendingWindow must be at least mtu'')
      else Inr c)"

definition in_flight_size :: "kcp_config \<Rightarrow> u32 \<Rightarrow> u32" where
  "in_flight_size c capacity = max (capacity * (1024 * 1024) div kc_mtu c div (1000 div kc_tti c)) 8"

definition sending_in_flight_size :: "kcp_config \<Rightarrow> u32" where
  "sending_in_flight_size c = in_flight_size c (kc_uplink_capacity c)"

definition receiving_in_flight_size :: "kcp_config \<Rightarrow> u32" where
  "receiving_in_flight_size c = in_flight_size c (kc_downlink_capacity c)"

definition sending_buffer_size :: "kcp_config \<Rightarrow> u32" where
  "sending_buffer_size c = kc_max_sending_window c div kc_mtu c"

section \<open>Round trips\<close>

record round_trip =
  rt_variation :: u32
  rt_srtt :: u32
  rt_rto :: u32
  rt_min_rtt :: u32
  rt_updated_timestamp :: u32

definition update_peer_rto :: "u32 \<Rightarrow> u32 \<Rightarrow> round_trip \<Rightarrow> round_trip" where
  "update_peer_rto rto current r =
     (if current - rt_updated_timestamp r < 3000 then r
      else r\<lparr>rt_updated_timestamp := current, rt_rto := rto\<rparr>)"

definition abs_diff :: "u32 \<Rightarrow> u32 \<Rightarrow> u32" where
  "abs_diff a b = (if a < b then b - a else a - b)"

definition rt_update :: "u32 \<Rightarrow> u32 \<Rightarrow> round_trip \<Rightarrow> round_trip" where
  "rt_update rtt current r =
     (if rtt > 0x7FFFFFFF then r
      else
        let r = (if rt_srtt r = 0 then r\<lparr>rt_srtt := rtt, rt_variation := rtt div 2\<rparr>
                 else
                   let delta = abs_diff (rt_srtt r) rtt;
                       srtt = (7 * rt_srtt r + rtt) div 8
                   in r\<lparr>rt_variation := (3 * rt_variation r + delta) div 4,
                        rt_srtt := (if srtt < rt_min_rtt r then rt_min_rtt r else srtt)\<rparr>);
            four = 4 * rt_variation r;
            rto = (if rt_min_rtt r < four then rt_srtt r + four else rt_srtt r + rt_variation r)
        in r\<lparr>rt_rto := min rto 10000 * 5 div 4, rt_updated_timestamp := current\<rparr>)"

section \<open>The sending worker\<close>

record unacked =
  un_number :: u32
  un_timestamp :: u32
  un_payload :: bytes
  un_timeout :: u32
  un_transmit :: u32

record sending_worker =
  sw_window :: "unacked list"
  sw_total_in_flight_size :: u32
  sw_first_unacknowledged :: u32
  sw_next_number :: u32
  sw_remote_next_number :: u32
  sw_control_window :: u32
  sw_window_size :: u32
  sw_first_unacknowledged_updated :: bool
  sw_closed :: bool

definition sending_new :: "kcp_config \<Rightarrow> sending_worker" where
  "sending_new c =
     \<lparr>sw_window = [], sw_total_in_flight_size = 0, sw_first_unacknowledged = 0, sw_next_number = 0,
      sw_remote_next_number = 32, sw_control_window = sending_in_flight_size c,
      sw_window_size = sending_buffer_size c, sw_first_unacknowledged_updated = False, sw_closed = False\<rparr>"

definition sending_release :: "sending_worker \<Rightarrow> sending_worker" where
  "sending_release w = w\<lparr>sw_window := [], sw_closed := True\<rparr>"

definition sending_clear :: "u32 \<Rightarrow> sending_worker \<Rightarrow> sending_worker" where
  "sending_clear una w = w\<lparr>sw_window := dropWhile (\<lambda>s. un_number s < una) (sw_window w)\<rparr>"

definition find_first_unacknowledged :: "sending_worker \<Rightarrow> sending_worker" where
  "find_first_unacknowledged w =
     (let first = sw_first_unacknowledged w;
          w = w\<lparr>sw_first_unacknowledged := (case sw_window w of s # _ \<Rightarrow> un_number s | [] \<Rightarrow> sw_next_number w)\<rparr>
      in if first \<noteq> sw_first_unacknowledged w then w\<lparr>sw_first_unacknowledged_updated := True\<rparr> else w)"

definition process_receiving_next :: "u32 \<Rightarrow> sending_worker \<Rightarrow> sending_worker" where
  "process_receiving_next next_number w = find_first_unacknowledged (sending_clear next_number w)"

text \<open>The loop of \<open>remove\<close>: the window without the segment, if it is found.\<close>

fun window_remove :: "u32 \<Rightarrow> unacked list \<Rightarrow> unacked list option" where
  "window_remove number [] = None"
| "window_remove number (s # ss) =
     (if un_number s > number then None
      else if un_number s = number then Some ss
      else map_option ((#) s) (window_remove number ss))"

definition sending_remove :: "u32 \<Rightarrow> sending_worker \<Rightarrow> bool \<times> sending_worker" where
  "sending_remove number w =
     (case window_remove number (sw_window w) of
        None \<Rightarrow> (False, w)
      | Some window \<Rightarrow>
          (True, w\<lparr>sw_total_in_flight_size :=
                     (if sw_total_in_flight_size w > 0 then sw_total_in_flight_size w - 1
                      else sw_total_in_flight_size w),
                   sw_window := window\<rparr>))"

definition process_ack :: "u32 \<Rightarrow> sending_worker \<Rightarrow> bool \<times> sending_worker" where
  "process_ack number w =
     (if number - sw_first_unacknowledged w > 0x7FFFFFFF \<or> number - sw_next_number w < 0x7FFFFFFF
      then (False, w)
      else (case sending_remove number w of
          (removed, w) \<Rightarrow> (removed, if removed then find_first_unacknowledged w else w)))"

fun fast_ack_window :: "u32 \<Rightarrow> u32 \<Rightarrow> unacked list \<Rightarrow> unacked list" where
  "fast_ack_window number rto [] = []"
| "fast_ack_window number rto (s # ss) =
     (if number = un_number s \<or> number - un_number s > 0x7FFFFFFF then s # ss
      else
        (if un_transmit s > 0 \<and> un_timeout s > rto div 3 then s\<lparr>un_timeout := un_timeout s - rto div 3\<rparr> else s)
        # fast_ack_window number rto ss)"

definition handle_fast_ack :: "u32 \<Rightarrow> u32 \<Rightarrow> sending_worker \<Rightarrow> sending_worker" where
  "handle_fast_ack number rto w = w\<lparr>sw_window := fast_ack_window number rto (sw_window w)\<rparr>"

fun process_acks :: "u32 list \<Rightarrow> u32 \<Rightarrow> bool \<Rightarrow> sending_worker \<Rightarrow> u32 \<times> bool \<times> sending_worker" where
  "process_acks [] max_ack max_ack_removed w = (max_ack, max_ack_removed, w)"
| "process_acks (number # ns) max_ack max_ack_removed w =
     (case process_ack number w of
        (removed, w) \<Rightarrow>
          if max_ack < number then process_acks ns number removed w
          else process_acks ns max_ack max_ack_removed w)"

definition sending_process_segment ::
    "u32 \<Rightarrow> ack_segment \<Rightarrow> u32 \<Rightarrow> round_trip \<Rightarrow> sending_worker \<Rightarrow> sending_worker \<times> round_trip" where
  "sending_process_segment current segment rto rt w =
     (if sw_closed w then (w, rt)
      else
        let w = (if sw_remote_next_number w < as_receiving_window segment
                 then w\<lparr>sw_remote_next_number := as_receiving_window segment\<rparr> else w);
            w = process_receiving_next (as_receiving_next segment) w
        in if as_numbers segment = [] then (w, rt)
           else (case process_acks (as_numbers segment) 0 False w of
               (max_ack, max_ack_removed, w) \<Rightarrow>
                 if max_ack_removed then
                   let w = handle_fast_ack max_ack rto w;
                       rtt = current - as_timestamp segment
                   in (w, if rtt < 10000 then rt_update rtt current rt else rt)
                 else (w, rt)))"

definition sending_push :: "bytes \<Rightarrow> sending_worker \<Rightarrow> bool \<times> sending_worker" where
  "sending_push payload w =
     (if sw_closed w \<or> of_nat (length (sw_window w)) > sw_window_size w then (False, w)
      else (True,
        w\<lparr>sw_window := sw_window w @
            [\<lparr>un_number = sw_next_number w, un_timestamp = 0, un_payload = payload, un_timeout = 0, un_transmit = 0\<rparr>],
          sw_next_number := sw_next_number w + 1\<rparr>))"

definition on_packet_loss :: "u32 \<Rightarrow> u32 \<Rightarrow> kcp_config \<Rightarrow> sending_worker \<Rightarrow> sending_worker" where
  "on_packet_loss loss_rate rto c w =
     (if rto = 0 then w
      else
        let cw = sw_control_window w;
            cw = (if loss_rate \<ge> 15 then 3 * cw div 4 else cw);
            cw = (if loss_rate \<le> 5 then cw + cw div 4 else cw);
            cw = (if cw < 16 then 16 else cw)
        in w\<lparr>sw_control_window := min cw (sending_in_flight_size c)\<rparr>)"

definition close_write :: "sending_worker \<Rightarrow> sending_worker" where
  "close_write w = sending_clear 0xFFFFFFFF w"

section \<open>The list of acknowledgements\<close>

record ack_list =
  al_timestamps :: "u32 list"
  al_numbers :: "u32 list"
  al_next_flush :: "u32 list"
  al_flush_candidates :: "u32 list"
  al_dirty :: bool
  al_mtu :: u32

definition FLUSH_CANDIDATES :: nat where "FLUSH_CANDIDATES = 128"

definition ack_add :: "u32 \<Rightarrow> u32 \<Rightarrow> ack_list \<Rightarrow> ack_list" where
  "ack_add number timestamp a =
     a\<lparr>al_timestamps := al_timestamps a @ [timestamp], al_numbers := al_numbers a @ [number],
       al_next_flush := al_next_flush a @ [0], al_dirty := True\<rparr>"

text \<open>\<open>clear\<close> moves the entries it keeps, by their index \<open>i\<close>, to the front.\<close>

definition ack_clear :: "u32 \<Rightarrow> ack_list \<Rightarrow> ack_list" where
  "ack_clear una a =
     (let kept = filter (\<lambda>i. \<not> al_numbers a ! i < una) [0..<length (al_numbers a)]
      in if length kept < length (al_numbers a)
         then a\<lparr>al_numbers := map ((!) (al_numbers a)) kept, al_timestamps := map ((!) (al_timestamps a)) kept,
                al_next_flush := map ((!) (al_next_flush a)) kept, al_dirty := True\<rparr>
         else a)"

text \<open>\<open>(i64::from(mtu) - 17) / 4\<close>, a division that rounds towards zero.\<close>

definition new_segment :: "ack_list \<Rightarrow> ack_segment" where
  "new_segment a =
     (let x = int (unat (al_mtu a)) - 17 in ack_new (if x < 0 then - ((- x) div 4) else x div 4))"

text \<open>The loop of \<open>flush\<close> over the indices; \<open>written\<close> are the segments handed to \<open>write\<close>.\<close>

fun ack_flush_loop ::
    "u32 \<Rightarrow> u32 \<Rightarrow> nat list \<Rightarrow> ack_segment \<Rightarrow> ack_segment list \<Rightarrow> ack_list \<Rightarrow> ack_segment \<times> ack_segment list \<times> ack_list" where
  "ack_flush_loop current rto [] segment written a = (segment, written, a)"
| "ack_flush_loop current rto (i # is) segment written a =
     (if al_next_flush a ! i > current then
        ack_flush_loop current rto is segment written
          (if length (al_flush_candidates a) < FLUSH_CANDIDATES
           then a\<lparr>al_flush_candidates := al_flush_candidates a @ [al_numbers a ! i]\<rparr> else a)
      else
        let segment = put_timestamp (al_timestamps a ! i)
              (segment\<lparr>as_numbers := as_numbers segment @ [al_numbers a ! i]\<rparr>);
            a = a\<lparr>al_next_flush := (al_next_flush a)[i := current + max (rto div 2) 20]\<rparr>
        in if is_full segment
           then ack_flush_loop current rto is (new_segment a) (written @ [segment]) (a\<lparr>al_dirty := False\<rparr>)
           else ack_flush_loop current rto is segment written a)"

fun fill_candidates :: "u32 list \<Rightarrow> ack_segment \<Rightarrow> ack_segment" where
  "fill_candidates [] segment = segment"
| "fill_candidates (number # ns) segment =
     (if is_full segment then segment
      else fill_candidates ns (segment\<lparr>as_numbers := as_numbers segment @ [number]\<rparr>))"

definition ack_flush :: "u32 \<Rightarrow> u32 \<Rightarrow> ack_list \<Rightarrow> ack_segment list \<times> ack_list" where
  "ack_flush current rto a =
     (let a = a\<lparr>al_flush_candidates := []\<rparr>
      in (case ack_flush_loop current rto [0..<length (al_numbers a)] (new_segment a) [] a of
            (segment, written, a) \<Rightarrow>
              if al_dirty a \<or> as_numbers segment \<noteq> []
              then (written @ [fill_candidates (al_flush_candidates a) segment], a\<lparr>al_dirty := False\<rparr>)
              else (written, a)))"

section \<open>The receiving worker\<close>

record receiving_worker =
  rw_left_over :: bytes
  rw_window :: "u32 \<rightharpoonup> bytes"
  rw_acks :: ack_list
  rw_next_number :: u32
  rw_window_size :: u32

definition receiving_new :: "kcp_config \<Rightarrow> receiving_worker" where
  "receiving_new c =
     \<lparr>rw_left_over = [], rw_window = Map.empty,
      rw_acks = \<lparr>al_timestamps = [], al_numbers = [], al_next_flush = [], al_flush_candidates = [],
                 al_dirty = False, al_mtu = kc_mtu c\<rparr>,
      rw_next_number = 0, rw_window_size = receiving_in_flight_size c\<rparr>"

definition receiving_release :: "receiving_worker \<Rightarrow> receiving_worker" where
  "receiving_release w = w\<lparr>rw_left_over := []\<rparr>"

definition receiving_process_segment :: "data_segment \<Rightarrow> receiving_worker \<Rightarrow> receiving_worker" where
  "receiving_process_segment segment w =
     (if ds_number segment - rw_next_number w \<ge> rw_window_size w then w
      else
        w\<lparr>rw_acks := ack_add (ds_number segment) (ds_timestamp segment)
            (ack_clear (ds_sending_next segment) (rw_acks w)),
          rw_window := (case rw_window w (ds_number segment) of
              None \<Rightarrow> (rw_window w)(ds_number segment \<mapsto> ds_payload segment)
            | Some _ \<Rightarrow> rw_window w)\<rparr>)"

definition is_data_available :: "receiving_worker \<Rightarrow> bool" where
  "is_data_available w \<longleftrightarrow> rw_window w (rw_next_number w) \<noteq> None"

function take_in_order :: "receiving_worker \<Rightarrow> receiving_worker" where
  "take_in_order w =
     (case rw_window w (rw_next_number w) of
        None \<Rightarrow> w
      | Some payload \<Rightarrow>
          take_in_order
            (w\<lparr>rw_window := (rw_window w)(rw_next_number w := None),
               rw_next_number := rw_next_number w + 1,
               rw_left_over := rw_left_over w @ payload\<rparr>))"
  by pat_completeness auto
termination
proof (relation "measure (\<lambda>w. card (dom (rw_window w)))")
  fix w :: receiving_worker and payload assume "rw_window w (rw_next_number w) = Some payload"
  then have "0 < card (dom (rw_window w))" "rw_next_number w \<in> dom (rw_window w)"
    by (auto simp: card_gt_0_iff)
  then show "(w\<lparr>rw_window := (rw_window w)(rw_next_number w := None), rw_next_number := rw_next_number w + 1,
      rw_left_over := rw_left_over w @ payload\<rparr>, w) \<in> measure (\<lambda>w. card (dom (rw_window w)))"
    by (simp add: card_Diff_singleton)
qed simp

declare take_in_order.simps [simp del]

text \<open>\<open>read\<close> into room for \<open>n\<close> bytes: the bytes it copies.\<close>

definition receiving_read :: "nat \<Rightarrow> receiving_worker \<Rightarrow> bytes \<times> receiving_worker" where
  "receiving_read n w =
     (let w = (if rw_left_over w = [] then take_in_order w else w)
      in (take n (rw_left_over w), w\<lparr>rw_left_over := drop n (rw_left_over w)\<rparr>))"

definition update_necessary :: "receiving_worker \<Rightarrow> bool" where
  "update_necessary w \<longleftrightarrow> al_numbers (rw_acks w) \<noteq> []"

section \<open>The connection\<close>

datatype kcp_state = Active | ReadyToClose | PeerClosed | Terminating | PeerTerminating | Terminated

definition terminating :: "kcp_state \<Rightarrow> bool" where
  "terminating s \<longleftrightarrow> s \<in> {Terminating, Terminated}"

definition MAX_SEGMENT_PAYLOAD :: nat where "MAX_SEGMENT_PAYLOAD = 8192"

record engine =
  en_conv :: u16
  en_config :: kcp_config
  en_state :: kcp_state
  en_state_begin_time :: u32
  en_last_incoming_time :: u32
  en_last_ping_time :: u32
  en_mss :: u32
  en_round_trip :: round_trip
  en_receiving :: receiving_worker
  en_sending :: sending_worker
  en_out :: "bytes list"
  en_input_ready :: bool
  en_output_ready :: bool
  en_wake_data :: bool

datatype write_blocked = Closed | Full

definition engine_new :: "u16 \<Rightarrow> kcp_config \<Rightarrow> engine" where
  "engine_new conv c =
     \<lparr>en_conv = conv, en_config = c, en_state = Active, en_state_begin_time = 0, en_last_incoming_time = 0,
      en_last_ping_time = 0, en_mss = kc_mtu c - DATA_OVERHEAD,
      en_round_trip = \<lparr>rt_variation = 0, rt_srtt = 0, rt_rto = 100, rt_min_rtt = kc_tti c, rt_updated_timestamp = 0\<rparr>,
      en_receiving = receiving_new c, en_sending = sending_new c, en_out = [],
      en_input_ready = False, en_output_ready = False, en_wake_data = False\<rparr>"

definition data_update_necessary :: "engine \<Rightarrow> bool" where
  "data_update_necessary e \<longleftrightarrow>
     \<not> terminating (en_state e) \<and> (sw_window (en_sending e) \<noteq> [] \<or> update_necessary (en_receiving e))"

definition data_update_terminated :: "engine \<Rightarrow> bool" where
  "data_update_terminated e \<longleftrightarrow> terminating (en_state e)"

definition set_state :: "kcp_state \<Rightarrow> u32 \<Rightarrow> engine \<Rightarrow> engine" where
  "set_state state current e =
     (let e = e\<lparr>en_state := state, en_state_begin_time := current\<rparr>
      in if state \<in> {Active, ReadyToClose} then e
         else if state \<in> {PeerClosed, Terminating, PeerTerminating}
         then e\<lparr>en_sending := close_write (en_sending e)\<rparr>
         else e\<lparr>en_wake_data := True, en_input_ready := True, en_output_ready := True,
                en_sending := sending_release (close_write (en_sending e)),
                en_receiving := receiving_release (en_receiving e)\<rparr>)"

definition engine_close :: "u32 \<Rightarrow> engine \<Rightarrow> bool \<times> engine" where
  "engine_close current e =
     (let e = e\<lparr>en_input_ready := True, en_output_ready := True\<rparr>
      in case en_state e of
           ReadyToClose \<Rightarrow> (False, e)
         | Terminating \<Rightarrow> (False, e)
         | Terminated \<Rightarrow> (False, e)
         | Active \<Rightarrow> (True, set_state ReadyToClose current e)
         | PeerClosed \<Rightarrow> (True, set_state Terminating current e)
         | PeerTerminating \<Rightarrow> (True, set_state Terminated current e))"

definition engine_read :: "nat \<Rightarrow> engine \<Rightarrow> bytes option \<times> engine" where
  "engine_read n e =
     (if en_state e \<in> {ReadyToClose, Terminating, Terminated} then (None, e)
      else (case receiving_read n (en_receiving e) of
          (bytes, r) \<Rightarrow>
            let e = e\<lparr>en_receiving := r\<rparr>
            in if bytes \<noteq> [] then (Some bytes, e\<lparr>en_wake_data := True\<rparr>)
               else if en_state e = PeerTerminating then (None, e)
               else (Some [], e)))"

fun write_pieces :: "bytes list \<Rightarrow> nat \<Rightarrow> engine \<Rightarrow> nat \<times> engine" where
  "write_pieces [] written e = (written, e)"
| "write_pieces (piece # ps) written e =
     (if en_state e \<noteq> Active then (written, e)
      else (case sending_push piece (en_sending e) of
          (pushed, w) \<Rightarrow>
            if \<not> pushed then (written, e\<lparr>en_sending := w\<rparr>)
            else write_pieces ps (written + length piece) (e\<lparr>en_sending := w\<rparr>)))"

definition engine_write :: "bytes \<Rightarrow> engine \<Rightarrow> (write_blocked + nat) \<times> engine" where
  "engine_write data e =
     (let chunk = min (unat (en_mss e)) MAX_SEGMENT_PAYLOAD
      in (case write_pieces (chunks chunk data) 0 e of
            (written, e) \<Rightarrow>
              if written > 0 then (Inr written, e\<lparr>en_wake_data := True\<rparr>)
              else (Inl (if en_state e = Active then Full else Closed), e)))"

definition on_peer_closed :: "u32 \<Rightarrow> engine \<Rightarrow> engine" where
  "on_peer_closed current e =
     (case en_state e of
        ReadyToClose \<Rightarrow> set_state Terminating current e
      | Active \<Rightarrow> set_state PeerClosed current e
      | _ \<Rightarrow> e)"

definition handle_option :: "u8 \<Rightarrow> u32 \<Rightarrow> engine \<Rightarrow> engine" where
  "handle_option option current e =
     (if option AND OPTION_CLOSE = OPTION_CLOSE then on_peer_closed current e else e)"

definition on_terminate :: "u32 \<Rightarrow> engine \<Rightarrow> engine" where
  "on_terminate current e =
     (case en_state e of
        Active \<Rightarrow> set_state PeerTerminating current e
      | PeerClosed \<Rightarrow> set_state PeerTerminating current e
      | ReadyToClose \<Rightarrow> set_state Terminating current e
      | Terminating \<Rightarrow> set_state Terminated current e
      | _ \<Rightarrow> e)"

fun input_segment :: "u32 \<Rightarrow> segment \<Rightarrow> engine \<Rightarrow> engine" where
  "input_segment current (Data s) e =
     (let e = handle_option (ds_option s) current e;
          e = e\<lparr>en_receiving := receiving_process_segment s (en_receiving e)\<rparr>;
          e = (if is_data_available (en_receiving e) then e\<lparr>en_input_ready := True\<rparr> else e)
      in e\<lparr>en_wake_data := True\<rparr>)"
| "input_segment current (Ack s) e =
     (let e = handle_option (as_option s) current e
      in (case sending_process_segment current s (rt_rto (en_round_trip e)) (en_round_trip e) (en_sending e) of
            (w, rt) \<Rightarrow> e\<lparr>en_sending := w, en_round_trip := rt, en_output_ready := True, en_wake_data := True\<rparr>))"
| "input_segment current (Cmd s) e =
     (let e = handle_option (cs_option s) current e;
          e = (if cs_cmd s = CMD_TERMINATE then on_terminate current e else e);
          e = (if cs_option s = OPTION_CLOSE \<or> cs_cmd s = CMD_TERMINATE
               then e\<lparr>en_input_ready := True, en_output_ready := True\<rparr> else e)
      in e\<lparr>en_sending := process_receiving_next (cs_receiving_next s) (en_sending e),
           en_receiving := (en_receiving e)\<lparr>rw_acks := ack_clear (cs_sending_next s) (rw_acks (en_receiving e))\<rparr>,
           en_round_trip := update_peer_rto (cs_peer_rto s) current (en_round_trip e)\<rparr>)"

fun input_segments :: "u32 \<Rightarrow> segment list \<Rightarrow> engine \<Rightarrow> engine" where
  "input_segments current [] e = e"
| "input_segments current (s # ss) e =
     (if segment_conv s \<noteq> en_conv e then e else input_segments current ss (input_segment current s e))"

definition engine_input :: "segment list \<Rightarrow> u32 \<Rightarrow> engine \<Rightarrow> engine" where
  "engine_input segments current e = input_segments current segments (e\<lparr>en_last_incoming_time := current\<rparr>)"

definition close_option :: "engine \<Rightarrow> u8" where
  "close_option e = (if en_state e = ReadyToClose then OPTION_CLOSE else 0)"

definition ping :: "u32 \<Rightarrow> u8 \<Rightarrow> engine \<Rightarrow> engine" where
  "ping current cmd e =
     (let segment = \<lparr>cs_conv = en_conv e, cs_cmd = cmd, cs_option = close_option e,
                     cs_sending_next = sw_first_unacknowledged (en_sending e),
                     cs_receiving_next = rw_next_number (en_receiving e),
                     cs_peer_rto = rt_rto (en_round_trip e)\<rparr>
      in e\<lparr>en_out := en_out e @ [cmd_encode segment []], en_last_ping_time := current\<rparr>)"

definition flush_acks :: "u32 \<Rightarrow> engine \<Rightarrow> engine" where
  "flush_acks current e =
     (let option = close_option e;
          r = en_receiving e;
          receiving_next = rw_next_number r;
          receiving_window = rw_next_number r + rw_window_size r
      in (case ack_flush current (rt_rto (en_round_trip e)) (rw_acks r) of
            (written, acks) \<Rightarrow>
              e\<lparr>en_receiving := r\<lparr>rw_acks := acks\<rparr>,
                en_out := en_out e @
                  map (\<lambda>s. ack_encode (s\<lparr>as_conv := en_conv e, as_receiving_next := receiving_next,
                         as_receiving_window := receiving_window, as_option := option\<rparr>) []) written\<rparr>))"

text \<open>
  The loop of \<open>flush_data\<close> over the window: the window with the segments sent marked, the datagrams, and the
  counts \<open>lost\<close>, \<open>in_flight\<close> and \<open>total_in_flight_size\<close>.
\<close>

fun flush_window ::
    "u32 \<Rightarrow> u32 \<Rightarrow> u32 \<Rightarrow> (unacked \<Rightarrow> data_header) \<Rightarrow> unacked list \<Rightarrow> u32 \<Rightarrow> u32 \<Rightarrow> u32 \<Rightarrow>
     unacked list \<times> bytes list \<times> u32 \<times> u32 \<times> u32" where
  "flush_window current rto cwnd header [] lost in_flight total_in_flight =
     ([], [], lost, in_flight, total_in_flight)"
| "flush_window current rto cwnd header (s # ss) lost in_flight total_in_flight =
     (if current - un_timeout s \<ge> 0x7FFFFFFF then
        (case flush_window current rto cwnd header ss lost in_flight total_in_flight of
           (ss, out, counts) \<Rightarrow> (s # ss, out, counts))
      else
        let total_in_flight = (if un_transmit s = 0 then total_in_flight + 1 else total_in_flight);
            lost = (if un_transmit s = 0 then lost else lost + 1);
            s = s\<lparr>un_timeout := current + rto, un_timestamp := current, un_transmit := un_transmit s + 1\<rparr>;
            datagram = encode_data [] (header s) (un_payload s);
            in_flight = in_flight + 1
        in if in_flight \<ge> cwnd then (s # ss, [datagram], lost, in_flight, total_in_flight)
           else (case flush_window current rto cwnd header ss lost in_flight total_in_flight of
               (ss, out, counts) \<Rightarrow> (s # ss, datagram # out, counts)))"

definition congestion_window :: "kcp_config \<Rightarrow> sending_worker \<Rightarrow> u32" where
  "congestion_window c w =
     (let cwnd = sending_in_flight_size c;
          remote = sw_remote_next_number w - sw_first_unacknowledged w;
          cwnd = (if cwnd > remote then remote else cwnd);
          cwnd = (if cwnd > sw_control_window w then sw_control_window w else cwnd)
      in cwnd * kc_cwnd_multiplier c)"

text \<open>\<open>flush_data\<close> up to the ping.\<close>

definition flush_data_window :: "u32 \<Rightarrow> engine \<Rightarrow> engine" where
  "flush_data_window current e =
     (let w = en_sending e;
          rto = rt_rto (en_round_trip e);
          header = (\<lambda>s. \<lparr>dh_conv = en_conv e, dh_option = close_option e, dh_timestamp = un_timestamp s,
                         dh_number = un_number s, dh_sending_next = sw_first_unacknowledged w\<rparr>)
      in if sw_window w \<noteq> [] then
           (case flush_window current rto (congestion_window (en_config e) w) header (sw_window w) 0 0
                  (sw_total_in_flight_size w) of
              (window, out, lost, in_flight, total_in_flight) \<Rightarrow>
                let w = w\<lparr>sw_window := window, sw_total_in_flight_size := total_in_flight\<rparr>;
                    w = (if in_flight > 0 \<and> sw_total_in_flight_size w \<noteq> 0
                         then on_packet_loss (lost * 100 div sw_total_in_flight_size w) rto (en_config e) w
                         else w)
                in e\<lparr>en_out := en_out e @ out, en_sending := w\<lparr>sw_first_unacknowledged_updated := False\<rparr>\<rparr>)
         else e)"

definition flush_data :: "u32 \<Rightarrow> engine \<Rightarrow> engine" where
  "flush_data current e =
     (if sw_closed (en_sending e) then e
      else
        let e = flush_data_window current e;
            updated = sw_first_unacknowledged_updated (en_sending e);
            e = e\<lparr>en_sending := (en_sending e)\<lparr>sw_first_unacknowledged_updated := False\<rparr>\<rparr>
        in if updated then ping current CMD_PING e else e)"

definition flush_timers :: "u32 \<Rightarrow> engine \<Rightarrow> engine" where
  "flush_timers current e =
     (let e = (if en_state e = Active \<and> current - en_last_incoming_time e \<ge> 30000
               then snd (engine_close current e) else e)
      in if en_state e = ReadyToClose \<and> sw_window (en_sending e) = []
         then set_state Terminating current e else e)"

definition flush_late_timers :: "u32 \<Rightarrow> engine \<Rightarrow> engine" where
  "flush_late_timers current e =
     (let e = (if en_state e = PeerTerminating \<and> current - en_state_begin_time e > 4000
               then set_state Terminating current e else e)
      in if en_state e = ReadyToClose \<and> current - en_state_begin_time e > 15000
         then set_state Terminating current e else e)"

definition engine_flush :: "u32 \<Rightarrow> engine \<Rightarrow> engine" where
  "engine_flush current e =
     (if en_state e = Terminated then e
      else
        let e = flush_timers current e
        in if en_state e = Terminating then
             let e = ping current CMD_TERMINATE e
             in if current - en_state_begin_time e > 8000 then set_state Terminated current e else e
           else
             let e = flush_data current (flush_acks current (flush_late_timers current e))
             in if current - en_last_ping_time e \<ge> 3000 then ping current CMD_PING e else e)"

end
