(* ===== verification/Xr_Kcp_Inv.thy ===== *)
theory Xr_Kcp_Inv
  imports Xr_Kcp
begin

text \<open>
  What the operations of the mKCP engine keep: the sending window only loses segments except by a
  write, the acknowledgement vectors stay aligned, every datagram fits the MTU and reads back
  as one segment of the conversation, and the states of the connection only move forward.
\<close>

section \<open>The sending window\<close>

definition window_view :: "sending_worker \<Rightarrow> (u32 \<times> bytes) list" where
  "window_view w = map (\<lambda>u. (un_number u, un_payload u)) (sw_window w)"

text \<open>A worker that has at most the segments of another one, and the same numbering.\<close>

definition sending_le :: "sending_worker \<Rightarrow> sending_worker \<Rightarrow> bool" where
  "sending_le w' w \<longleftrightarrow>
     set (window_view w') \<subseteq> set (window_view w) \<and> length (sw_window w') \<le> length (sw_window w) \<and>
     sw_next_number w' = sw_next_number w \<and> sw_window_size w' = sw_window_size w"

lemma sending_le_refl [simp]: "sending_le w w"
  by (simp add: sending_le_def)

lemma sending_le_trans [trans]: "sending_le a b \<Longrightarrow> sending_le b c \<Longrightarrow> sending_le a c"
  by (auto simp: sending_le_def)

lemma sending_le_update [simp]:
  "sending_le (w\<lparr>sw_total_in_flight_size := a\<rparr>) v \<longleftrightarrow> sending_le w v"
  "sending_le (w\<lparr>sw_first_unacknowledged := a\<rparr>) v \<longleftrightarrow> sending_le w v"
  "sending_le (w\<lparr>sw_remote_next_number := a\<rparr>) v \<longleftrightarrow> sending_le w v"
  "sending_le (w\<lparr>sw_control_window := a\<rparr>) v \<longleftrightarrow> sending_le w v"
  "sending_le (w\<lparr>sw_first_unacknowledged_updated := b\<rparr>) v \<longleftrightarrow> sending_le w v"
  "sending_le (w\<lparr>sw_closed := b\<rparr>) v \<longleftrightarrow> sending_le w v"
  by (simp_all add: sending_le_def window_view_def)

lemma sending_release_le [simp]: "sending_le (sending_release w) v = sending_le (w\<lparr>sw_window := []\<rparr>) v"
  by (simp add: sending_release_def)

lemma sending_empty_le: "sending_le w v \<Longrightarrow> sending_le (w\<lparr>sw_window := []\<rparr>) v"
  by (simp add: sending_le_def window_view_def)

lemma sending_clear_le: "sending_le (sending_clear una w) w"
  unfolding sending_le_def window_view_def sending_clear_def
  by (auto simp: length_dropWhile_le dest: set_dropWhileD)

lemma find_first_le [simp]: "sending_le (find_first_unacknowledged w) v = sending_le w v"
  by (simp add: find_first_unacknowledged_def Let_def)

lemma process_receiving_next_le: "sending_le (process_receiving_next n w) w"
  by (simp add: process_receiving_next_def sending_clear_le)

lemma window_remove_sub:
  "window_remove number ss = Some ts \<Longrightarrow> set ts \<subseteq> set ss \<and> length ts \<le> length ss"
  by (induction ss arbitrary: ts) (auto split: if_splits)

lemma sending_remove_le: "sending_remove number w = (b, w') \<Longrightarrow> sending_le w' w"
  by (auto simp: sending_remove_def sending_le_def window_view_def dest!: window_remove_sub split: option.splits)

lemma process_ack_le: "process_ack number w = (b, w') \<Longrightarrow> sending_le w' w"
  by (auto simp: process_ack_def split: if_splits prod.splits dest: sending_remove_le)

lemma process_acks_le: "process_acks ns m r w = (m', r', w') \<Longrightarrow> sending_le w' w"
  by (induction ns m r w rule: process_acks.induct)
    (auto split: prod.splits if_splits dest: process_ack_le intro: sending_le_trans)

lemma fast_ack_view:
  "map (\<lambda>u. (un_number u, un_payload u)) (fast_ack_window number rto ss) = map (\<lambda>u. (un_number u, un_payload u)) ss"
  by (induction ss) auto

lemma fast_ack_length [simp]: "length (fast_ack_window number rto ss) = length ss"
  by (induction ss) auto

lemma handle_fast_ack_le [simp]: "sending_le (handle_fast_ack number rto w) v = sending_le w v"
  by (simp add: handle_fast_ack_def sending_le_def window_view_def fast_ack_view)

lemma sending_process_segment_le:
  assumes "sending_process_segment current segment rto rt w = (w', rt')"
  shows "sending_le w' w"
proof -
  let ?w = "if sw_remote_next_number w < as_receiving_window segment
    then w\<lparr>sw_remote_next_number := as_receiving_window segment\<rparr> else w"
  let ?v = "process_receiving_next (as_receiving_next segment) ?w"
  have v: "sending_le ?v w" by (rule sending_le_trans [OF process_receiving_next_le]) simp
  show ?thesis
    using assms v
    by (auto simp: sending_process_segment_def Let_def split: if_splits prod.splits
        dest!: process_acks_le intro: sending_le_trans)
qed

lemma on_packet_loss_le [simp]: "sending_le (on_packet_loss r rto c w) v = sending_le w v"
  by (simp add: on_packet_loss_def Let_def)

lemma close_write_le: "sending_le (close_write w) w"
  by (simp add: close_write_def sending_clear_le)

lemma flush_window_view:
  "flush_window current rto cwnd header ss lost fl tot = (ss', out, counts) \<Longrightarrow>
   map (\<lambda>u. (un_number u, un_payload u)) ss' = map (\<lambda>u. (un_number u, un_payload u)) ss"
  by (induction current rto cwnd header ss lost fl tot arbitrary: ss' out counts rule: flush_window.induct)
    (auto simp: Let_def split: if_splits prod.splits)

section \<open>Datagrams\<close>

definition config_ok :: "kcp_config \<Rightarrow> bool" where
  "config_ok c \<longleftrightarrow> 21 \<le> kc_mtu c \<and> kc_mtu c \<le> 8192 \<and> 10 \<le> kc_tti c \<and> kc_tti c \<le> 1000 \<and>
     kc_cwnd_multiplier c \<noteq> 0 \<and> kc_mtu c \<le> kc_max_sending_window c"

lemma engine_config_iff: "engine_config c = Inr d \<longleftrightarrow> d = c \<and> config_ok c"
  by (auto simp: engine_config_def config_ok_def not_less)

definition acks_ok :: "ack_list \<Rightarrow> bool" where
  "acks_ok a \<longleftrightarrow> length (al_timestamps a) = length (al_numbers a) \<and> length (al_next_flush a) = length (al_numbers a)"

definition payload_ok :: "kcp_config \<Rightarrow> bytes \<Rightarrow> bool" where
  "payload_ok c p \<longleftrightarrow> p \<noteq> [] \<and> 18 + length p \<le> unat (kc_mtu c)"

definition engine_inv :: "engine \<Rightarrow> bool" where
  "engine_inv e \<longleftrightarrow>
     config_ok (en_config e) \<and> en_mss e = kc_mtu (en_config e) - DATA_OVERHEAD \<and>
     (\<forall>x \<in> set (window_view (en_sending e)). payload_ok (en_config e) (snd x)) \<and>
     sw_window_size (en_sending e) = sending_buffer_size (en_config e) \<and>
     length (sw_window (en_sending e)) \<le> Suc (unat (sw_window_size (en_sending e))) \<and>
     acks_ok (rw_acks (en_receiving e)) \<and> al_mtu (rw_acks (en_receiving e)) = kc_mtu (en_config e)"

text \<open>A datagram of the engine: within the MTU, one segment, and data only from the sending window.\<close>

definition emits :: "engine \<Rightarrow> bytes \<Rightarrow> bool" where
  "emits e d \<longleftrightarrow> length d \<le> unat (kc_mtu (en_config e)) \<and>
     (\<exists>s. segment_ok s \<and> d = segment_encode s [] \<and> segment_conv s = en_conv e \<and>
        (\<forall>ds. s = Data ds \<longrightarrow> (ds_number ds, ds_payload ds) \<in> set (window_view (en_sending e))))"

text \<open>
  The step of an operation other than a write: nothing is added to the sending window, the
  receiving window is not touched here, and what goes out is built from \<open>e\<close>.
\<close>

definition engine_le :: "engine \<Rightarrow> engine \<Rightarrow> bool" where
  "engine_le e' e \<longleftrightarrow>
     sending_le (en_sending e') (en_sending e) \<and> en_conv e' = en_conv e \<and> en_config e' = en_config e \<and>
     en_mss e' = en_mss e \<and> al_mtu (rw_acks (en_receiving e')) = al_mtu (rw_acks (en_receiving e)) \<and>
     (acks_ok (rw_acks (en_receiving e)) \<longrightarrow> acks_ok (rw_acks (en_receiving e'))) \<and>
     (engine_inv e \<longrightarrow> (\<exists>new. en_out e' = en_out e @ new \<and> (\<forall>d \<in> set new. emits e d)))"

lemma engine_leD:
  assumes "engine_le e' e"
  shows "set (window_view (en_sending e')) \<subseteq> set (window_view (en_sending e))"
    "length (sw_window (en_sending e')) \<le> length (sw_window (en_sending e))"
    "sw_window_size (en_sending e') = sw_window_size (en_sending e)"
    "sw_next_number (en_sending e') = sw_next_number (en_sending e)"
    "en_conv e' = en_conv e" "en_config e' = en_config e" "en_mss e' = en_mss e"
    "al_mtu (rw_acks (en_receiving e')) = al_mtu (rw_acks (en_receiving e))"
    "acks_ok (rw_acks (en_receiving e)) \<Longrightarrow> acks_ok (rw_acks (en_receiving e'))"
  using assms by (simp_all add: engine_le_def sending_le_def)

lemma engine_le_inv:
  assumes "engine_le e' e" "engine_inv e"
  shows "engine_inv e'"
proof -
  note d = engine_leD [OF assms(1)] and i = assms(2) [unfolded engine_inv_def]
  have "\<forall>x \<in> set (window_view (en_sending e')). payload_ok (en_config e) (snd x)"
    using d(1) i by blast
  moreover have "length (sw_window (en_sending e')) \<le> Suc (unat (sw_window_size (en_sending e)))"
    using d(2) i by linarith
  ultimately show ?thesis using i by (simp add: engine_inv_def d(3-9))
qed

lemma emits_mono:
  assumes "emits e' d" "engine_le e' e"
  shows "emits e d"
proof -
  note le = engine_leD [OF assms(2)]
  obtain s where s: "length d \<le> unat (kc_mtu (en_config e'))" "segment_ok s" "d = segment_encode s []"
      "segment_conv s = en_conv e'"
      "\<forall>ds. s = Data ds \<longrightarrow> (ds_number ds, ds_payload ds) \<in> set (window_view (en_sending e'))"
    using assms(1) by (auto simp: emits_def)
  show ?thesis
    unfolding emits_def using s le(1) by (intro conjI exI [of _ s]) (auto simp: le(5,6))
qed

lemma engine_le_refl [simp]: "engine_le e e"
  by (simp add: engine_le_def)

lemma engine_le_trans [trans]:
  assumes "engine_le c b" "engine_le b a"
  shows "engine_le c a"
proof -
  have "\<exists>new. en_out c = en_out a @ new \<and> (\<forall>d \<in> set new. emits a d)" if a: "engine_inv a"
  proof -
    have "engine_inv b" by (rule engine_le_inv [OF assms(2) a])
    then obtain n1 n2 where "en_out c = en_out b @ n1" "\<forall>d \<in> set n1. emits b d"
        "en_out b = en_out a @ n2" "\<forall>d \<in> set n2. emits a d"
      using assms a unfolding engine_le_def by blast
    then show ?thesis using emits_mono [OF _ assms(2)] by (intro exI [of _ "n2 @ n1"]) auto
  qed
  then show ?thesis using assms unfolding engine_le_def by (auto intro: sending_le_trans)
qed

text \<open>Steps that send nothing.\<close>

lemma engine_le_quiet:
  assumes "sending_le (en_sending e') (en_sending e)" "en_conv e' = en_conv e" "en_config e' = en_config e"
    "en_mss e' = en_mss e" "rw_acks (en_receiving e') = rw_acks (en_receiving e)" "en_out e' = en_out e"
  shows "engine_le e' e"
  using assms by (simp add: engine_le_def)

lemma set_state_le: "engine_le (set_state st current e) e"
  using sending_le_trans [OF sending_empty_le close_write_le]
  by (intro engine_le_quiet)
    (simp_all add: set_state_def Let_def close_write_le sending_empty_le receiving_release_def)

lemma engine_close_le: "engine_le (snd (engine_close current e)) e"
proof -
  have q: "engine_le (e\<lparr>en_input_ready := True, en_output_ready := True\<rparr>) e"
    by (rule engine_le_quiet) simp_all
  show ?thesis
    using engine_le_trans [OF set_state_le q] q by (simp add: engine_close_def Let_def split: kcp_state.split)
qed

lemma on_peer_closed_le: "engine_le (on_peer_closed current e) e"
  by (simp add: on_peer_closed_def set_state_le split: kcp_state.split)

lemma handle_option_le: "engine_le (handle_option opt current e) e"
  by (simp add: handle_option_def on_peer_closed_le)

lemma on_terminate_le: "engine_le (on_terminate current e) e"
  by (simp add: on_terminate_def set_state_le split: kcp_state.split)

lemma acks_ok_add: "acks_ok a \<Longrightarrow> acks_ok (ack_add n t a)"
  by (simp add: acks_ok_def ack_add_def)

lemma acks_ok_clear: "acks_ok a \<Longrightarrow> acks_ok (ack_clear una a)"
  by (simp add: acks_ok_def ack_clear_def Let_def)

lemma al_mtu_keeps [simp]: "al_mtu (ack_add n t a) = al_mtu a" "al_mtu (ack_clear una a) = al_mtu a"
  by (simp_all add: ack_add_def ack_clear_def Let_def)

lemma input_segment_le: "engine_le (input_segment current s e) e"
proof (cases s)
  case (Data d)
  let ?e = "handle_option (ds_option d) current e"
  have "engine_le (input_segment current s e) ?e"
    using acks_ok_add acks_ok_clear
    by (simp add: Data Let_def engine_le_def receiving_process_segment_def)
  then show ?thesis by (rule engine_le_trans [OF _ handle_option_le])
next
  case (Ack a)
  let ?e = "handle_option (as_option a) current e"
  have "engine_le (input_segment current s e) ?e"
    by (intro engine_le_quiet)
      (auto simp: Ack Let_def dest: sending_process_segment_le split: prod.splits)
  then show ?thesis by (rule engine_le_trans [OF _ handle_option_le])
next
  case (Cmd c)
  let ?e = "handle_option (cs_option c) current e"
  let ?f = "if cs_cmd c = CMD_TERMINATE then on_terminate current ?e else ?e"
  have "engine_le (input_segment current s e) ?f"
    using acks_ok_clear process_receiving_next_le by (simp add: Cmd Let_def engine_le_def)
  moreover have "engine_le ?f ?e" using on_terminate_le by simp
  ultimately show ?thesis by (blast intro: engine_le_trans handle_option_le)
qed

lemma input_segments_le: "engine_le (input_segments current ss e) e"
  by (induction ss arbitrary: e) (auto intro: engine_le_trans input_segment_le)

lemma engine_input_le: "engine_le (engine_input ss current e) e"
proof -
  have "engine_le (e\<lparr>en_last_incoming_time := current\<rparr>) e" by (rule engine_le_quiet) simp_all
  then show ?thesis unfolding engine_input_def by (rule engine_le_trans [OF input_segments_le])
qed

text \<open>Commands and acknowledgements on the wire.\<close>

lemma u32_le_unat: "(a :: u32) \<le> b \<longleftrightarrow> unat a \<le> unat b"
  by (simp add: word_le_nat_alt)

lemma config_ok_mtu: "config_ok c \<Longrightarrow> 21 \<le> unat (kc_mtu c) \<and> unat (kc_mtu c) \<le> 8192"
  by (simp add: config_ok_def u32_le_unat)

lemma ping_le:
  assumes "cmd \<notin> {CMD_ACK, CMD_DATA}"
  shows "engine_le (ping current cmd e) e"
proof -
  let ?s = "\<lparr>cs_conv = en_conv e, cs_cmd = cmd, cs_option = close_option e,
      cs_sending_next = sw_first_unacknowledged (en_sending e),
      cs_receiving_next = rw_next_number (en_receiving e), cs_peer_rto = rt_rto (en_round_trip e)\<rparr>"
  have "emits e (cmd_encode ?s [])" if "engine_inv e"
    unfolding emits_def
  proof (intro conjI exI [of _ "Cmd ?s"])
    show "length (cmd_encode ?s []) \<le> unat (kc_mtu (en_config e))"
      using that config_ok_mtu by (force simp: cmd_encode_def engine_inv_def)
  qed (use assms in auto)
  then show ?thesis
    by (auto simp: engine_le_def ping_def Let_def)
qed

lemma ping_commands [simp]: "CMD_PING \<notin> {CMD_ACK, CMD_DATA}" "CMD_TERMINATE \<notin> {CMD_ACK, CMD_DATA}"
  by (simp_all add: CMD_PING_def CMD_TERMINATE_def CMD_ACK_def CMD_DATA_def)

lemma new_segment_limit:
  assumes "21 \<le> unat (al_mtu a)"
  shows "1 \<le> as_limit (new_segment a)" "as_limit (new_segment a) \<le> 128"
    "17 + 4 * as_limit (new_segment a) \<le> unat (al_mtu a)" "as_numbers (new_segment a) = []"
proof -
  define m where "m = int (unat (al_mtu a))"
  define x where "x = (m - 17) div 4"
  have "21 \<le> m" using assms unfolding m_def by linarith
  then have x: "1 \<le> x" "17 + 4 * x \<le> m" "\<not> m - 17 < 0" by (auto simp: x_def)
  have n: "new_segment a = ack_new x" using x(3) by (simp only: new_segment_def x_def Let_def if_False flip: m_def)
  have l: "as_limit (new_segment a) = nat (min (max x 1) 128)" "as_numbers (new_segment a) = []"
    by (simp_all add: n ack_new_def ACK_NUMBER_LIMIT_def)
  then show "as_numbers (new_segment a) = []" by simp
  show "1 \<le> as_limit (new_segment a)" "as_limit (new_segment a) \<le> 128" using l x by auto
  have "int (17 + 4 * as_limit (new_segment a)) \<le> m" using l x by auto
  then show "17 + 4 * as_limit (new_segment a) \<le> unat (al_mtu a)" unfolding m_def by linarith
qed

definition ack_fits :: "nat \<Rightarrow> ack_segment \<Rightarrow> bool" where
  "ack_fits limit s \<longleftrightarrow> as_limit s = limit \<and> length (as_numbers s) \<le> limit"

lemma put_timestamp_keeps [simp]:
  "as_limit (put_timestamp t s) = as_limit s" "as_numbers (put_timestamp t s) = as_numbers s"
  by (simp_all add: put_timestamp_def)

lemma new_segment_eq: "al_mtu a = al_mtu b \<Longrightarrow> new_segment a = new_segment b"
  by (simp add: new_segment_def)

lemma ack_flush_loop_fits:
  assumes "ack_flush_loop current rto is segment written a = (segment', written', a')"
    and "21 \<le> unat (al_mtu a)" "limit = as_limit (new_segment a)"
    and "ack_fits limit segment" "\<not> is_full segment" "\<forall>s \<in> set written. ack_fits limit s" "acks_ok a"
  shows "ack_fits limit segment' \<and> (\<forall>s \<in> set written'. ack_fits limit s) \<and> acks_ok a' \<and> al_mtu a' = al_mtu a"
  using assms
proof (induction current rto "is" segment written a rule: ack_flush_loop.induct)
  case (2 current rto i "is" segment written a)
  show ?case
  proof (cases "al_next_flush a ! i > current")
    case True
    let ?a = "if length (al_flush_candidates a) < FLUSH_CANDIDATES
      then a\<lparr>al_flush_candidates := al_flush_candidates a @ [al_numbers a ! i]\<rparr> else a"
    have "al_mtu ?a = al_mtu a" "acks_ok ?a" using "2.prems"(7) by (simp_all add: acks_ok_def)
    moreover note new_segment_eq [OF this(1)]
    ultimately show ?thesis using "2.IH"(1) [OF True] "2.prems" True by simp
  next
    case False
    let ?s = "put_timestamp (al_timestamps a ! i) (segment\<lparr>as_numbers := as_numbers segment @ [al_numbers a ! i]\<rparr>)"
    let ?a = "a\<lparr>al_next_flush := (al_next_flush a)[i := current + max (rto div 2) 20]\<rparr>"
    have a: "al_mtu ?a = al_mtu a" "acks_ok ?a" using "2.prems"(7) by (simp_all add: acks_ok_def)
    have s: "ack_fits limit ?s" using "2.prems"(4,5) by (simp add: ack_fits_def is_full_def)
    note lim = new_segment_limit [OF "2.prems"(2)]
    have n: "new_segment ?a = new_segment a" by (rule new_segment_eq [OF a(1)])
    have d: "new_segment (?a\<lparr>al_dirty := False\<rparr>) = new_segment a" by (rule new_segment_eq) simp
    show ?thesis
    proof (cases "is_full ?s")
      case full: True
      have "ack_fits limit (new_segment ?a)" "\<not> is_full (new_segment ?a)"
        using lim n "2.prems"(3) by (auto simp: ack_fits_def is_full_def)
      moreover have "ack_flush_loop current rto (i # is) segment written a =
          ack_flush_loop current rto is (new_segment ?a) (written @ [?s]) (?a\<lparr>al_dirty := False\<rparr>)"
        using False full by (simp add: Let_def)
      ultimately have "ack_fits limit segment' \<and> (\<forall>s \<in> set written'. ack_fits limit s) \<and> acks_ok a' \<and>
          al_mtu a' = al_mtu (?a\<lparr>al_dirty := False\<rparr>)"
        using "2.prems" s a(2) d
        by (intro "2.IH"(2) [OF False refl refl full]) (auto simp: acks_ok_def)
      then show ?thesis by simp
    next
      case nf: False
      have "ack_flush_loop current rto (i # is) segment written a = ack_flush_loop current rto is ?s written ?a"
        using False nf by (simp add: Let_def)
      then have "ack_fits limit segment' \<and> (\<forall>s \<in> set written'. ack_fits limit s) \<and> acks_ok a' \<and>
          al_mtu a' = al_mtu ?a"
        using "2.prems" s a(2) n nf
        by (intro "2.IH"(3) [OF False refl refl nf]) auto
      then show ?thesis by simp
    qed
  qed
qed simp

lemma fill_candidates_fits: "ack_fits limit s \<Longrightarrow> ack_fits limit (fill_candidates ns s)"
  by (induction ns s rule: fill_candidates.induct) (auto simp: ack_fits_def is_full_def)

lemma ack_flush_fits:
  assumes "ack_flush current rto a = (written, a')" "21 \<le> unat (al_mtu a)" "acks_ok a"
  shows "(\<forall>s \<in> set written. ack_fits (as_limit (new_segment a)) s) \<and> acks_ok a' \<and> al_mtu a' = al_mtu a"
proof -
  let ?a = "a\<lparr>al_flush_candidates := []\<rparr>"
  obtain segment w b where l: "ack_flush_loop current rto [0..<length (al_numbers ?a)] (new_segment ?a) [] ?a = (segment, w, b)"
    by (metis prod_cases3)
  have n: "new_segment ?a = new_segment a" by (rule new_segment_eq) simp
  have "ack_fits (as_limit (new_segment a)) segment \<and> (\<forall>s \<in> set w. ack_fits (as_limit (new_segment a)) s) \<and>
      acks_ok b \<and> al_mtu b = al_mtu ?a"
    using new_segment_limit [OF assms(2)] assms(2,3)
    by (intro ack_flush_loop_fits [OF l]) (auto simp: n ack_fits_def is_full_def acks_ok_def)
  then show ?thesis
    using assms(1) l fill_candidates_fits
    by (auto simp: ack_flush_def Let_def acks_ok_def split: if_splits)
qed

lemma ack_flush_loop_keeps:
  "ack_flush_loop current rto is segment written a = (segment', written', a') \<Longrightarrow>
   al_mtu a' = al_mtu a \<and> acks_ok a' = acks_ok a"
proof (induction current rto "is" segment written a rule: ack_flush_loop.induct)
  case (2 current rto i "is" segment written a)
  then show ?case by (auto simp: Let_def acks_ok_def split: if_splits)
qed simp

lemma ack_flush_keeps: "ack_flush current rto a = (written, a') \<Longrightarrow> al_mtu a' = al_mtu a \<and> acks_ok a' = acks_ok a"
  by (auto simp: ack_flush_def Let_def acks_ok_def split: prod.splits if_splits dest!: ack_flush_loop_keeps)

lemma flush_acks_le: "engine_le (flush_acks current e) e"
proof -
  let ?r = "en_receiving e"
  obtain written acks where f: "ack_flush current (rt_rto (en_round_trip e)) (rw_acks ?r) = (written, acks)" by force
  let ?s = "\<lambda>s. s\<lparr>as_conv := en_conv e, as_receiving_next := rw_next_number ?r,
      as_receiving_window := rw_next_number ?r + rw_window_size ?r, as_option := close_option e\<rparr>"
  have out: "en_out (flush_acks current e) = en_out e @ map (\<lambda>s. ack_encode (?s s) []) written"
    by (simp add: flush_acks_def Let_def f)
  have "emits e (ack_encode (?s s) [])" if inv: "engine_inv e" and s: "s \<in> set written" for s
  proof -
    have m: "21 \<le> unat (al_mtu (rw_acks ?r))" "acks_ok (rw_acks ?r)"
        "al_mtu (rw_acks ?r) = kc_mtu (en_config e)"
      using inv config_ok_mtu by (auto simp: engine_inv_def)
    have fits: "ack_fits (as_limit (new_segment (rw_acks ?r))) s" using ack_flush_fits [OF f m(1,2)] s by blast
    note lim = new_segment_limit [OF m(1)]
    show ?thesis
      unfolding emits_def
    proof (intro conjI exI [of _ "Ack ((?s s)\<lparr>as_limit := ACK_NUMBER_LIMIT\<rparr>)"])
      show "length (ack_encode (?s s) []) \<le> unat (kc_mtu (en_config e))"
        using fits lim(3) m(3) by (simp add: ack_encode_def length_concat_be32 ack_fits_def)
      show "segment_ok (Ack ((?s s)\<lparr>as_limit := ACK_NUMBER_LIMIT\<rparr>))"
        using fits lim(2) by (simp add: ack_fits_def)
    qed (simp_all add: ack_encode_def)
  qed
  then show ?thesis
    using ack_flush_keeps [OF f] by (auto simp: engine_le_def flush_acks_def Let_def f)
qed

lemma flush_window_datagrams:
  assumes "flush_window current rto cwnd header ss lost fl tot = (ss', out, counts)" "d \<in> set out"
  shows "\<exists>u \<in> set ss. \<exists>v. un_number v = un_number u \<and> un_payload v = un_payload u \<and>
    d = encode_data [] (header v) (un_payload u)"
  using assms
proof (induction current rto cwnd header ss lost fl tot arbitrary: ss' out counts rule: flush_window.induct)
  case (2 current rto cwnd header s ss lost fl tot)
  let ?v = "s\<lparr>un_timeout := current + rto, un_timestamp := current, un_transmit := un_transmit s + 1\<rparr>"
  let ?d = "encode_data [] (header ?v) (un_payload s)"
  have hd: "\<exists>u \<in> set (s # ss). \<exists>v. un_number v = un_number u \<and> un_payload v = un_payload u \<and>
      ?d = encode_data [] (header v) (un_payload u)"
    by (intro bexI [of _ s] exI [of _ ?v]) simp_all
  let ?tot = "if un_transmit s = 0 then tot + 1 else tot"
    and ?lost = "if un_transmit s = 0 then lost else lost + 1"
  show ?case
  proof (cases "current - un_timeout s \<ge> 0x7FFFFFFF")
    case True
    obtain ss1 out1 c1 where f: "flush_window current rto cwnd header ss lost fl tot = (ss1, out1, c1)"
      by (metis prod_cases3)
    then have "d \<in> set out1" using "2.prems" True by simp
    then show ?thesis using "2.IH"(1) [OF True f] by auto
  next
    case False
    show ?thesis
    proof (cases "fl + 1 \<ge> cwnd")
      case full: True
      then have "d = ?d" using "2.prems" False by (auto simp: Let_def)
      then show ?thesis using hd by simp
    next
      case nf: False
      obtain ss1 out1 c1 where f: "flush_window current rto cwnd header ss ?lost (fl + 1) ?tot = (ss1, out1, c1)"
        by (metis prod_cases3)
      then have "d = ?d \<or> d \<in> set out1" using "2.prems" False nf by (auto simp: Let_def)
      then show ?thesis
        using "2.IH"(2) [OF False refl refl refl refl refl nf f] hd by auto
    qed
  qed
qed simp

lemma emits_data:
  assumes "engine_inv e" "u \<in> set (sw_window (en_sending e))" "dh_conv h = en_conv e" "dh_number h = un_number u"
  shows "emits e (encode_data [] h (un_payload u))"
proof -
  let ?s = "\<lparr>ds_conv = dh_conv h, ds_option = dh_option h, ds_timestamp = dh_timestamp h, ds_number = dh_number h,
      ds_sending_next = dh_sending_next h, ds_payload = un_payload u\<rparr>"
  have v: "(un_number u, un_payload u) \<in> set (window_view (en_sending e))"
    using assms(2) by (force simp: window_view_def)
  then have p: "payload_ok (en_config e) (un_payload u)" using assms(1) by (auto simp: engine_inv_def)
  have m: "unat (kc_mtu (en_config e)) \<le> 8192" using assms(1) config_ok_mtu by (simp add: engine_inv_def)
  show ?thesis
    unfolding emits_def
  proof (intro conjI exI [of _ "Data ?s"])
    show "length (encode_data [] h (un_payload u)) \<le> unat (kc_mtu (en_config e))"
      using p by (simp add: encode_data_def payload_ok_def)
    show "segment_ok (Data ?s)" using p m by (simp add: payload_ok_def)
  qed (use v assms(3,4) in \<open>simp_all add: data_encode_def encode_data_def\<close>)
qed

lemma flush_data_window_le: "engine_le (flush_data_window current e) e"
proof (cases "sw_window (en_sending e) = []")
  case True
  then show ?thesis by (simp add: flush_data_window_def)
next
  case False
  let ?w = "en_sending e" and ?rto = "rt_rto (en_round_trip e)"
  let ?header = "\<lambda>s. \<lparr>dh_conv = en_conv e, dh_option = close_option e, dh_timestamp = un_timestamp s,
      dh_number = un_number s, dh_sending_next = sw_first_unacknowledged ?w\<rparr>"
  obtain window out lost inflight total' where f:
    "flush_window current ?rto (congestion_window (en_config e) ?w) ?header (sw_window ?w) 0 0
       (sw_total_in_flight_size ?w) = (window, out, lost, inflight, total')"
    by (rule prod_cases5)
  let ?v = "?w\<lparr>sw_window := window, sw_total_in_flight_size := total'\<rparr>"
  let ?u = "if inflight > 0 \<and> total' \<noteq> 0
    then on_packet_loss (lost * 100 div total') ?rto (en_config e) ?v else ?v"
  have eq: "flush_data_window current e =
      e\<lparr>en_out := en_out e @ out, en_sending := ?u\<lparr>sw_first_unacknowledged_updated := False\<rparr>\<rparr>"
    using False f by (simp add: flush_data_window_def Let_def)
  have view: "map (\<lambda>u. (un_number u, un_payload u)) window = map (\<lambda>u. (un_number u, un_payload u)) (sw_window ?w)"
    by (rule flush_window_view [OF f])
  have "length window = length (sw_window ?w)" using arg_cong [OF view, of length] by simp
  then have "sending_le ?v ?w" using view by (simp add: sending_le_def window_view_def)
  then have le: "sending_le ?u ?w" by simp
  have "emits e d" if inv: "engine_inv e" and d: "d \<in> set out" for d
    using flush_window_datagrams [OF f d] emits_data [OF inv] by auto
  then show ?thesis using le by (auto simp: engine_le_def eq)
qed

lemma flush_data_le: "engine_le (flush_data current e) e"
proof (cases "sw_closed (en_sending e)")
  case True
  then show ?thesis by (simp add: flush_data_def)
next
  case False
  let ?f = "flush_data_window current e"
  let ?g = "?f\<lparr>en_sending := (en_sending ?f)\<lparr>sw_first_unacknowledged_updated := False\<rparr>\<rparr>"
  have g: "engine_le ?g ?f" by (rule engine_le_quiet) simp_all
  have eq: "flush_data current e =
      (if sw_first_unacknowledged_updated (en_sending ?f) then ping current CMD_PING ?g else ?g)"
    using False by (simp add: flush_data_def Let_def)
  have "engine_le (flush_data current e) ?g" using ping_le [OF ping_commands(1)] by (simp add: eq)
  also note g
  also note flush_data_window_le
  finally show ?thesis .
qed

lemma flush_timers_le: "engine_le (flush_timers current e) e"
  unfolding flush_timers_def Let_def
  by (auto intro: engine_le_trans [OF set_state_le engine_close_le] set_state_le engine_close_le)

lemma flush_late_timers_le: "engine_le (flush_late_timers current e) e"
  unfolding flush_late_timers_def Let_def
  by (auto intro: engine_le_trans [OF set_state_le set_state_le] set_state_le)

lemma engine_flush_le: "engine_le (engine_flush current e) e"
proof -
  let ?e = "flush_timers current e"
  let ?p = "ping current CMD_TERMINATE ?e"
  let ?f = "flush_data current (flush_acks current (flush_late_timers current ?e))"
  have 1: "engine_le ?e e" by (rule flush_timers_le)
  have 2: "engine_le ?p ?e" by (rule ping_le [OF ping_commands(2)])
  have 3: "engine_le ?f ?e"
    by (rule engine_le_trans [OF flush_data_le engine_le_trans [OF flush_acks_le flush_late_timers_le]])
  have "engine_le (set_state Terminated current ?p) e" "engine_le ?p e" "engine_le ?f e"
      "engine_le (ping current CMD_PING ?f) e"
    using 1 2 3 set_state_le ping_le [OF ping_commands(1)] by (blast intro: engine_le_trans)+
  then show ?thesis by (simp add: engine_flush_def Let_def)
qed

lemma take_in_order_acks: "rw_acks (take_in_order w) = rw_acks w"
  by (induction w rule: take_in_order.induct) (subst take_in_order.simps, simp split: option.split)

lemma receiving_read_acks: "receiving_read n w = (c, w') \<Longrightarrow> rw_acks w' = rw_acks w"
  by (auto simp: receiving_read_def Let_def take_in_order_acks split: if_splits)

lemma engine_read_le: "engine_le (snd (engine_read n e)) e"
  by (intro engine_le_quiet)
    (auto simp: engine_read_def Let_def dest: receiving_read_acks split: prod.splits)

section \<open>Writing\<close>

fun number_from :: "u32 \<Rightarrow> bytes list \<Rightarrow> (u32 \<times> bytes) list" where
  "number_from n [] = []"
| "number_from n (p # ps) = (n, p) # number_from (n + 1) ps"

text \<open>The engine after the pieces \<open>ps\<close> have been pushed.\<close>

definition wrote :: "engine \<Rightarrow> bytes list \<Rightarrow> engine \<Rightarrow> bool" where
  "wrote e ps e' \<longleftrightarrow>
     window_view (en_sending e') = window_view (en_sending e) @ number_from (sw_next_number (en_sending e)) ps \<and>
     sw_next_number (en_sending e') = sw_next_number (en_sending e) + of_nat (length ps) \<and>
     en_out e' = en_out e \<and> en_conv e' = en_conv e \<and> en_config e' = en_config e \<and>
     en_receiving e' = en_receiving e \<and> en_state e' = en_state e"

lemma wrote_Nil [simp]: "wrote e [] e"
  by (simp add: wrote_def)

lemma sending_buffer_bound: "config_ok c \<Longrightarrow> Suc (unat (sending_buffer_size c)) < 2 ^ 32"
proof -
  assume "config_ok c"
  then have "21 \<le> unat (kc_mtu c)" using config_ok_mtu by simp
  then have "unat (kc_max_sending_window c) div unat (kc_mtu c) \<le> unat (kc_max_sending_window c) div 21"
    by (intro div_le_mono2) auto
  also have "\<dots> \<le> 4294967296 div 21"
    using unat_u32_lt [of "kc_max_sending_window c"] by (intro div_le_mono) linarith
  finally show ?thesis by (simp add: sending_buffer_size_def unat_div)
qed

lemma push_inv:
  assumes "engine_inv e" "sending_push p (en_sending e) = (b, w)" "payload_ok (en_config e) p"
  shows "if b then engine_inv (e\<lparr>en_sending := w\<rparr>) \<and> wrote e [p] (e\<lparr>en_sending := w\<rparr>) else w = en_sending e"
proof (cases b)
  case True
  let ?w = "en_sending e"
  have nc: "\<not> of_nat (length (sw_window ?w)) > sw_window_size ?w"
    and w: "w = ?w\<lparr>sw_window := sw_window ?w @ [\<lparr>un_number = sw_next_number ?w, un_timestamp = 0, un_payload = p,
        un_timeout = 0, un_transmit = 0\<rparr>], sw_next_number := sw_next_number ?w + 1\<rparr>"
    using assms(2) True by (auto simp: sending_push_def split: if_splits)
  have len: "length (sw_window ?w) < 2 ^ 32"
  proof -
    have "config_ok (en_config e)" "length (sw_window ?w) \<le> Suc (unat (sending_buffer_size (en_config e)))"
      using assms(1) by (auto simp: engine_inv_def)
    then show ?thesis using sending_buffer_bound [of "en_config e"] by linarith
  qed
  have "length (sw_window ?w) \<le> unat (sw_window_size ?w)"
    using nc len by (simp add: not_less word_le_nat_alt unat_of_nat)
  then show ?thesis
    using True assms(1,3) w by (simp add: engine_inv_def wrote_def window_view_def)
next
  case False
  then show ?thesis using assms(2) by (auto simp: sending_push_def split: if_splits)
qed

lemma wrote_Cons: "wrote e [p] e1 \<Longrightarrow> wrote e1 ps e2 \<Longrightarrow> wrote e (p # ps) e2"
  by (simp add: wrote_def algebra_simps)

lemma write_pieces_inv:
  assumes "write_pieces ps n e = (m, e')" "engine_inv e" "list_all (payload_ok (en_config e)) ps"
  shows "\<exists>k \<le> length ps. m = n + length (concat (take k ps)) \<and> engine_inv e' \<and> wrote e (take k ps) e' \<and>
    (k = 0 \<or> en_state e = Active)"
  using assms
proof (induction ps n e rule: write_pieces.induct)
  case (2 p ps n e)
  obtain b w where p: "sending_push p (en_sending e) = (b, w)" by force
  have ok: "payload_ok (en_config e) p" using "2.prems"(3) by simp
  show ?case
  proof (cases "en_state e = Active \<and> b")
    case False
    then have "m = n \<and> e' = e"
      using "2.prems"(1) p push_inv [OF "2.prems"(2) p ok] by (auto split: if_splits)
    then show ?thesis using "2.prems"(2) by (intro exI [of _ 0]) simp
  next
    case True
    let ?e = "e\<lparr>en_sending := w\<rparr>"
    have i: "engine_inv ?e" "wrote e [p] ?e" using push_inv [OF "2.prems"(2) p ok] True by auto
    have "\<exists>k \<le> length ps. m = n + length p + length (concat (take k ps)) \<and> engine_inv e' \<and>
        wrote ?e (take k ps) e' \<and> (k = 0 \<or> en_state ?e = Active)"
      using True p "2.prems" i by (intro "2.IH") auto
    then obtain k where "k \<le> length ps" "m = n + length p + length (concat (take k ps))" "engine_inv e'"
        "wrote ?e (take k ps) e'" by blast
    then show ?thesis using wrote_Cons [OF i(2)] True by (intro exI [of _ "Suc k"]) auto
  qed
qed auto

lemma engine_write_inv:
  assumes "engine_write data e = (r, e')" "engine_inv e"
  shows "\<exists>ps. engine_inv e' \<and> wrote e ps e' \<and> list_all (payload_ok (en_config e)) ps \<and>
    prefix (concat ps) data \<and> (case r of Inl _ \<Rightarrow> ps = [] | Inr n \<Rightarrow> n = length (concat ps) \<and> 0 < n)"
proof -
  let ?n = "min (unat (en_mss e)) MAX_SEGMENT_PAYLOAD"
  have mtu: "21 \<le> unat (kc_mtu (en_config e))" and mss: "en_mss e = kc_mtu (en_config e) - 18"
    using assms(2) config_ok_mtu by (auto simp: engine_inv_def DATA_OVERHEAD_def)
  then have m: "unat (en_mss e) = unat (kc_mtu (en_config e)) - 18"
    by (simp add: unat_sub word_le_nat_alt)
  then have n: "0 < ?n" "18 + ?n \<le> unat (kc_mtu (en_config e))" using mtu by (auto simp: MAX_SEGMENT_PAYLOAD_def)
  have ok: "list_all (payload_ok (en_config e)) (chunks ?n data)"
    using chunks_lengths [of _ ?n data] n(2) by (fastforce simp: list_all_iff payload_ok_def)
  obtain m f where w: "write_pieces (chunks ?n data) 0 e = (m, f)" by force
  obtain k where k: "k \<le> length (chunks ?n data)" "m = length (concat (take k (chunks ?n data)))" "engine_inv f"
      "wrote e (take k (chunks ?n data)) f"
    using write_pieces_inv [OF w assms(2) ok] by auto
  let ?ps = "take k (chunks ?n data)"
  have pre: "prefix (concat ?ps) data"
    using chunks_concat [OF n(1), of data] by (metis append_take_drop_id concat_append prefixI)
  have okk: "list_all (payload_ok (en_config e)) ?ps" using ok by (auto simp: list_all_iff dest: in_set_takeD)
  show ?thesis
  proof (cases "m = 0")
    case True
    have "?ps = []"
    proof (rule ccontr)
      assume "?ps \<noteq> []"
      then have "concat ?ps \<noteq> []" using okk by (cases ?ps) (auto simp: payload_ok_def)
      then show False using True k(2) by simp
    qed
    moreover have "e' = f" "\<exists>b. r = Inl b" using assms(1) w True by (auto simp: engine_write_def Let_def)
    ultimately show ?thesis using k(3,4) by (intro exI [of _ "[]"]) auto
  next
    case False
    have e': "e' = f\<lparr>en_wake_data := True\<rparr>" and r: "r = Inr m"
      using assms(1) w False by (auto simp: engine_write_def Let_def)
    have "engine_inv e'" unfolding e' by (rule engine_le_inv [OF engine_le_quiet k(3)]) simp_all
    moreover have "wrote e ?ps e'" using k(4) unfolding e' wrote_def by simp
    ultimately show ?thesis using k(2) okk pre False r by (intro exI [of _ ?ps]) simp
  qed
qed

end
