(* ===== verification/Xr_Kcp_Run.thy ===== *)
theory Xr_Kcp_Run
  imports Xr_Kcp_Inv
begin

text \<open>
  Runs of an mKCP engine under the operations of the stream and the driver, \<open>kcp/mod.rs\<close>: every
  datagram fits the MTU and reads back, the states only move forward, and a closed connection
  terminates.
\<close>

section \<open>Runs\<close>

text \<open>
  What the stream and the driver of \<open>kcp/mod.rs\<close> do with an engine: close, read, write, hand over a
  datagram, flush, and take the datagrams to send.
\<close>

datatype kcp_op = OpClose u32 | OpRead nat | OpWrite bytes | OpReceive bytes u32 | OpFlush u32 | OpSend

definition driver_receive :: "bytes \<Rightarrow> u32 \<Rightarrow> engine \<Rightarrow> engine" where
  "driver_receive datagram current e =
     (let segments = read_segments datagram in if segments = [] then e else engine_input segments current e)"

fun kcp_step :: "kcp_op \<Rightarrow> engine \<Rightarrow> engine" where
  "kcp_step (OpClose t) e = snd (engine_close t e)"
| "kcp_step (OpRead n) e = snd (engine_read n e)"
| "kcp_step (OpWrite data) e = snd (engine_write data e)"
| "kcp_step (OpReceive d t) e = driver_receive d t e"
| "kcp_step (OpFlush t) e = engine_flush t e"
| "kcp_step OpSend e = e\<lparr>en_out := []\<rparr>"

abbreviation kcp_run :: "kcp_op list \<Rightarrow> engine \<Rightarrow> engine" where
  "kcp_run ops e \<equiv> fold kcp_step ops e"

lemma driver_receive_le: "engine_le (driver_receive d t e) e"
  by (simp add: driver_receive_def Let_def engine_input_le)

text \<open>A datagram that any peer of the conversation reads.\<close>

definition wire_ok :: "u16 \<Rightarrow> nat \<Rightarrow> bytes \<Rightarrow> bool" where
  "wire_ok conv mtu d \<longleftrightarrow> length d \<le> mtu \<and> (\<exists>s. read_segments d = [s] \<and> segment_conv s = conv)"

lemma emits_wire: "emits e d \<Longrightarrow> wire_ok (en_conv e) (unat (kc_mtu (en_config e))) d"
proof -
  assume "emits e d"
  then obtain s where s: "segment_ok s" "d = segment_encode s []" "segment_conv s = en_conv e"
      "length d \<le> unat (kc_mtu (en_config e))"
    by (auto simp: emits_def)
  then have "read_segments d = [s]"
    using read_segments_append [of "[s]" "[]"] by (simp add: read_segments.simps [of "[]"])
  then show ?thesis using s by (simp add: wire_ok_def)
qed

definition run_inv :: "u16 \<Rightarrow> kcp_config \<Rightarrow> engine \<Rightarrow> bool" where
  "run_inv conv c e \<longleftrightarrow> engine_inv e \<and> en_conv e = conv \<and> en_config e = c \<and>
     (\<forall>d \<in> set (en_out e). wire_ok conv (unat (kc_mtu c)) d)"

lemma run_inv_le: "engine_le e' e \<Longrightarrow> run_inv conv c e \<Longrightarrow> run_inv conv c e'"
  using engine_le_inv [of e' e] emits_wire [of e]
  unfolding run_inv_def engine_le_def by auto

lemma engine_inv_out [simp]: "engine_inv (e\<lparr>en_out := out\<rparr>) = engine_inv e"
  by (simp add: engine_inv_def)

lemma run_inv_step:
  assumes "run_inv conv c e"
  shows "run_inv conv c (kcp_step op e)"
proof (cases op)
  case (OpWrite data)
  obtain r e' where w: "engine_write data e = (r, e')" by force
  have "engine_inv e" using assms by (simp add: run_inv_def)
  from engine_write_inv [OF w this] obtain ps where "engine_inv e'" "wrote e ps e'" by blast
  then show ?thesis using assms OpWrite w by (simp add: run_inv_def wrote_def)
next
  case OpSend
  then show ?thesis using assms OpSend by (simp add: run_inv_def)
qed (use run_inv_le [OF _ assms] engine_close_le engine_read_le driver_receive_le engine_flush_le in simp_all)

lemma run_inv_run: "run_inv conv c e \<Longrightarrow> run_inv conv c (kcp_run ops e)"
  by (induction ops arbitrary: e) (simp_all add: run_inv_step)

lemma run_inv_new: "config_ok c \<Longrightarrow> run_inv conv c (engine_new conv c)"
  by (simp add: run_inv_def engine_inv_def engine_new_def sending_new_def receiving_new_def window_view_def acks_ok_def)

text \<open>
  C19. Whatever happens to an engine with a configuration that was accepted - any writes, reads, datagrams from
  anywhere, flushes at any time - every datagram that it queues fits the MTU and reads back as
  exactly one segment of its conversation; the sending window holds at most one segment more
  than its size, no payload is empty or exceeds the segment size, and the three
  acknowledgement vectors stay aligned.
\<close>

theorem kcp_datagrams_fit:
  assumes "engine_config c = Inr c'" "e = kcp_run ops (engine_new conv c')"
  shows "(\<forall>d \<in> set (en_out e). length d \<le> unat (kc_mtu c') \<and>
      (\<exists>s. read_segments d = [s] \<and> segment_conv s = conv)) \<and>
    length (sw_window (en_sending e)) \<le> Suc (unat (sending_buffer_size c')) \<and>
    (\<forall>u \<in> set (sw_window (en_sending e)). un_payload u \<noteq> [] \<and> length (un_payload u) \<le> unat (en_mss e)) \<and>
    length (al_timestamps (rw_acks (en_receiving e))) = length (al_numbers (rw_acks (en_receiving e))) \<and>
    length (al_next_flush (rw_acks (en_receiving e))) = length (al_numbers (rw_acks (en_receiving e)))"
proof -
  have c: "c' = c" "config_ok c'" using assms(1) by (auto simp: engine_config_iff)
  have r: "run_inv conv c' e" unfolding assms(2) by (rule run_inv_run [OF run_inv_new [OF c(2)]])
  then have i: "engine_inv e" "en_config e = c'" and o: "\<forall>d \<in> set (en_out e). wire_ok conv (unat (kc_mtu c')) d"
    by (auto simp: run_inv_def)
  have mss: "unat (en_mss e) = unat (kc_mtu c') - 18"
    using i config_ok_mtu [OF c(2)] by (simp add: engine_inv_def DATA_OVERHEAD_def unat_sub word_le_nat_alt)
  have "un_payload u \<noteq> [] \<and> length (un_payload u) \<le> unat (en_mss e)" if "u \<in> set (sw_window (en_sending e))" for u
  proof -
    have "(un_number u, un_payload u) \<in> set (window_view (en_sending e))" using that by (force simp: window_view_def)
    then have "payload_ok c' (un_payload u)" using i by (auto simp: engine_inv_def)
    then show ?thesis using mss by (auto simp: payload_ok_def)
  qed
  moreover have "length (sw_window (en_sending e)) \<le> Suc (unat (sending_buffer_size c'))"
      "acks_ok (rw_acks (en_receiving e))"
    using i by (auto simp: engine_inv_def)
  ultimately show ?thesis using o by (auto simp: wire_ok_def acks_ok_def)
qed

definition example_config :: kcp_config where
  "example_config = \<lparr>kc_mtu = 1350, kc_tti = 50, kc_uplink_capacity = 5, kc_downlink_capacity = 20,
     kc_cwnd_multiplier = 1, kc_max_sending_window = 2097152\<rparr>"

lemma example_config_ok: "engine_config example_config = Inr example_config"
  by (simp add: engine_config_def example_config_def)

theorem kcp_datagrams_fit_witness:
  "list_all (\<lambda>d. length d \<le> 1350)
     (en_out (kcp_run [OpWrite [1, 2, 3], OpFlush 10, OpReceive [0, 7, 9] 12, OpClose 20, OpFlush 70]
        (engine_new 7 example_config)))"
  unfolding list_all_iff
  using kcp_datagrams_fit [OF example_config_ok refl,
      of "[OpWrite [1, 2, 3], OpFlush 10, OpReceive [0, 7, 9] 12, OpClose 20, OpFlush 70]" 7]
  by (auto simp: example_config_def)

section \<open>States\<close>

inductive lifecycle :: "kcp_state \<Rightarrow> kcp_state \<Rightarrow> bool" where
  closed_here: "lifecycle Active ReadyToClose"
| closed_by_peer: "lifecycle Active PeerClosed"
| terminated_by_peer: "lifecycle Active PeerTerminating"
| drained: "lifecycle ReadyToClose Terminating"
| both_closed: "lifecycle PeerClosed Terminating"
| peer_goes: "lifecycle PeerClosed PeerTerminating"
| peer_timeout: "lifecycle PeerTerminating Terminating"
| closed_after_peer: "lifecycle PeerTerminating Terminated"
| gone: "lifecycle Terminating Terminated"

inductive_cases lifecycle_readyE: "lifecycle ReadyToClose s"
inductive_cases lifecycle_terminatingE: "lifecycle Terminating s"
inductive_cases lifecycle_terminatedE: "lifecycle Terminated s"

declare lifecycle.intros [intro]

text \<open>A step at time \<open>t\<close>: the state stays with its time, or it moves on and takes the time.\<close>

definition moves :: "u32 \<Rightarrow> engine \<Rightarrow> engine \<Rightarrow> bool" where
  "moves t e e' \<longleftrightarrow>
     en_state e' = en_state e \<and> en_state_begin_time e' = en_state_begin_time e \<or>
     lifecycle\<^sup>+\<^sup>+ (en_state e) (en_state e') \<and> en_state_begin_time e' = t"

lemma moves_refl [simp]: "moves t e e"
  by (simp add: moves_def)

lemma moves_trans [trans]: "moves t a b \<Longrightarrow> moves t b c \<Longrightarrow> moves t a c"
  unfolding moves_def by (auto intro: tranclp_trans)

lemma moves_same: "en_state e' = en_state e \<Longrightarrow> en_state_begin_time e' = en_state_begin_time e \<Longrightarrow> moves t e e'"
  by (simp add: moves_def)

lemma set_state_state [simp]:
  "en_state (set_state st t e) = st" "en_state_begin_time (set_state st t e) = t"
  by (simp_all add: set_state_def Let_def)

lemma moves_set_state: "lifecycle (en_state e) st \<Longrightarrow> moves t e (set_state st t e)"
  by (simp add: moves_def tranclp.r_into_trancl)

lemma engine_close_moves: "moves t e (snd (engine_close t e))"
  by (cases "en_state e")
    (auto simp: engine_close_def Let_def moves_def intro: tranclp.r_into_trancl)

lemma handle_option_moves: "moves t e (handle_option opt t e)"
  by (cases "en_state e")
    (simp_all add: handle_option_def on_peer_closed_def moves_set_state lifecycle.simps)

lemma on_terminate_moves: "moves t e (on_terminate t e)"
  by (cases "en_state e") (simp_all add: on_terminate_def moves_set_state lifecycle.simps)

lemma input_segment_moves: "moves t e (input_segment t s e)"
proof (cases s)
  case (Data d)
  have "moves t (handle_option (ds_option d) t e) (input_segment t s e)"
    by (rule moves_same) (simp_all add: Data Let_def)
  then show ?thesis by (rule moves_trans [OF handle_option_moves])
next
  case (Ack a)
  have "moves t (handle_option (as_option a) t e) (input_segment t s e)"
    by (rule moves_same) (simp_all add: Ack Let_def split: prod.split)
  then show ?thesis by (rule moves_trans [OF handle_option_moves])
next
  case (Cmd c)
  let ?e = "handle_option (cs_option c) t e"
  let ?f = "if cs_cmd c = CMD_TERMINATE then on_terminate t ?e else ?e"
  have "moves t e ?e" by (rule handle_option_moves)
  also have "moves t ?e ?f" using on_terminate_moves by simp
  also have "moves t ?f (input_segment t s e)"
    by (rule moves_same) (simp_all add: Cmd Let_def)
  finally show ?thesis .
qed

lemma input_segments_moves: "moves t e (input_segments t ss e)"
  by (induction ss arbitrary: e) (auto intro: moves_trans input_segment_moves)

lemma driver_receive_moves: "moves t e (driver_receive d t e)"
proof -
  have "moves t e (e\<lparr>en_last_incoming_time := t\<rparr>)" by (rule moves_same) simp_all
  then show ?thesis
    using moves_trans [OF _ input_segments_moves] by (simp add: driver_receive_def Let_def engine_input_def)
qed

lemma ping_state [simp]:
  "en_state (ping t cmd e) = en_state e" "en_state_begin_time (ping t cmd e) = en_state_begin_time e"
  by (simp_all add: ping_def Let_def)

lemma flush_acks_state [simp]:
  "en_state (flush_acks t e) = en_state e" "en_state_begin_time (flush_acks t e) = en_state_begin_time e"
  by (simp_all add: flush_acks_def Let_def split: prod.split)

lemma flush_data_state [simp]:
  "en_state (flush_data t e) = en_state e" "en_state_begin_time (flush_data t e) = en_state_begin_time e"
  by (simp_all add: flush_data_def flush_data_window_def Let_def split: prod.split)

lemma flush_timers_moves: "moves t e (flush_timers t e)"
proof -
  let ?f = "if en_state e = Active \<and> t - en_last_incoming_time e \<ge> 30000 then snd (engine_close t e) else e"
  have "moves t e ?f" using engine_close_moves by simp
  moreover have "moves t ?f (flush_timers t e)"
    by (simp add: flush_timers_def Let_def moves_set_state drained)
  ultimately show ?thesis by (rule moves_trans)
qed

lemma flush_late_timers_moves: "moves t e (flush_late_timers t e)"
  by (auto simp: flush_late_timers_def Let_def moves_set_state lifecycle.simps)

lemma engine_flush_moves: "moves t e (engine_flush t e)"
proof -
  let ?e = "flush_timers t e"
  have 1: "moves t e ?e" by (rule flush_timers_moves)
  show ?thesis
  proof (cases "en_state e = Terminated")
    case True
    then show ?thesis by (simp add: engine_flush_def)
  next
    case False
    have "moves t ?e (engine_flush t e)"
    proof (cases "en_state ?e = Terminating")
      case True
      then have "moves t ?e (ping t CMD_TERMINATE ?e)"
          "moves t (ping t CMD_TERMINATE ?e) (set_state Terminated t (ping t CMD_TERMINATE ?e))"
        by (auto intro: moves_same simp: moves_set_state lifecycle.simps)
      then show ?thesis using False True by (auto simp: engine_flush_def Let_def intro: moves_trans)
    next
      case nt: False
      let ?l = "flush_late_timers t ?e"
      have "moves t ?l (engine_flush t e)"
        using False nt by (intro moves_same) (simp_all add: engine_flush_def Let_def)
      then show ?thesis by (rule moves_trans [OF flush_late_timers_moves])
    qed
    then show ?thesis by (rule moves_trans [OF 1])
  qed
qed

lemma write_pieces_state: "write_pieces ps n e = (m, e') \<Longrightarrow> en_state e' = en_state e \<and> en_state_begin_time e' = en_state_begin_time e"
  by (induction ps n e rule: write_pieces.induct) (auto split: if_splits prod.splits)

lemma engine_write_state:
  "en_state (snd (engine_write data e)) = en_state e"
  "en_state_begin_time (snd (engine_write data e)) = en_state_begin_time e"
  by (auto simp: engine_write_def Let_def dest: write_pieces_state split: prod.split)

lemma engine_read_state:
  "en_state (snd (engine_read n e)) = en_state e"
  "en_state_begin_time (snd (engine_read n e)) = en_state_begin_time e"
  by (simp_all add: engine_read_def Let_def split: prod.split)

fun op_times :: "kcp_op \<Rightarrow> u32 set" where
  "op_times (OpClose t) = {t}"
| "op_times (OpReceive d t) = {t}"
| "op_times (OpFlush t) = {t}"
| "op_times _ = {}"

lemma kcp_step_moves: "\<exists>t. moves t e (kcp_step op e) \<and>
    en_state_begin_time (kcp_step op e) \<in> insert (en_state_begin_time e) (op_times op)"
proof (cases op)
  case (OpClose t)
  then show ?thesis using engine_close_moves [of t e] by (auto simp: moves_def)
next
  case (OpReceive d t)
  then show ?thesis using driver_receive_moves [of t e d] by (auto simp: moves_def)
next
  case (OpFlush t)
  then show ?thesis using engine_flush_moves [of t e] by (auto simp: moves_def)
qed (simp_all add: moves_def engine_write_state engine_read_state)

lemma moves_lifecycle: "moves t e e' \<Longrightarrow> lifecycle\<^sup>*\<^sup>* (en_state e) (en_state e')"
  unfolding moves_def by (auto dest: tranclp_into_rtranclp)

lemma lifecycle_end: "lifecycle\<^sup>*\<^sup>* Terminated s \<Longrightarrow> s = Terminated"
  by (induction rule: rtranclp_induct) (auto elim: lifecycle_terminatedE)

lemma lifecycle_closing:
  "lifecycle\<^sup>*\<^sup>* s s' \<Longrightarrow> s \<in> {ReadyToClose, Terminating, Terminated} \<Longrightarrow> s' \<in> {ReadyToClose, Terminating, Terminated}"
  by (induction rule: rtranclp_induct) (auto elim: lifecycle_readyE lifecycle_terminatingE lifecycle_terminatedE)

lemma lifecycle_terminating:
  "lifecycle\<^sup>*\<^sup>* s s' \<Longrightarrow> s \<in> {Terminating, Terminated} \<Longrightarrow> s' \<in> {Terminating, Terminated}"
  by (induction rule: rtranclp_induct) (auto elim: lifecycle_terminatingE lifecycle_terminatedE)

lemma run_lifecycle: "lifecycle\<^sup>*\<^sup>* (en_state e) (en_state (kcp_run ops e))"
proof (induction ops arbitrary: e)
  case (Cons op ops)
  have "lifecycle\<^sup>*\<^sup>* (en_state e) (en_state (kcp_step op e))"
    using kcp_step_moves [of e op] moves_lifecycle by blast
  then show ?case using Cons [of "kcp_step op e"] by simp
qed simp

lemma run_begin_time:
  "en_state_begin_time (kcp_run ops e) \<in> insert (en_state_begin_time e) (\<Union> (op_times ` set ops))"
proof (induction ops arbitrary: e)
  case (Cons op ops)
  have "en_state_begin_time (kcp_step op e) \<in> insert (en_state_begin_time e) (op_times op)"
    using kcp_step_moves [of e op] by blast
  then show ?case using Cons.IH [of "kcp_step op e"] by auto
qed simp

lemma out_keeps:
  "en_out (set_state st t e) = en_out e"
  "en_out (handle_option opt t e) = en_out e"
  "en_out (on_terminate t e) = en_out e"
  by (simp_all add: set_state_def handle_option_def on_peer_closed_def on_terminate_def Let_def split: kcp_state.split)

lemma input_out: "en_out (input_segment t s e) = en_out e"
  by (cases s) (simp_all add: Let_def out_keeps split: prod.split)

lemma receive_out: "en_out (driver_receive d t e) = en_out e"
proof -
  have "en_out (input_segments t ss f) = en_out f" for ss f
    by (induction ss arbitrary: f) (simp_all add: input_out)
  then show ?thesis by (simp add: driver_receive_def Let_def engine_input_def)
qed

lemma terminated_write: "en_state e = Terminated \<Longrightarrow> engine_write data e = (Inl Closed, e)"
proof -
  assume "en_state e = Terminated"
  moreover from this have "write_pieces ps 0 e = (0, e)" for ps by (cases ps) simp_all
  ultimately show ?thesis by (simp add: engine_write_def Let_def)
qed

lemma terminated_step:
  assumes "en_state e = Terminated"
  shows "en_state (kcp_step op e) = Terminated \<and> set (en_out (kcp_step op e)) \<subseteq> set (en_out e)"
proof -
  have "en_state (kcp_step op e) = Terminated"
    using kcp_step_moves [of e op] moves_lifecycle lifecycle_end assms by metis
  moreover have "set (en_out (kcp_step op e)) \<subseteq> set (en_out e)"
    using assms
    by (cases op) (simp_all add: engine_close_def Let_def engine_read_def terminated_write receive_out engine_flush_def)
  ultimately show ?thesis by simp
qed

lemma terminated_run:
  "en_state e = Terminated \<Longrightarrow>
   en_state (kcp_run ops e) = Terminated \<and> set (en_out (kcp_run ops e)) \<subseteq> set (en_out e)"
proof (induction ops arbitrary: e)
  case (Cons op ops)
  then show ?case using terminated_step [of e op] Cons.IH [of "kcp_step op e"] by auto
qed simp

lemma lifecycle_acyclic: "lifecycle\<^sup>+\<^sup>+ s s' \<Longrightarrow> \<not> lifecycle\<^sup>*\<^sup>* s' s"
proof -
  define rank where "rank s = (case s of Active \<Rightarrow> 4 | PeerClosed \<Rightarrow> 3 | ReadyToClose \<Rightarrow> 2 | PeerTerminating \<Rightarrow> 2
      | Terminating \<Rightarrow> 1 | Terminated \<Rightarrow> (0 :: nat))" for s
  have r1: "lifecycle s s' \<Longrightarrow> rank s' < rank s" for s s'
    by (cases rule: lifecycle.cases) (auto simp: rank_def)
  have r: "lifecycle\<^sup>+\<^sup>+ s s' \<Longrightarrow> rank s' < rank s" for s s'
    by (induction rule: tranclp_induct) (auto dest: r1)
  assume "lifecycle\<^sup>+\<^sup>+ s s'"
  then show ?thesis using r [of s s'] r [of s' s] by (auto dest!: rtranclpD)
qed

lemma flush_closing:
  assumes "en_state e \<in> {ReadyToClose, Terminating, Terminated}" "15000 < t - en_state_begin_time e"
  shows "en_state (engine_flush t e) \<in> {Terminating, Terminated}"
  using assms
  by (auto simp: engine_flush_def Let_def flush_timers_def flush_late_timers_def)

lemma flush_terminating:
  assumes "en_state e \<in> {Terminating, Terminated}" "8000 < t - en_state_begin_time e"
  shows "en_state (engine_flush t e) = Terminated"
  using assms by (auto simp: engine_flush_def Let_def flush_timers_def)

text \<open>
  C17. The state of a connection only ever moves along \<open>lifecycle\<close>, so no state is entered twice; a connection that
  has terminated stays so, reads end of stream, refuses writes and queues no further datagram.
\<close>

theorem kcp_lifecycle:
  "lifecycle\<^sup>*\<^sup>* (en_state e) (en_state (kcp_run ops e)) \<and>
   (\<forall>s s'. lifecycle\<^sup>+\<^sup>+ s s' \<longrightarrow> \<not> lifecycle\<^sup>*\<^sup>* s' s) \<and>
   (en_state e = Terminated \<longrightarrow>
      en_state (kcp_run ops e) = Terminated \<and>
      fst (engine_read n (kcp_run ops e)) = None \<and>
      fst (engine_write data (kcp_run ops e)) = Inl Closed \<and>
      set (en_out (kcp_run ops e)) \<subseteq> set (en_out e))"
  using run_lifecycle [of e ops] lifecycle_acyclic terminated_run [of e ops]
  by (auto simp: engine_read_def terminated_write)

theorem kcp_lifecycle_witness:
  "en_state (kcp_run [OpReceive [0, 7, 2, 0, 0, 0, 0, 0, 0, 0, 0, 0, 0, 0, 0, 0] 5, OpFlush 9]
     (set_state Terminated 3 (engine_new 7 example_config))) = Terminated"
  by (rule kcp_lifecycle [THEN conjunct2, THEN conjunct2, rule_format, THEN conjunct1]) simp



end
