(* ===== verification/Xr_Kcp_Delivery.thy ===== *)
theory Xr_Kcp_Delivery
  imports Xr_Kcp_Run
begin

text \<open>
  What mKCP promises: the bytes one side reads are the bytes the other side wrote, in order and
  once, whatever the network drops, repeats or delays. The receiving worker, with its 32-bit
  numbers, implements a receiver that counts segments without wrapping; two engines connected by a
  network that delivers any of the datagrams sent, any number of times and in any order, keep what
  is read a prefix of what was written.
\<close>

section \<open>The receiving worker as a stream receiver\<close>

record stream_receiver =
  sr_next :: nat
  sr_held :: "nat set"
  sr_left :: bytes

definition sr_deliver :: "nat \<Rightarrow> nat \<Rightarrow> stream_receiver \<Rightarrow> stream_receiver" where
  "sr_deliver window m r =
     (if sr_next r \<le> m \<and> m < sr_next r + window then r\<lparr>sr_held := insert m (sr_held r)\<rparr> else r)"

text \<open>The segments that are in order go to the reader, once it has read what it had.\<close>

definition sr_fill :: "(nat \<Rightarrow> bytes) \<Rightarrow> stream_receiver \<Rightarrow> stream_receiver \<Rightarrow> bool" where
  "sr_fill pieces r r' \<longleftrightarrow>
     (if sr_left r = []
      then \<exists>n. sr_next r \<le> n \<and> {sr_next r..<n} \<subseteq> sr_held r \<and> n \<notin> sr_held r \<and>
        r' = \<lparr>sr_next = n, sr_held = sr_held r - {..<n}, sr_left = concat (map pieces [sr_next r..<n])\<rparr>
      else r' = r)"

text \<open>The window of the worker, keyed by the numbers that the segments have on the wire.\<close>

definition held_window :: "(nat \<Rightarrow> bytes) \<Rightarrow> nat \<Rightarrow> nat set \<Rightarrow> u32 \<Rightarrow> bytes option" where
  "held_window pieces n held k =
     (if n + unat (k - of_nat n) \<in> held then Some (pieces (n + unat (k - of_nat n))) else None)"

definition refines :: "(nat \<Rightarrow> bytes) \<Rightarrow> receiving_worker \<Rightarrow> stream_receiver \<Rightarrow> bool" where
  "refines pieces w r \<longleftrightarrow>
     rw_next_number w = of_nat (sr_next r) \<and> rw_left_over w = sr_left r \<and>
     rw_window w = held_window pieces (sr_next r) (sr_held r) \<and>
     sr_held r \<subseteq> {sr_next r..<sr_next r + 2 ^ 32}"

lemma diff_forward: "n \<le> m \<Longrightarrow> m < n + 2 ^ 32 \<Longrightarrow> unat (of_nat m - of_nat n :: u32) = m - n"
  by (simp add: unat_of_nat flip: of_nat_diff)

lemma diff_back:
  assumes "m < n" "n < m + 2 ^ 32"
  shows "unat (of_nat m - of_nat n :: u32) = 2 ^ 32 - (n - m)"
proof -
  have e: "(of_nat (m + 2 ^ 32) :: u32) = of_nat m" by simp
  have "unat (of_nat (m + 2 ^ 32) - of_nat n :: u32) = m + 2 ^ 32 - n"
    using assms by (intro diff_forward) auto
  then have "unat (of_nat m - of_nat n :: u32) = m + 2 ^ 32 - n" unfolding e .
  then show ?thesis using assms by linarith
qed

lemma window_index:
  assumes "n \<le> m" "m < n + 2 ^ 32"
  shows "n + unat (k - of_nat n :: u32) = m \<longleftrightarrow> k = of_nat m"
proof
  assume "n + unat (k - of_nat n) = m"
  then have "m - n = unat (k - of_nat n)" by linarith
  then have "k - of_nat n = of_nat (m - n)" by simp
  then show "k = of_nat m" using assms(1) by (simp add: of_nat_diff algebra_simps)
next
  assume "k = of_nat m"
  then show "n + unat (k - of_nat n) = m" using diff_forward [OF assms] assms(1) by simp
qed

lemma held_window_insert:
  assumes "n \<le> m" "m < n + 2 ^ 32"
  shows "held_window pieces n (insert m held) =
    (case held_window pieces n held (of_nat m) of
       None \<Rightarrow> (held_window pieces n held)(of_nat m \<mapsto> pieces m)
     | Some _ \<Rightarrow> held_window pieces n held)"
proof -
  have m: "n + unat (of_nat m - of_nat n :: u32) = m" using window_index [OF assms] by simp
  have "held_window pieces n (insert m held) k = ((held_window pieces n held)(of_nat m \<mapsto> pieces m)) k" for k
    using window_index [OF assms, of k] by (cases "k = of_nat m") (auto simp: held_window_def m)
  moreover have "held_window pieces n held (of_nat m) \<in> {None, Some (pieces m)}"
    by (simp add: held_window_def m)
  ultimately show ?thesis by (auto simp: fun_eq_iff split: option.split)
qed

lemma deliver_refines:
  assumes "refines pieces w r" "ds_number d = of_nat m" "ds_payload d = pieces m"
    and "m < sr_next r + 2 ^ 32" "sr_next r + unat (rw_window_size w) \<le> m + 2 ^ 32"
  shows "refines pieces (receiving_process_segment d w) (sr_deliver (unat (rw_window_size w)) m r)"
proof -
  let ?n = "sr_next r" and ?ws = "rw_window_size w"
  have nx: "rw_next_number w = of_nat ?n" using assms(1) by (simp add: refines_def)
  show ?thesis
  proof (cases "ds_number d - rw_next_number w \<ge> ?ws")
    case True
    have "\<not> (?n \<le> m \<and> m < ?n + unat ?ws)"
    proof
      assume a: "?n \<le> m \<and> m < ?n + unat ?ws"
      then have "unat (ds_number d - rw_next_number w) = m - ?n"
        using diff_forward [of ?n m] assms(2,4) nx by simp
      then show False using True a by (auto simp: word_le_nat_alt)
    qed
    then have "sr_deliver (unat ?ws) m r = r" unfolding sr_deliver_def by (rule if_not_P)
    then show ?thesis using True assms(1) by (simp add: receiving_process_segment_def)
  next
    case False
    then have lt: "unat (of_nat m - of_nat ?n :: u32) < unat ?ws"
      using assms(2) nx by (simp add: word_less_nat_alt not_le)
    have ge: "?n \<le> m"
    proof (rule ccontr)
      assume "\<not> ?n \<le> m"
      moreover have "?n < m + 2 ^ 32" using assms(5) lt by linarith
      ultimately have "unat (of_nat m - of_nat ?n :: u32) = 2 ^ 32 - (?n - m)" by (intro diff_back) auto
      then show False using lt assms(5) \<open>\<not> ?n \<le> m\<close> by linarith
    qed
    have in_win: "m < ?n + unat ?ws" using lt diff_forward [OF ge assms(4)] ge by linarith
    have "sr_deliver (unat ?ws) m r = r\<lparr>sr_held := insert m (sr_held r)\<rparr>"
      using ge in_win by (simp add: sr_deliver_def)
    moreover have "rw_window w = held_window pieces ?n (sr_held r)" using assms(1) by (simp add: refines_def)
    ultimately show ?thesis
      using False assms(1,2,3,4) ge held_window_insert [OF ge assms(4), of pieces "sr_held r"]
      by (cases "held_window pieces ?n (sr_held r) (of_nat m)") (simp_all add: receiving_process_segment_def refines_def)
  qed
qed

lemma held_window_first: "held_window pieces n held (of_nat n) = (if n \<in> held then Some (pieces n) else None)"
  by (simp add: held_window_def)

lemma held_window_advance:
  assumes "held \<subseteq> {n..<n + 2 ^ 32}"
  shows "(held_window pieces n held)(of_nat n := None) = held_window pieces (Suc n) (held - {n})"
proof
  fix k :: u32
  show "((held_window pieces n held)(of_nat n := None)) k = held_window pieces (Suc n) (held - {n}) k"
  proof (cases "k = of_nat n")
    case True
    have "unat (of_nat n - of_nat (Suc n) :: u32) = 2 ^ 32 - 1" using diff_back [of n "Suc n"] by simp
    then have "Suc n + unat (k - of_nat (Suc n)) = n + 2 ^ 32" using True by simp
    moreover have "n + 2 ^ 32 \<notin> held" using assms by auto
    ultimately have "Suc n + unat (k - of_nat (Suc n)) \<notin> held - {n}" by (metis DiffD1)
    then show ?thesis using True unfolding held_window_def by simp
  next
    case False
    let ?x = "k - of_nat n"
    have "?x \<noteq> 0" using False by simp
    then have pos: "0 < unat ?x" by (simp add: unat_gt_0)
    have "k - of_nat (Suc n) = ?x - 1" by simp
    then have "unat (k - of_nat (Suc n)) = unat ?x - 1" using unat_minus_one [OF \<open>?x \<noteq> 0\<close>] by (simp only:)
    then have e: "Suc n + unat (k - of_nat (Suc n)) = n + unat ?x" using pos by linarith
    have "held_window pieces (Suc n) (held - {n}) k =
        (if n + unat ?x \<in> held - {n} then Some (pieces (n + unat ?x)) else None)"
      unfolding held_window_def by (simp only: e)
    then show ?thesis using False pos by (simp add: held_window_def)
  qed
qed

lemma take_in_order_refines:
  assumes "refines pieces w r"
  shows "\<exists>n. sr_next r \<le> n \<and> {sr_next r..<n} \<subseteq> sr_held r \<and> n \<notin> sr_held r \<and>
    refines pieces (take_in_order w)
      \<lparr>sr_next = n, sr_held = sr_held r - {..<n}, sr_left = sr_left r @ concat (map pieces [sr_next r..<n])\<rparr>"
  using assms
proof (induction w arbitrary: r rule: take_in_order.induct)
  case (1 w)
  let ?n = "sr_next r" and ?held = "sr_held r"
  have w: "rw_next_number w = of_nat ?n" "rw_window w = held_window pieces ?n ?held" "rw_left_over w = sr_left r"
    and held: "?held \<subseteq> {?n..<?n + 2 ^ 32}"
    using "1.prems" by (auto simp: refines_def)
  show ?case
  proof (cases "?n \<in> ?held")
    case False
    then have t: "take_in_order w = w" using w by (simp add: take_in_order.simps [of w] held_window_first)
    have "?held - {..<?n} = ?held" using held by auto
    then have eq: "\<lparr>sr_next = ?n, sr_held = ?held - {..<?n}, sr_left = sr_left r @ concat (map pieces [?n..<?n])\<rparr> = r"
      by simp
    show ?thesis
      by (rule exI [of _ ?n], unfold eq t) (use False "1.prems" in simp)
  next
    case True
    let ?w = "w\<lparr>rw_window := (rw_window w)(rw_next_number w := None), rw_next_number := rw_next_number w + 1,
        rw_left_over := rw_left_over w @ pieces ?n\<rparr>"
    let ?r = "\<lparr>sr_next = Suc ?n, sr_held = ?held - {?n}, sr_left = sr_left r @ pieces ?n\<rparr>"
    have p: "rw_window w (rw_next_number w) = Some (pieces ?n)" using w True by (simp add: held_window_first)
    have "refines pieces ?w ?r"
      using w held held_window_advance [OF held, of pieces] by (auto simp: refines_def add.commute)
    from "1.IH" [OF p this] obtain n where n: "Suc ?n \<le> n" "{Suc ?n..<n} \<subseteq> ?held - {?n}" "n \<notin> ?held - {?n}"
        "refines pieces (take_in_order ?w) \<lparr>sr_next = n, sr_held = ?held - {?n} - {..<n},
          sr_left = (sr_left r @ pieces ?n) @ concat (map pieces [Suc ?n..<n])\<rparr>"
      by (simp only: stream_receiver.simps) blast
    have "take_in_order w = take_in_order ?w" using p by (simp add: take_in_order.simps [of w])
    moreover have "?held - {?n} - {..<n} = ?held - {..<n}" using n(1) by auto
    moreover have "[?n..<n] = ?n # [Suc ?n..<n]" using n(1) by (simp add: upt_conv_Cons)
    moreover have "{?n..<n} \<subseteq> ?held"
    proof
      fix x assume "x \<in> {?n..<n}"
      then have "x = ?n \<or> x \<in> {Suc ?n..<n}" by auto
      then show "x \<in> ?held" using n(2) True by blast
    qed
    ultimately show ?thesis using n by (intro exI [of _ n] conjI) simp_all
  qed
qed

lemma read_refines:
  assumes "refines pieces w r"
  shows "\<exists>r'. sr_fill pieces r r' \<and> fst (receiving_read n w) = take n (sr_left r') \<and>
    refines pieces (snd (receiving_read n w)) (r'\<lparr>sr_left := drop n (sr_left r')\<rparr>)"
proof (cases "sr_left r = []")
  case True
  then obtain m where m: "sr_next r \<le> m" "{sr_next r..<m} \<subseteq> sr_held r" "m \<notin> sr_held r"
      "refines pieces (take_in_order w)
        \<lparr>sr_next = m, sr_held = sr_held r - {..<m}, sr_left = concat (map pieces [sr_next r..<m])\<rparr>"
    using take_in_order_refines [OF assms] by auto
  let ?r = "\<lparr>sr_next = m, sr_held = sr_held r - {..<m}, sr_left = concat (map pieces [sr_next r..<m])\<rparr>"
  have "rw_left_over w = []" using True assms by (simp add: refines_def)
  then show ?thesis
    using True m by (intro exI [of _ ?r]) (auto simp: sr_fill_def receiving_read_def refines_def Let_def)
next
  case False
  then show ?thesis
    using assms by (intro exI [of _ r]) (auto simp: sr_fill_def receiving_read_def refines_def Let_def)
qed

text \<open>
  C16. The receiving worker implements the stream receiver over segments counted without wrapping, also
  when the 32-bit numbers wrap around: a segment that is at most a window short of a full cycle
  behind or ahead is kept exactly if it lies in the window, and a read hands over exactly the
  segments that are in order.
\<close>

theorem kcp_receiving_refines:
  assumes "refines pieces w r"
  shows "(ds_number d = of_nat m \<and> ds_payload d = pieces m \<and> m < sr_next r + 2 ^ 32 \<and>
      sr_next r + unat (rw_window_size w) \<le> m + 2 ^ 32 \<longrightarrow>
      refines pieces (receiving_process_segment d w) (sr_deliver (unat (rw_window_size w)) m r)) \<and>
    (\<exists>r'. sr_fill pieces r r' \<and> fst (receiving_read n w) = take n (sr_left r') \<and>
      refines pieces (snd (receiving_read n w)) (r'\<lparr>sr_left := drop n (sr_left r')\<rparr>))"
  using deliver_refines [OF assms] read_refines [OF assms] by blast

lemma refines_new: "refines pieces (receiving_new c) \<lparr>sr_next = 0, sr_held = {}, sr_left = []\<rparr>"
  by (simp add: refines_def receiving_new_def held_window_def fun_eq_iff)

theorem kcp_receiving_refines_witness:
  "refines (\<lambda>m. [of_nat m])
     (receiving_process_segment \<lparr>ds_conv = 1, ds_option = 0, ds_timestamp = 0, ds_number = 3, ds_sending_next = 0, ds_payload = [3]\<rparr>
        (receiving_new example_config))
     (sr_deliver (unat (rw_window_size (receiving_new example_config))) 3 \<lparr>sr_next = 0, sr_held = {}, sr_left = []\<rparr>)"
proof -
  let ?d = "\<lparr>ds_conv = 1, ds_option = 0, ds_timestamp = 0, ds_number = 3, ds_sending_next = 0, ds_payload = [3]\<rparr>"
  have "ds_number ?d = of_nat 3 \<and> ds_payload ?d = (\<lambda>m. [of_nat m]) 3 \<and>
      3 < sr_next \<lparr>sr_next = 0, sr_held = {}, sr_left = []\<rparr> + 2 ^ 32 \<and>
      sr_next \<lparr>sr_next = 0, sr_held = {}, sr_left = []\<rparr> + unat (rw_window_size (receiving_new example_config)) \<le> 3 + 2 ^ 32"
    using unat_u32_lt [of "rw_window_size (receiving_new example_config)"] by (simp del: unat_u32_lt)
  then show ?thesis
    using kcp_receiving_refines [OF refines_new [of "\<lambda>m. [of_nat m]" example_config], of ?d 3] by blast
qed

section \<open>Two engines and a network\<close>

text \<open>What the other operations leave of the receiving worker.\<close>

definition recv_core :: "engine \<Rightarrow> bytes \<times> (u32 \<rightharpoonup> bytes) \<times> u32 \<times> u32" where
  "recv_core e = (rw_left_over (en_receiving e), rw_window (en_receiving e), rw_next_number (en_receiving e),
     rw_window_size (en_receiving e))"

definition keeps :: "engine \<Rightarrow> engine \<Rightarrow> bool" where
  "keeps e e' \<longleftrightarrow>
     (en_state e = Terminated \<longrightarrow> en_state e' = Terminated) \<and>
     (en_state e' = Terminated \<or> recv_core e' = recv_core e)"

lemma keeps_refl [simp]: "keeps e e"
  by (simp add: keeps_def)

lemma keeps_trans [trans]: "keeps a b \<Longrightarrow> keeps b c \<Longrightarrow> keeps a c"
  by (auto simp: keeps_def)

lemma keeps_same: "en_state e' = en_state e \<Longrightarrow> recv_core e' = recv_core e \<Longrightarrow> keeps e e'"
  by (simp add: keeps_def)

lemma keeps_set_state: "en_state e \<noteq> Terminated \<Longrightarrow> keeps e (set_state st t e)"
  by (cases st) (simp_all add: keeps_def set_state_def recv_core_def Let_def)

lemma keeps_close: "keeps e (snd (engine_close t e))"
proof -
  let ?e = "e\<lparr>en_input_ready := True, en_output_ready := True\<rparr>"
  have "keeps e ?e" by (rule keeps_same) (simp_all add: recv_core_def)
  moreover have "keeps ?e (snd (engine_close t e))"
    by (cases "en_state e") (simp_all add: engine_close_def Let_def keeps_set_state)
  ultimately show ?thesis by (rule keeps_trans)
qed

lemma keeps_handle_option: "keeps e (handle_option opt t e)"
  by (cases "en_state e") (simp_all add: handle_option_def on_peer_closed_def keeps_set_state)

lemma keeps_on_terminate: "keeps e (on_terminate t e)"
  by (cases "en_state e") (simp_all add: on_terminate_def keeps_set_state)

lemma recv_core_out [simp]:
  "recv_core (ping t cmd e) = recv_core e"
  "recv_core (flush_acks t e) = recv_core e"
  "recv_core (flush_data t e) = recv_core e"
  by (simp_all add: recv_core_def ping_def flush_acks_def flush_data_def flush_data_window_def Let_def split: prod.split)

lemma keeps_flush: "keeps e (engine_flush t e)"
proof (cases "en_state e = Terminated")
  case True
  then show ?thesis by (simp add: engine_flush_def)
next
  case False
  let ?c = "if en_state e = Active \<and> t - en_last_incoming_time e \<ge> 30000 then snd (engine_close t e) else e"
  let ?e = "flush_timers t e"
  have "keeps e ?c" using keeps_close by simp
  also have "keeps ?c ?e" by (simp add: flush_timers_def Let_def keeps_set_state)
  finally have 1: "keeps e ?e" .
  show ?thesis
  proof (cases "en_state ?e = Terminating")
    case True
    have "keeps ?e (ping t CMD_TERMINATE ?e)" by (rule keeps_same) simp_all
    moreover have "keeps (ping t CMD_TERMINATE ?e) (set_state Terminated t (ping t CMD_TERMINATE ?e))"
      using True by (intro keeps_set_state) simp
    ultimately show ?thesis
      using 1 False True by (auto simp: engine_flush_def Let_def intro: keeps_trans)
  next
    case nt: False
    let ?l = "flush_late_timers t ?e"
    have "keeps ?e ?l" by (auto simp: flush_late_timers_def Let_def keeps_set_state)
    moreover have "keeps ?l (engine_flush t e)"
      using False nt by (intro keeps_same) (simp_all add: engine_flush_def Let_def)
    ultimately show ?thesis using 1 by (blast intro: keeps_trans)
  qed
qed

lemma write_pieces_receiving: "write_pieces ps n e = (m, e') \<Longrightarrow> en_receiving e' = en_receiving e"
  by (induction ps n e rule: write_pieces.induct) (auto split: if_splits prod.splits)

lemma keeps_write: "keeps e (snd (engine_write data e))"
  by (rule keeps_same)
    (auto simp: engine_write_state recv_core_def engine_write_def Let_def dest: write_pieces_receiving write_pieces_state split: prod.split)

text \<open>The datagrams that carry only segments of the stream \<open>sent\<close>.\<close>

definition genuine :: "bytes list \<Rightarrow> data_segment \<Rightarrow> bool" where
  "genuine sent ds \<longleftrightarrow> (\<exists>k < length sent. ds_number ds = of_nat k \<and> ds_payload ds = sent ! k)"

definition carries :: "bytes list \<Rightarrow> bytes \<Rightarrow> bool" where
  "carries sent d \<longleftrightarrow> (\<forall>ds. Data ds \<in> set (read_segments d) \<longrightarrow> genuine sent ds)"

definition piece :: "bytes list \<Rightarrow> nat \<Rightarrow> bytes" where
  "piece sent m = (if m < length sent then sent ! m else [])"

lemma genuine_append: "genuine sent ds \<Longrightarrow> genuine (sent @ extra) ds"
  unfolding genuine_def by (metis length_append nth_append trans_less_add1)

lemma carries_append: "carries sent d \<Longrightarrow> carries (sent @ extra) d"
  by (auto simp: carries_def genuine_append)

lemma piece_append: "m < length sent \<Longrightarrow> piece (sent @ extra) m = piece sent m"
  by (simp add: piece_def nth_append)

text \<open>The sending side: what is in its window and on the wire belongs to the stream.\<close>

definition sender_ok :: "bytes list \<Rightarrow> engine \<Rightarrow> bytes list \<Rightarrow> bool" where
  "sender_ok sent e log \<longleftrightarrow>
     engine_inv e \<and> sw_next_number (en_sending e) = of_nat (length sent) \<and> [] \<notin> set sent \<and>
     (\<forall>(n, p) \<in> set (window_view (en_sending e)). \<exists>k < length sent. n = of_nat k \<and> p = sent ! k) \<and>
     (\<forall>d \<in> set (en_out e) \<union> set log. carries sent d)"

lemma emits_carries:
  assumes "emits e d" "\<forall>(n, p) \<in> set (window_view (en_sending e)). \<exists>k < length sent. n = of_nat k \<and> p = sent ! k"
  shows "carries sent d"
proof -
  obtain s where s: "segment_ok s" "d = segment_encode s []"
      "\<forall>ds. s = Data ds \<longrightarrow> (ds_number ds, ds_payload ds) \<in> set (window_view (en_sending e))"
    using assms(1) by (auto simp: emits_def)
  have "read_segments d = [s]"
    using read_segments_append [of "[s]" "[]"] s(1,2) by (simp add: read_segments.simps [of "[]"])
  then show ?thesis using s(3) assms(2) by (auto simp: carries_def genuine_def)
qed

lemma sender_ok_le:
  assumes "sender_ok sent e log" "engine_le e' e"
  shows "sender_ok sent e' log"
proof -
  note le = engine_leD [OF assms(2)]
  have inv: "engine_inv e" and v: "\<forall>(n, p) \<in> set (window_view (en_sending e)). \<exists>k < length sent. n = of_nat k \<and> p = sent ! k"
    using assms(1) by (auto simp: sender_ok_def)
  obtain new where new: "en_out e' = en_out e @ new" "\<forall>d \<in> set new. emits e d"
    using assms(2) inv unfolding engine_le_def by blast
  have "\<forall>d \<in> set new. carries sent d" using new(2) emits_carries [OF _ v] by blast
  then show ?thesis
    using assms(1) le(1,4) new(1) engine_le_inv [OF assms(2) inv] by (auto simp: sender_ok_def)
qed

lemma number_from_set:
  "(n, p) \<in> set (number_from (of_nat m) ps) \<Longrightarrow> \<exists>k < length ps. n = of_nat (m + k) \<and> p = ps ! k"
proof (induction ps arbitrary: m)
  case (Cons q ps)
  then consider "n = of_nat m" "p = q" | "(n, p) \<in> set (number_from (of_nat (Suc m)) ps)" by (auto simp: add.commute)
  then show ?case
  proof cases
    case 1
    then show ?thesis by (intro exI [of _ 0]) simp
  next
    case 2
    from Cons.IH [OF this] obtain k where "k < length ps" "n = of_nat (Suc m + k)" "p = ps ! k" by blast
    then show ?thesis by (intro exI [of _ "Suc k"]) simp
  qed
qed simp

lemma sender_ok_wrote:
  assumes "sender_ok sent e log" "wrote e ps e'" "engine_inv e'" "[] \<notin> set ps"
  shows "sender_ok (sent @ ps) e' log"
proof -
  have "\<exists>k < length (sent @ ps). n = of_nat k \<and> p = (sent @ ps) ! k"
    if "(n, p) \<in> set (window_view (en_sending e'))" for n p
  proof -
    have "(n, p) \<in> set (window_view (en_sending e)) \<or> (n, p) \<in> set (number_from (of_nat (length sent)) ps)"
      using that assms(1,2) by (auto simp: wrote_def sender_ok_def)
    then show ?thesis
    proof
      assume "(n, p) \<in> set (window_view (en_sending e))"
      then obtain k where "k < length sent" "n = of_nat k" "p = sent ! k" using assms(1) by (auto simp: sender_ok_def)
      then show ?thesis by (intro exI [of _ k]) (simp add: nth_append)
    next
      assume "(n, p) \<in> set (number_from (of_nat (length sent)) ps)"
      from number_from_set [OF this] obtain k where "k < length ps" "n = of_nat (length sent + k)" "p = ps ! k" by blast
      then show ?thesis by (intro exI [of _ "length sent + k"]) (simp add: nth_append)
    qed
  qed
  then show ?thesis
    using assms carries_append by (auto simp: sender_ok_def wrote_def)
qed

text \<open>The receiving side: what was read, and what waits to be read, is the beginning of the stream.\<close>

definition recv_ok :: "bytes list \<Rightarrow> bytes \<Rightarrow> engine \<Rightarrow> bool" where
  "recv_ok sent got e \<longleftrightarrow> en_state e = Terminated \<or>
     (rw_window_size (en_receiving e) \<le> 2 ^ 31 \<and>
      (\<exists>r. refines (piece sent) (en_receiving e) r \<and> got @ sr_left r = concat (take (sr_next r) sent) \<and>
         sr_next r \<le> length sent \<and> sr_held r \<subseteq> {..<length sent}))"

lemma recv_ok_keeps: "keeps e e' \<Longrightarrow> recv_ok sent got e \<Longrightarrow> recv_ok sent got e'"
  unfolding keeps_def recv_ok_def recv_core_def refines_def by auto

lemma refines_append:
  assumes "refines (piece sent) w r" "sr_held r \<subseteq> {..<length sent}"
  shows "refines (piece (sent @ ps)) w r"
proof -
  have "held_window (piece (sent @ ps)) (sr_next r) (sr_held r) = held_window (piece sent) (sr_next r) (sr_held r)"
    using assms(2) by (auto simp: held_window_def fun_eq_iff piece_append)
  then show ?thesis using assms(1) by (simp add: refines_def)
qed

lemma recv_ok_append: "recv_ok sent got e \<Longrightarrow> recv_ok (sent @ ps) got e"
proof -
  assume a: "recv_ok sent got e"
  show "recv_ok (sent @ ps) got e"
  proof (cases "en_state e = Terminated")
    case True
    then show ?thesis by (simp add: recv_ok_def)
  next
    case False
    then obtain r where r: "refines (piece sent) (en_receiving e) r" "got @ sr_left r = concat (take (sr_next r) sent)"
        "sr_next r \<le> length sent" "sr_held r \<subseteq> {..<length sent}" and ws: "rw_window_size (en_receiving e) \<le> 2 ^ 31"
      using a by (auto simp: recv_ok_def)
    have "refines (piece (sent @ ps)) (en_receiving e) r" by (rule refines_append [OF r(1,4)])
    moreover have "sr_held r \<subseteq> {..<length (sent @ ps)}" using r(4) by auto
    ultimately show ?thesis using r(2,3) ws unfolding recv_ok_def by (intro disjI2 conjI exI [of _ r]) simp_all
  qed
qed

lemma receiving_process_window [simp]: "rw_window_size (receiving_process_segment d w) = rw_window_size w"
  by (simp add: receiving_process_segment_def Let_def split: option.split)

lemma recv_ok_data:
  assumes "recv_ok sent got e" "genuine sent d" "length sent < 2 ^ 31"
  shows "recv_ok sent got (e\<lparr>en_receiving := receiving_process_segment d (en_receiving e)\<rparr>)"
proof (cases "en_state e = Terminated")
  case True
  then show ?thesis by (simp add: recv_ok_def)
next
  case False
  let ?w = "en_receiving e"
  from False obtain r where r: "refines (piece sent) ?w r" "got @ sr_left r = concat (take (sr_next r) sent)"
      "sr_next r \<le> length sent" "sr_held r \<subseteq> {..<length sent}" and ws: "rw_window_size ?w \<le> 2 ^ 31"
    using assms(1) by (auto simp: recv_ok_def)
  obtain m where m: "m < length sent" "ds_number d = of_nat m" "ds_payload d = piece sent m"
    using assms(2) by (auto simp: genuine_def piece_def)
  let ?r = "sr_deliver (unat (rw_window_size ?w)) m r"
  have u: "unat (rw_window_size ?w) \<le> 2 ^ 31" using ws by (simp add: word_le_nat_alt)
  have lt: "m < sr_next r + 2 ^ 32" using m(1) assms(3) by (simp del: unat_u32_lt)
  have le: "sr_next r + unat (rw_window_size ?w) \<le> m + 2 ^ 32"
  proof -
    have "sr_next r + unat (rw_window_size ?w) \<le> 2 ^ 31 + 2 ^ 31" using u r(3) assms(3) by linarith
    then show ?thesis by (simp del: unat_u32_lt)
  qed
  have "refines (piece sent) (receiving_process_segment d ?w) ?r" by (rule deliver_refines [OF r(1) m(2,3) lt le])
  moreover have "sr_left ?r = sr_left r" "sr_next ?r = sr_next r" "sr_held ?r \<subseteq> {..<length sent}"
    using m(1) r(4) by (auto simp: sr_deliver_def)
  ultimately show ?thesis using r(2,3) ws unfolding recv_ok_def by (intro disjI2 conjI exI [of _ ?r]) simp_all
qed

lemma recv_ok_fill:
  assumes "sr_fill (piece sent) r r'" "got @ sr_left r = concat (take (sr_next r) sent)"
    and "sr_next r \<le> length sent" "sr_held r \<subseteq> {..<length sent}"
  shows "got @ sr_left r' = concat (take (sr_next r') sent) \<and> sr_next r' \<le> length sent \<and> sr_held r' \<subseteq> {..<length sent}"
proof (cases "sr_left r = []")
  case True
  then obtain n where n: "sr_next r \<le> n" "{sr_next r..<n} \<subseteq> sr_held r"
      "r' = \<lparr>sr_next = n, sr_held = sr_held r - {..<n}, sr_left = concat (map (piece sent) [sr_next r..<n])\<rparr>"
    using assms(1) by (auto simp: sr_fill_def)
  have le: "n \<le> length sent"
  proof (cases "n = sr_next r")
    case False
    then have "n - 1 \<in> {sr_next r..<n}" using n(1) by auto
    then have "n - 1 < length sent" using n(2) assms(4) by blast
    then show ?thesis by simp
  qed (simp add: assms(3))
  have "map (piece sent) [sr_next r..<n] = drop (sr_next r) (take n sent)"
    using le by (intro nth_equalityI) (auto simp: piece_def)
  moreover have "take n sent = take (sr_next r) sent @ drop (sr_next r) (take n sent)"
    using n(1) append_take_drop_id [of "sr_next r" "take n sent"] by (simp add: min_absorb1)
  ultimately have "concat (take n sent) = concat (take (sr_next r) sent) @ concat (map (piece sent) [sr_next r..<n])"
    by (metis concat_append)
  then show ?thesis using True assms(2,4) n(3) le by auto
next
  case False
  then show ?thesis using assms by (simp add: sr_fill_def)
qed

lemma take_in_order_window [simp]: "rw_window_size (take_in_order w) = rw_window_size w"
  by (induction w rule: take_in_order.induct) (subst take_in_order.simps, simp split: option.split)

lemma recv_ok_read:
  assumes "recv_ok sent got e"
  shows "recv_ok sent (got @ (case fst (engine_read n e) of None \<Rightarrow> [] | Some bs \<Rightarrow> bs)) (snd (engine_read n e))"
proof (cases "en_state e \<in> {ReadyToClose, Terminating, Terminated}")
  case True
  then show ?thesis using assms by (simp add: engine_read_def)
next
  case False
  let ?w = "en_receiving e"
  from False obtain r where r: "refines (piece sent) ?w r" "got @ sr_left r = concat (take (sr_next r) sent)"
      "sr_next r \<le> length sent" "sr_held r \<subseteq> {..<length sent}" and ws: "rw_window_size ?w \<le> 2 ^ 31"
    using assms by (auto simp: recv_ok_def)
  obtain r' where r': "sr_fill (piece sent) r r'" "fst (receiving_read n ?w) = take n (sr_left r')"
      "refines (piece sent) (snd (receiving_read n ?w)) (r'\<lparr>sr_left := drop n (sr_left r')\<rparr>)"
    using read_refines [OF r(1)] by blast
  have out: "(case fst (engine_read n e) of None \<Rightarrow> [] | Some bs \<Rightarrow> bs) = take n (sr_left r')"
      "en_receiving (snd (engine_read n e)) = snd (receiving_read n ?w)"
    using False r'(2) by (auto simp: engine_read_def Let_def split: prod.split)
  have "rw_window_size (snd (receiving_read n ?w)) \<le> 2 ^ 31" using ws by (simp add: receiving_read_def Let_def)
  then show ?thesis
    using recv_ok_fill [OF r'(1) r(2-4)] r'(3) unfolding out recv_ok_def
    by (intro disjI2 conjI exI [of _ "r'\<lparr>sr_left := drop n (sr_left r')\<rparr>"]) simp_all
qed

lemma recv_ok_same: "en_state e' = en_state e \<Longrightarrow> recv_core e' = recv_core e \<Longrightarrow> recv_ok sent got e \<Longrightarrow> recv_ok sent got e'"
  by (rule recv_ok_keeps [OF keeps_same])

lemma recv_ok_segment:
  assumes "recv_ok sent got e" "length sent < 2 ^ 31" "\<forall>ds. s = Data ds \<longrightarrow> genuine sent ds"
  shows "recv_ok sent got (input_segment t s e)"
proof (cases s)
  case (Data ds)
  have "recv_ok sent got (handle_option (ds_option ds) t e)" by (rule recv_ok_keeps [OF keeps_handle_option assms(1)])
  then have "recv_ok sent got ((handle_option (ds_option ds) t e)\<lparr>en_receiving := receiving_process_segment ds (en_receiving (handle_option (ds_option ds) t e))\<rparr>)"
    using assms(2,3) Data by (intro recv_ok_data) simp_all
  then show ?thesis unfolding Data by (rule recv_ok_same [rotated 2]) (simp_all add: Let_def recv_core_def)
next
  case (Ack a)
  have "recv_ok sent got (handle_option (as_option a) t e)" by (rule recv_ok_keeps [OF keeps_handle_option assms(1)])
  then show ?thesis unfolding Ack
    by (rule recv_ok_same [rotated 2]) (simp_all add: Let_def recv_core_def split: prod.split)
next
  case (Cmd c)
  have "keeps e (if cs_cmd c = CMD_TERMINATE then on_terminate t (handle_option (cs_option c) t e) else handle_option (cs_option c) t e)"
    using keeps_trans [OF keeps_handle_option keeps_on_terminate] keeps_handle_option by simp
  then have "recv_ok sent got (if cs_cmd c = CMD_TERMINATE then on_terminate t (handle_option (cs_option c) t e) else handle_option (cs_option c) t e)"
    by (rule recv_ok_keeps [OF _ assms(1)])
  then show ?thesis unfolding Cmd by (rule recv_ok_same [rotated 2]) (simp_all add: Let_def recv_core_def)
qed

lemma recv_ok_segments:
  "recv_ok sent got e \<Longrightarrow> length sent < 2 ^ 31 \<Longrightarrow> \<forall>ds. Data ds \<in> set ss \<longrightarrow> genuine sent ds \<Longrightarrow>
   recv_ok sent got (input_segments t ss e)"
  by (induction t ss e rule: input_segments.induct) (simp_all add: recv_ok_segment)

lemma recv_ok_receive:
  assumes "recv_ok sent got e" "length sent < 2 ^ 31" "carries sent d"
  shows "recv_ok sent got (driver_receive d t e)"
proof -
  have "recv_ok sent got (e\<lparr>en_last_incoming_time := t\<rparr>)"
    using assms(1) by (rule recv_ok_same [rotated 2]) (simp_all add: recv_core_def)
  then show ?thesis
    using assms recv_ok_segments [of sent got _ "read_segments d"]
    by (simp add: driver_receive_def engine_input_def carries_def Let_def)
qed

text \<open>
  The two ends. Everything that \<open>a\<close> sends is in the log of the network from then on; \<open>b\<close> receives
  only datagrams of the log, any of them at any time, and \<open>a\<close> anything at all. What \<open>a\<close> accepts from
  its writer and what \<open>b\<close> hands to its reader is recorded.
\<close>

record kcp_net =
  kn_a :: engine
  kn_b :: engine
  kn_log :: "bytes list"
  kn_written :: bytes
  kn_got :: bytes

fun accepted :: "kcp_op \<Rightarrow> engine \<Rightarrow> bytes" where
  "accepted (OpWrite data) e = (case fst (engine_write data e) of Inl _ \<Rightarrow> [] | Inr n \<Rightarrow> take n data)"
| "accepted _ _ = []"

fun obtained :: "kcp_op \<Rightarrow> engine \<Rightarrow> bytes" where
  "obtained (OpRead n) e = (case fst (engine_read n e) of None \<Rightarrow> [] | Some bs \<Rightarrow> bs)"
| "obtained _ _ = []"

fun departed :: "kcp_op \<Rightarrow> engine \<Rightarrow> bytes list" where
  "departed OpSend e = en_out e"
| "departed _ _ = []"

definition net_a :: "kcp_op \<Rightarrow> kcp_net \<Rightarrow> kcp_net" where
  "net_a op s = s\<lparr>kn_a := kcp_step op (kn_a s), kn_log := kn_log s @ departed op (kn_a s),
     kn_written := kn_written s @ accepted op (kn_a s)\<rparr>"

definition net_b :: "kcp_op \<Rightarrow> kcp_net \<Rightarrow> kcp_net" where
  "net_b op s = s\<lparr>kn_b := kcp_step op (kn_b s), kn_got := kn_got s @ obtained op (kn_b s)\<rparr>"

inductive net_step :: "kcp_net \<Rightarrow> kcp_net \<Rightarrow> bool" where
  at_a: "net_step s (net_a op s)"
| at_b: "\<forall>d t. op = OpReceive d t \<longrightarrow> d \<in> set (kn_log s) \<Longrightarrow> net_step s (net_b op s)"

definition net_new :: "u16 \<Rightarrow> kcp_config \<Rightarrow> kcp_config \<Rightarrow> kcp_net" where
  "net_new conv ca cb = \<lparr>kn_a = engine_new conv ca, kn_b = engine_new conv cb, kn_log = [], kn_written = [], kn_got = []\<rparr>"

definition net_inv :: "kcp_net \<Rightarrow> bool" where
  "net_inv s \<longleftrightarrow> (\<exists>sent. concat sent = kn_written s \<and> sender_ok sent (kn_a s) (kn_log s) \<and>
     recv_ok sent (kn_got s) (kn_b s)) \<and> prefix (kn_got s) (kn_written s)"

lemma pieces_le_bytes: "[] \<notin> set ps \<Longrightarrow> length ps \<le> length (concat ps)"
proof (induction ps)
  case (Cons p ps)
  then show ?case by (cases p) auto
qed simp

lemma prefix_concat_take: "prefix (concat (take n xs)) (concat xs)"
  by (metis append_take_drop_id concat_append prefixI)

lemma sender_ok_step:
  assumes "sender_ok sent a log"
  shows "\<exists>ps. sender_ok (sent @ ps) (kcp_step op a) (log @ departed op a) \<and> accepted op a = concat ps"
proof (cases op)
  case (OpWrite data)
  obtain r a' where w: "engine_write data a = (r, a')" by force
  have "engine_inv a" using assms by (simp add: sender_ok_def)
  from engine_write_inv [OF w this] obtain ps where ps: "engine_inv a'" "wrote a ps a'"
      "list_all (payload_ok (en_config a)) ps" "prefix (concat ps) data"
      "case r of Inl _ \<Rightarrow> ps = [] | Inr n \<Rightarrow> n = length (concat ps) \<and> 0 < n" by blast
  have "[] \<notin> set ps" using ps(3) by (auto simp: list_all_iff payload_ok_def)
  then have "sender_ok (sent @ ps) a' log" by (rule sender_ok_wrote [OF assms ps(2,1)])
  moreover have "accepted op a = concat ps"
    using ps(4,5) w OpWrite by (cases r) (auto simp: prefix_def)
  ultimately show ?thesis using OpWrite w by auto
next
  case OpSend
  then show ?thesis using assms by (intro exI [of _ "[]"]) (auto simp: sender_ok_def)
next
  case (OpClose t)
  then show ?thesis using sender_ok_le [OF assms engine_close_le] by (intro exI [of _ "[]"]) simp
next
  case (OpRead n)
  then show ?thesis using sender_ok_le [OF assms engine_read_le] by (intro exI [of _ "[]"]) simp
next
  case (OpReceive d t)
  then show ?thesis using sender_ok_le [OF assms driver_receive_le] by (intro exI [of _ "[]"]) simp
next
  case (OpFlush t)
  then show ?thesis using sender_ok_le [OF assms engine_flush_le] by (intro exI [of _ "[]"]) simp
qed

lemma recv_ok_step:
  assumes "recv_ok sent got b" "length sent < 2 ^ 31" "\<forall>d t. op = OpReceive d t \<longrightarrow> carries sent d"
  shows "recv_ok sent (got @ obtained op b) (kcp_step op b)"
proof (cases op)
  case (OpRead n)
  then show ?thesis using recv_ok_read [OF assms(1)] by simp
next
  case (OpReceive d t)
  then show ?thesis using recv_ok_receive [OF assms(1,2)] assms(3) by simp
next
  case OpSend
  then show ?thesis using recv_ok_same [OF _ _ assms(1)] by (simp add: recv_core_def)
next
  case (OpClose t)
  then show ?thesis using recv_ok_keeps [OF keeps_close assms(1)] by simp
next
  case (OpWrite data)
  then show ?thesis using recv_ok_keeps [OF keeps_write assms(1)] by simp
next
  case (OpFlush t)
  then show ?thesis using recv_ok_keeps [OF keeps_flush assms(1)] by simp
qed

lemma obtained_prefix:
  assumes "recv_ok sent got b" "prefix got (concat sent)" "length sent < 2 ^ 31" "\<forall>d t. op = OpReceive d t \<longrightarrow> carries sent d"
  shows "prefix (got @ obtained op b) (concat sent)"
proof (cases "obtained op b = []")
  case False
  then obtain n where op: "op = OpRead n" by (cases op) simp_all
  then have "en_state b \<noteq> Terminated" using False by (auto simp: engine_read_def)
  then have "en_state (kcp_step op b) \<noteq> Terminated" using op by (auto simp: engine_read_def Let_def split: prod.split)
  then obtain r :: stream_receiver where "(got @ obtained op b) @ sr_left r = concat (take (sr_next r) sent)"
    using recv_ok_step [OF assms(1,3,4)] unfolding recv_ok_def by blast
  then show ?thesis by (metis prefixI prefix_concat_take prefix_order.trans)
qed (simp add: assms(2))

lemma net_step_inv:
  assumes "net_step s s'" "length (kn_written s') < 2 ^ 31" "net_inv s"
  shows "net_inv s'"
  using assms(1)
proof cases
  case (at_a op)
  obtain sent where sent: "concat sent = kn_written s" "sender_ok sent (kn_a s) (kn_log s)" "recv_ok sent (kn_got s) (kn_b s)"
      "prefix (kn_got s) (kn_written s)"
    using assms(3) by (auto simp: net_inv_def)
  obtain ps where ps: "sender_ok (sent @ ps) (kcp_step op (kn_a s)) (kn_log s @ departed op (kn_a s))"
      "accepted op (kn_a s) = concat ps"
    using sender_ok_step [OF sent(2)] by blast
  show ?thesis
    unfolding net_inv_def at_a net_a_def using sent ps recv_ok_append [OF sent(3)]
    by (intro conjI exI [of _ "sent @ ps"]) simp_all
next
  case (at_b op)
  obtain sent where sent: "concat sent = kn_written s" "sender_ok sent (kn_a s) (kn_log s)" "recv_ok sent (kn_got s) (kn_b s)"
      "prefix (kn_got s) (kn_written s)"
    using assms(3) by (auto simp: net_inv_def)
  have lt: "length sent < 2 ^ 31"
  proof -
    have "length sent \<le> length (concat sent)" using sent(2) by (intro pieces_le_bytes) (simp add: sender_ok_def)
    then show ?thesis using assms(2) at_b(1) sent(1) by (simp add: net_b_def)
  qed
  have c: "\<forall>d t. op = OpReceive d t \<longrightarrow> carries sent d" using at_b(2) sent(2) by (auto simp: sender_ok_def)
  show ?thesis
    unfolding net_inv_def at_b net_b_def using sent recv_ok_step [OF sent(3) lt c] obtained_prefix [OF sent(3) _ lt c]
    by (intro conjI exI [of _ sent]) simp_all
qed

lemma net_step_written: "net_step s s' \<Longrightarrow> length (kn_written s) \<le> length (kn_written s')"
  by (auto simp: net_a_def net_b_def elim!: net_step.cases)

lemma receiving_window_bound:
  assumes "config_ok c"
  shows "receiving_in_flight_size c \<le> 2 ^ 31"
proof -
  let ?x = "kc_downlink_capacity c * (1024 * 1024)"
  have "unat (?x div kc_mtu c div (1000 div kc_tti c)) \<le> unat ?x div unat (kc_mtu c)"
    by (simp add: unat_div)
  also have "\<dots> \<le> unat ?x div 2" using config_ok_mtu [OF assms] by (intro div_le_mono2) auto
  also have "\<dots> \<le> 2 ^ 31" using unat_u32_lt [of ?x] by (simp del: unat_u32_lt)
  finally show ?thesis by (simp add: receiving_in_flight_size_def in_flight_size_def word_le_nat_alt max_def)
qed

lemma net_inv_new: "config_ok ca \<Longrightarrow> config_ok cb \<Longrightarrow> net_inv (net_new conv ca cb)"
  using run_inv_new [of ca conv] refines_new [of "piece []" cb] receiving_window_bound [of cb]
  unfolding net_inv_def net_new_def recv_ok_def sender_ok_def run_inv_def
  by (auto simp: engine_new_def sending_new_def receiving_new_def window_view_def intro!: exI [of _ "[]"])

lemma net_inv_reachable:
  assumes "net_step\<^sup>*\<^sup>* s s'" "net_inv s"
  shows "length (kn_written s') < 2 ^ 31 \<longrightarrow> net_inv s'"
  using assms
proof (induction rule: rtranclp_induct)
  case (step y z)
  then show ?case using net_step_written [of y z] net_step_inv [of y z] by auto
qed simp

text \<open>
  C1. Reliable delivery over an unreliable network: in every state that two engines with accepted
  configurations reach, the bytes handed to the reader on one side are a prefix of the bytes
  accepted from the writer on the other, whatever datagrams the network loses, repeats, delays or
  reorders, whatever arrives on the way back, and however reads, writes, flushes and closes
  interleave, as long as less than 2 ^ 31 bytes were written.
\<close>

theorem kcp_reliable_delivery:
  assumes "engine_config ca = Inr ca'" "engine_config cb = Inr cb'"
    and "net_step\<^sup>*\<^sup>* (net_new conv ca' cb') s" "length (kn_written s) < 2 ^ 31"
  shows "prefix (kn_got s) (kn_written s)"
  using assms net_inv_reachable [OF assms(3) net_inv_new] by (auto simp: engine_config_iff net_inv_def)

definition example_net :: kcp_net where
  "example_net = net_a OpSend (net_a (OpFlush 10) (net_a (OpWrite [1, 2, 3]) (net_new 7 example_config example_config)))"

definition example_datagram :: bytes where
  "example_datagram = [0, 7, 1, 0, 0, 0, 0, 10, 0, 0, 0, 0, 0, 0, 0, 0, 0, 3, 1, 2, 3]"

text \<open>The datagram arrives, twice, and two of the three bytes are read.\<close>

definition example_read :: kcp_net where
  "example_read = net_b (OpRead 2) (net_b (OpReceive example_datagram 25) (net_b (OpReceive example_datagram 20) example_net))"

lemma example_log: "example_datagram \<in> set (kn_log example_net)"
  by code_simp

lemma example_written: "accepted (OpWrite [1, 2, 3]) (engine_new 7 example_config) = [1, 2, 3]"
  by code_simp

lemma example_got:
  "obtained (OpRead 2) (kcp_run [OpReceive example_datagram 20, OpReceive example_datagram 25] (engine_new 7 example_config)) = [1, 2]"
  by code_simp

lemma example_read_bytes: "kn_written example_read = [1, 2, 3] \<and> kn_got example_read = [1, 2]"
  using example_written example_got by (simp add: example_read_def example_net_def net_a_def net_b_def net_new_def)

lemma example_net_reachable: "net_step\<^sup>*\<^sup>* (net_new 7 example_config example_config) example_net"
  unfolding example_net_def
  by (intro rtranclp.rtrancl_into_rtrancl [where r = net_step, OF _ at_a] rtranclp.rtrancl_refl)

lemma example_read_reachable: "net_step\<^sup>*\<^sup>* (net_new 7 example_config example_config) example_read"
  unfolding example_read_def using example_log
  by (intro rtranclp.rtrancl_into_rtrancl [where r = net_step, OF _ at_b] example_net_reachable) (simp_all add: net_b_def)

theorem kcp_reliable_delivery_witness:
  "prefix (kn_got example_read) (kn_written example_read) \<and> kn_got example_read = [1, 2]"
  using kcp_reliable_delivery [OF example_config_ok example_config_ok example_read_reachable] example_read_bytes by simp

end
