(* ===== verification/Xr_Kcp_Dns.thy ===== *)
theory Xr_Kcp_Dns
  imports Xr_Text Xr_Net
begin

text \<open>
  The DNS query that one of the mKCP masks puts before a datagram, \<open>dns_header\<close> and
  \<open>pack_domain_name\<close> of \<open>kcp/mask.rs\<close>: the labels of the domain, each behind its length.
\<close>

section \<open>The DNS query\<close>

text \<open>\<open>slice.copy_from_slice(xs)\<close> for the slice of the length of \<open>xs\<close> at \<open>start\<close>.\<close>

definition put :: "nat \<Rightarrow> bytes \<Rightarrow> bytes \<Rightarrow> bytes" where
  "put start xs buf = take start buf @ xs @ drop (start + length xs) buf"

text \<open>\<open>name.copy_within(i + 1..end, i)\<close>\<close>

definition close_gap :: "nat \<Rightarrow> nat \<Rightarrow> bytes \<Rightarrow> bytes" where
  "close_gap i stop name = take i name @ drop (i + 1) (take stop name) @ drop (stop - 1) name"

function pack_loop :: "bytes \<Rightarrow> nat \<Rightarrow> nat \<Rightarrow> nat \<Rightarrow> nat \<Rightarrow> bytes \<Rightarrow> string + (nat \<times> bytes)" where
  "pack_loop name stop offset first i msg =
     (if i < stop then
        (if name ! i = 92 then
           (if offset + 1 > length msg then Inl ''buffer size too small''
            else pack_loop (close_gap i stop name) (stop - 1) offset first (i + 1) msg)
         else if name ! i = 46 then
           (let label = i - first
            in if label \<ge> 64 then Inl ''bad rdata''
               else if offset + 1 + label > length msg then Inl ''buffer size too small''
               else pack_loop name stop (offset + (1 + label)) (i + 1) (i + 1)
                      (put (offset + 1) (take label (drop first name)) (put offset [of_nat label] msg)))
         else pack_loop name stop offset first (i + 1) msg)
      else Inr (offset, msg))"
  by pat_completeness auto
termination by (relation "measure (\<lambda>(name, stop, offset, first, i, msg). stop - i)") auto

declare pack_loop.simps [simp del]

definition pack_domain_name :: "bytes \<Rightarrow> bytes \<Rightarrow> string + (nat \<times> bytes)" where
  "pack_domain_name name msg =
     rbind (pack_loop name (length name) 0 0 0 msg) (\<lambda>(offset, msg).
       if offset \<ge> length msg then Inl ''buffer size too small''
       else Inr (offset + 1, put offset [0] msg))"

definition dns_header :: "bytes \<Rightarrow> io_error + bytes" where
  "dns_header domain =
     rbind (map_err (Io InvalidInput) (pack_domain_name (domain @ [46]) (replicate 256 0))) (\<lambda>(len, name).
       Inr ([0, 0, 1, 0, 0, 1, 0, 0, 0, 0, 0, 0] @ take len name @ [0, 1, 0, 1]))"

lemma length_put [simp]: "start + length xs \<le> length buf \<Longrightarrow> length (put start xs buf) = length buf"
  by (simp add: put_def)

lemma take_put [simp]: "n \<le> start \<Longrightarrow> start \<le> length buf \<Longrightarrow> take n (put start xs buf) = take n buf"
  by (simp add: put_def min_def)

lemma drop_put [simp]: "start \<le> length buf \<Longrightarrow> drop start (put start xs buf) = xs @ drop (start + length xs) buf"
  by (simp add: put_def)

lemma put_append: "length xs = start \<Longrightarrow> put start ys (xs @ zs) = xs @ ys @ drop (length ys) zs"
  by (simp add: put_def)

text \<open>The loop passes over the bytes of a label.\<close>

lemma pack_loop_skip:
  "i \<le> j \<Longrightarrow> j \<le> stop \<Longrightarrow> \<forall>k \<in> {i..<j}. name ! k \<notin> {46, 92} \<Longrightarrow>
   pack_loop name stop offset b i msg = pack_loop name stop offset b j msg"
proof (induction "j - i" arbitrary: i)
  case (Suc n)
  have i: "i < j" using Suc.hyps(2) by simp
  have "name ! i \<notin> {46, 92}" using Suc.prems(3) i by simp
  then have "pack_loop name stop offset b i msg = pack_loop name stop offset b (Suc i) msg"
    using i Suc.prems(2) by (subst pack_loop.simps) simp
  also have "\<dots> = pack_loop name stop offset b j msg"
    using Suc.hyps(2) Suc.prems i by (intro Suc.hyps(1)) simp_all
  finally show ?case .
qed simp

definition label_bytes :: "bytes list \<Rightarrow> bytes" where
  "label_bytes ls = concat (map (\<lambda>l. of_nat (length l) # l) ls)"

definition dotted :: "bytes list \<Rightarrow> bytes" where
  "dotted ls = concat (map (\<lambda>l. l @ [46]) ls)"

lemma label_bytes_simps [simp]: "label_bytes [] = []" "label_bytes (l # ls) = of_nat (length l) # l @ label_bytes ls"
  by (simp_all add: label_bytes_def)

lemma dotted_simps [simp]: "dotted [] = []" "dotted (l # ls) = l @ 46 # dotted ls"
  by (simp_all add: dotted_def)

definition labels_fit :: "nat \<Rightarrow> bytes list \<Rightarrow> bool" where
  "labels_fit space ls \<longleftrightarrow> list_all (\<lambda>l. length l \<le> 63) ls \<and> length (label_bytes ls) \<le> space"

lemma pack_loop_labels:
  assumes "\<forall>l \<in> set ls. 46 \<notin> set l \<and> 92 \<notin> set l" "length msg = 256" "offset \<le> 256"
  shows "(labels_fit (256 - offset) ls \<longrightarrow>
      pack_loop (pre @ dotted ls) (length (pre @ dotted ls)) offset (length pre) (length pre) msg =
        Inr (offset + length (label_bytes ls), put offset (label_bytes ls) msg)) \<and>
    (\<not> labels_fit (256 - offset) ls \<longrightarrow>
      (\<exists>e. pack_loop (pre @ dotted ls) (length (pre @ dotted ls)) offset (length pre) (length pre) msg = Inl e))"
  using assms
proof (induction ls arbitrary: pre offset msg)
  case Nil
  then show ?case by (subst (1 2) pack_loop.simps) (simp add: put_def labels_fit_def)
next
  case (Cons l ls)
  let ?name = "pre @ dotted (l # ls)"
  let ?stop = "length ?name"
  let ?i = "length pre + length l"
  have "?name ! k \<notin> {46, 92}" if "k \<in> {length pre..<?i}" for k
  proof -
    have "?name ! k = l ! (k - length pre)" using that by (auto simp: nth_append)
    moreover have "l ! (k - length pre) \<in> set l" using that by (intro nth_mem) auto
    ultimately show ?thesis using Cons.prems(1) by auto
  qed
  then have "pack_loop ?name ?stop offset (length pre) (length pre) msg = pack_loop ?name ?stop offset (length pre) ?i msg"
    by (intro pack_loop_skip) auto
  also have "\<dots> = (if length l \<ge> 64 then Inl ''bad rdata''
      else if offset + 1 + length l > 256 then Inl ''buffer size too small''
      else pack_loop ?name ?stop (offset + (1 + length l)) (Suc ?i) (Suc ?i)
             (put (offset + 1) l (put offset [of_nat (length l)] msg)))"
    using Cons.prems(2) by (subst pack_loop.simps) (simp add: nth_append Let_def)
  finally have step: "pack_loop ?name ?stop offset (length pre) (length pre) msg =
      (if length l \<ge> 64 then Inl ''bad rdata''
       else if offset + 1 + length l > 256 then Inl ''buffer size too small''
       else pack_loop ?name ?stop (offset + (1 + length l)) (Suc ?i) (Suc ?i)
             (put (offset + 1) l (put offset [of_nat (length l)] msg)))" .
  show ?case
  proof (cases "length l < 64 \<and> offset + 1 + length l \<le> 256")
    case False
    then have "\<not> labels_fit (256 - offset) (l # ls)" by (auto simp: labels_fit_def)
    then show ?thesis using step False by auto
  next
    case True
    then have fit: "labels_fit (256 - offset) (l # ls) \<longleftrightarrow> labels_fit (256 - (offset + (1 + length l))) ls"
      by (auto simp: labels_fit_def)
    let ?msg = "put offset (of_nat (length l) # l) msg"
    have m: "put (offset + 1) l (put offset [of_nat (length l)] msg) = ?msg"
      using True Cons.prems(2) by (simp add: put_def add.commute)
    have len: "length ?msg = 256" using True Cons.prems(2) by (subst length_put) simp_all
    have p: "put (offset + (1 + length l)) (label_bytes ls) ?msg = put offset (label_bytes (l # ls)) msg"
      using True Cons.prems(2) by (simp add: put_def add.commute add.left_commute)
    show ?thesis
      unfolding fit using Cons.IH [of ?msg "offset + (1 + length l)" "pre @ l @ [46]"] Cons.prems(1) True len step p
      unfolding m by (simp add: add.assoc)
  qed
qed

text \<open>
  The DNS query for a domain without escapes is the fixed header, the labels of the domain behind
  their lengths, the root and the question's type and class, exactly if every label has at most 63 bytes and all of them
  with their lengths at most 255; otherwise building it fails.
\<close>

theorem dns_header_labels:
  assumes "\<forall>l \<in> set ls. 46 \<notin> set l \<and> 92 \<notin> set l" "domain @ [46] = dotted ls"
  shows "(labels_fit 255 ls \<longrightarrow>
      dns_header domain = Inr ([0, 0, 1, 0, 0, 1, 0, 0, 0, 0, 0, 0] @ label_bytes ls @ [0] @ [0, 1, 0, 1])) \<and>
    (\<not> labels_fit 255 ls \<longrightarrow> (\<exists>e. dns_header domain = Inl (Io InvalidInput e)))"
proof -
  let ?n = "length (label_bytes ls)"
  let ?r = "pack_loop (dotted ls) (length (dotted ls)) 0 0 0 (replicate 256 0)"
  let ?msg = "put 0 (label_bytes ls) (replicate 256 0)"
  have loop: "(labels_fit 256 ls \<longrightarrow> ?r = Inr (?n, ?msg)) \<and> (\<not> labels_fit 256 ls \<longrightarrow> (\<exists>e. ?r = Inl e))"
    using pack_loop_labels [OF assms(1), of "replicate 256 0" 0 "[]"] by simp
  show ?thesis
  proof (cases "labels_fit 256 ls")
    case True
    then have r: "?r = Inr (?n, ?msg)" and n: "?n \<le> 256" using loop by (simp_all add: labels_fit_def)
    have len: "length ?msg = 256" using n by (subst length_put) simp_all
    have fit: "labels_fit 255 ls \<longleftrightarrow> ?n < 256" using True by (auto simp: labels_fit_def)
    have "take (Suc ?n) (put ?n [0] ?msg) = label_bytes ls @ [0]" if "?n < 256" using that by (simp add: put_def)
    then show ?thesis using r len n unfolding fit dns_header_def pack_domain_name_def assms(2) by auto
  next
    case False
    then obtain e where "?r = Inl e" using loop by blast
    then have "dns_header domain = Inl (Io InvalidInput e)" by (simp add: dns_header_def pack_domain_name_def assms(2))
    moreover have "\<not> labels_fit 255 ls" using False by (auto simp: labels_fit_def)
    ultimately show ?thesis by blast
  qed
qed

theorem dns_header_labels_witness:
  "dns_header [97, 46, 98, 99] = Inr ([0, 0, 1, 0, 0, 1, 0, 0, 0, 0, 0, 0] @ [1, 97, 2, 98, 99] @ [0] @ [0, 1, 0, 1])"
  using dns_header_labels [of "[[97], [98, 99]]" "[97, 46, 98, 99]"] by (simp add: labels_fit_def)

end
