(* ===== verification/Xr_Kcp_Mask.thy ===== *)
theory Xr_Kcp_Mask
  imports Xr_Kcp_Dns
begin

text \<open>
  The masks of an mKCP connection, \<open>kcp/mask.rs\<close>, with the noise settings of \<open>udp_noise.rs\<close>: the
  legacy masks that wrap a datagram in place, groups of them around the noise mask. AES-128-GCM, SHA-256 and the random numbers are parameters.
  What a mask does on the wire is undone by the same mask at the other end; opening a datagram from
  anywhere gives a valid range unless an AES mask has another mask inside it.
\<close>

section \<open>Noise settings\<close>

record noise_range =
  nr_from :: u32
  nr_to :: u32

definition range_valid :: "noise_range \<Rightarrow> u32 \<Rightarrow> bool" where
  "range_valid r limit \<longleftrightarrow> nr_from r \<le> nr_to r \<and> nr_to r \<le> limit"

text \<open>\<open>gen_range(from..=to)\<close> is a parameter; \<open>gen\<close> numbers the draws of one packet.\<close>

definition range_sample :: "(u32 \<Rightarrow> u32 \<Rightarrow> u32) \<Rightarrow> noise_range \<Rightarrow> u32" where
  "range_sample gen_range r = gen_range (nr_from r) (nr_to r)"

record noise_item =
  ni_packet :: bytes
  ni_random_length :: noise_range
  ni_random_bytes :: noise_range
  ni_delay_ms :: noise_range

definition noise_build :: "(nat \<Rightarrow> u32 \<Rightarrow> u32 \<Rightarrow> u32) \<Rightarrow> noise_item \<Rightarrow> bytes" where
  "noise_build gen item =
     (if nr_to (ni_random_length item) = 0 then ni_packet item
      else map (\<lambda>i. ucast (range_sample (gen (Suc i)) (ni_random_bytes item)))
             [0..<unat (range_sample (gen 0) (ni_random_length item))])"

record noise_config =
  nc_items :: "noise_item list"
  nc_reset_secs :: noise_range
  nc_before_salamander :: bool

definition noise_validate :: "noise_config \<Rightarrow> io_error + unit" where
  "noise_validate c =
     (if length (nc_items c) > 16
       \<or> \<not> range_valid (nc_reset_secs c) 0x7FFFFFFF
       \<or> list_ex (\<lambda>i. length (ni_packet i) > 4096
           \<or> \<not> range_valid (ni_random_length i) 4096
           \<or> \<not> range_valid (ni_random_bytes i) 255
           \<or> \<not> range_valid (ni_delay_ms i) 1000
           \<or> (ni_packet i \<noteq> [] \<and> nr_to (ni_random_length i) \<noteq> 0)) (nc_items c)
       \<or> sum_list (map (\<lambda>i. unat (nr_to (ni_delay_ms i))) (nc_items c)) > 10000
      then Inl (Io InvalidInput ''UDP noise exceeds bounded configuration'')
      else Inr ())"

section \<open>Legacy masks\<close>

definition UDP_SIZE :: nat where "UDP_SIZE = 4096"
definition NONCE :: nat where "NONCE = 12"
definition TAG :: nat where "TAG = 16"
definition ORIGINAL :: nat where "ORIGINAL = 6"

datatype kcp_header = HeaderDns bytes | HeaderDtls | HeaderSrtp | HeaderUtp | HeaderWechat | HeaderWireguard

datatype kcp_mask = MaskOriginal | MaskAes128Gcm bytes | MaskHeader kcp_header | MaskNoise

datatype legacy =
    Original
  | Aes bytes
  | Dns bytes
  | Dtls u16 u16 u32
  | Srtp u16
  | Utp
  | Wechat u32
  | Wireguard

text \<open>
  AES-128-GCM by key, nonce and text: the text encrypted in place with its tag, and the text decrypted in place
  if the tag is right. A keyed cipher of the code is its key.
\<close>

record aead =
  ae_encrypt :: "bytes \<Rightarrow> bytes \<Rightarrow> bytes \<Rightarrow> (bytes \<times> bytes) option"
  ae_decrypt :: "bytes \<Rightarrow> bytes \<Rightarrow> bytes \<Rightarrow> bytes \<Rightarrow> bytes option"

definition legacy_new :: "(bytes \<Rightarrow> bytes) \<Rightarrow> kcp_mask \<Rightarrow> io_error + legacy option" where
  "legacy_new sha256 km =
     (case km of
        MaskNoise \<Rightarrow> Inr None
      | MaskOriginal \<Rightarrow> Inr (Some Original)
      | MaskAes128Gcm password \<Rightarrow>
          (let key = take 16 (sha256 password)
           in if length key = 16 then Inr (Some (Aes key)) else Inl (Io InvalidInput ''AES-128 key length''))
      | MaskHeader (HeaderDns domain) \<Rightarrow> rbind (dns_header domain) (\<lambda>header. Inr (Some (Dns header)))
      | MaskHeader HeaderDtls \<Rightarrow> Inr (Some (Dtls 0 0 0))
      | MaskHeader HeaderSrtp \<Rightarrow> Inr (Some (Srtp 0))
      | MaskHeader HeaderUtp \<Rightarrow> Inr (Some Utp)
      | MaskHeader HeaderWechat \<Rightarrow> Inr (Some (Wechat 0))
      | MaskHeader HeaderWireguard \<Rightarrow> Inr (Some Wireguard))"

fun legacy_size :: "legacy \<Rightarrow> nat" where
  "legacy_size Original = ORIGINAL"
| "legacy_size (Aes key) = NONCE"
| "legacy_size (Dns header) = length header"
| "legacy_size (Dtls epoch len sequence) = 13"
| "legacy_size (Wechat sn) = 13"
| "legacy_size (Srtp number) = 4"
| "legacy_size Utp = 4"
| "legacy_size Wireguard = 4"

definition fnv1a :: "bytes \<Rightarrow> u32" where
  "fnv1a bs = foldl (\<lambda>hash byte. (hash XOR ucast byte) * 0x01000193) 0x811c9dc5 bs"

text \<open>The loops of the original mask: every byte from the fifth takes in the one four before it, and back.\<close>

definition xor_step :: "nat \<Rightarrow> bytes \<Rightarrow> bytes" where
  "xor_step i region = region[i := region ! i XOR region ! (i - 4)]"

definition xor_forward :: "bytes \<Rightarrow> bytes" where
  "xor_forward region = fold xor_step [4..<length region] region"

definition xor_back :: "bytes \<Rightarrow> bytes" where
  "xor_back region = fold xor_step (rev [4..<length region]) region"

text \<open>What one call of \<open>seal\<close> draws at random.\<close>

record mask_draw =
  md_nonce :: bytes
  md_id :: u16

fun legacy_seal :: "aead \<Rightarrow> mask_draw \<Rightarrow> legacy \<Rightarrow> bytes \<Rightarrow> nat \<Rightarrow> legacy \<times> bytes" where
  "legacy_seal a d Original buf start =
     (let region = drop start buf;
          len = of_nat (length region - ORIGINAL);
          region = put 4 (be16 len) region;
          hash = fnv1a (drop 4 region);
          region = put 0 (be32 hash) region
      in (Original, take start buf @ xor_forward region))"
| "legacy_seal a d (Aes key) buf start =
     (let buf = put start (md_nonce d) buf
      in (Aes key,
          case ae_encrypt a key (md_nonce d) (drop (start + NONCE) buf) of
            Some (text, tag) \<Rightarrow> take (start + NONCE) buf @ text @ tag
          | None \<Rightarrow> buf))"
| "legacy_seal a d (Dns header) buf start =
     (Dns header, put start (be16 (md_id d)) (put start header buf))"
| "legacy_seal a d (Dtls epoch len sequence) buf start =
     (let len' = len + 17
      in (Dtls epoch (if len' > 100 then len' - 50 else len') (sequence + 1),
          put start ([23, 254, 253] @ be16 epoch @ [0, 0] @ be32 sequence @ be16 len) buf))"
| "legacy_seal a d (Srtp number) buf start =
     (let number = number + 1 in (Srtp number, put start ([0, 0] @ be16 number) buf))"
| "legacy_seal a d Utp buf start = (Utp, put start [0, 0, 0, 0] buf)"
| "legacy_seal a d (Wechat sn) buf start =
     (let sn = sn + 1
      in (Wechat sn, put start ([0xa1, 0x08] @ be32 sn @ [0x00, 0x10, 0x11, 0x18, 0x30, 0x22, 0x30]) buf))"
| "legacy_seal a d Wireguard buf start = (Wireguard, put start [4, 0, 0, 0] buf)"

text \<open>
  Unwrapping ends in a range of the region, drops the datagram, or panics on an index outside the
  region.
\<close>

datatype 'a opened = Panics | Dropped | Opened 'a

fun legacy_open :: "aead \<Rightarrow> legacy \<Rightarrow> bytes \<Rightarrow> (bytes \<times> nat \<times> nat) opened" where
  "legacy_open a Original region =
     (let region = xor_back region
      in if length region < 4 then Panics
         else if from_be32 (take 4 region) \<noteq> fnv1a (drop 4 region) then Dropped
         else if length region < 6 then Panics
         else if length region - ORIGINAL = unat (from_be16 (take 2 (drop 4 region)))
         then Opened (region, ORIGINAL, length region)
         else Dropped)"
| "legacy_open a (Aes key) region =
     (if length region < NONCE + TAG then Dropped
      else
        let nonce = take NONCE region;
            rest = drop NONCE region;
            text = take (length rest - TAG) rest;
            tag = drop (length rest - TAG) rest
        in (case ae_decrypt a key nonce text tag of
              None \<Rightarrow> Dropped
            | Some text \<Rightarrow> Opened (nonce @ text @ tag, NONCE, length region - TAG)))"
| "legacy_open a m region = Opened (region, legacy_size m, length region)"

section \<open>Groups and the noise mask\<close>

definition group_size :: "legacy list \<Rightarrow> nat" where
  "group_size g = sum_list (map legacy_size g)"

fun seal_masks :: "aead \<Rightarrow> (nat \<Rightarrow> mask_draw) \<Rightarrow> legacy list \<Rightarrow> bytes \<Rightarrow> nat \<Rightarrow> legacy list \<times> bytes" where
  "seal_masks a draws [] buf start = ([], buf)"
| "seal_masks a draws (m # ms) buf start =
     (let start = start - legacy_size m;
          (m, buf) = legacy_seal a (draws 0) m buf start;
          (ms, buf) = seal_masks a (\<lambda>i. draws (Suc i)) ms buf start
      in (m # ms, buf))"

definition group_seal :: "aead \<Rightarrow> (nat \<Rightarrow> mask_draw) \<Rightarrow> bytes \<Rightarrow> legacy list \<Rightarrow> bytes option \<times> legacy list" where
  "group_seal a draws payload g =
     (if g = [] then (Some payload, g)
      else if group_size g + length payload > UDP_SIZE then (None, g)
      else (case seal_masks a draws g (replicate (group_size g) 0 @ payload) (group_size g) of
          (g, buf) \<Rightarrow> (if length buf \<le> UDP_SIZE then Some buf else None, g)))"

text \<open>The loop of \<open>open\<close> over the masks, the outermost first; slicing \<open>buf\<close> outside its bounds panics.\<close>

fun open_masks :: "aead \<Rightarrow> legacy list \<Rightarrow> bytes \<Rightarrow> nat \<times> nat \<Rightarrow> (bytes \<times> nat \<times> nat) opened" where
  "open_masks a [] buf (i, j) = Opened (buf, i, j)"
| "open_masks a (m # ms) buf (i, j) =
     (case slice_get buf i j of
        None \<Rightarrow> Panics
      | Some region \<Rightarrow>
          (case legacy_open a m region of
             Panics \<Rightarrow> Panics
           | Dropped \<Rightarrow> Dropped
           | Opened (region, x, y) \<Rightarrow> open_masks a ms (put i region buf) (i + x, i + y)))"

definition group_open :: "aead \<Rightarrow> legacy list \<Rightarrow> bytes \<Rightarrow> nat \<times> nat \<Rightarrow> (bytes \<times> nat \<times> nat) opened" where
  "group_open a g buf r =
     (if g = [] then Opened (buf, r)
      else if snd r - fst r < group_size g then Dropped
      else open_masks a (rev g) buf r)"

text \<open>Instants are counted in milliseconds.\<close>

record noise =
  no_config :: noise_config
  no_reset_at :: "nat option"

record wrapped =
  wr_noise :: "(bytes option \<times> u32) list"
  wr_datagram :: "bytes option"

record masks =
  mk_inner :: "legacy list"
  mk_noise :: "noise option"
  mk_outer :: "legacy list"

fun masks_add :: "(bytes \<Rightarrow> bytes) \<Rightarrow> noise_config option \<Rightarrow> kcp_mask list \<Rightarrow> masks \<Rightarrow> io_error + masks" where
  "masks_add sha256 nc [] ms = Inr ms"
| "masks_add sha256 nc (k # ks) ms =
     rbind (legacy_new sha256 k) (\<lambda>new.
       case new of
         Some legacy \<Rightarrow>
           masks_add sha256 nc ks
             (if mk_noise ms \<noteq> None then ms\<lparr>mk_outer := mk_outer ms @ [legacy]\<rparr>
              else ms\<lparr>mk_inner := mk_inner ms @ [legacy]\<rparr>)
       | None \<Rightarrow>
           (case nc of
              None \<Rightarrow> Inl (Io InvalidInput ''an mKCP noise mask without noise settings'')
            | Some config \<Rightarrow>
                if mk_noise ms \<noteq> None then Inl (Io InvalidInput ''mKCP takes one noise mask'')
                else rbind (noise_validate config) (\<lambda>_.
                  masks_add sha256 nc ks (ms\<lparr>mk_noise := Some \<lparr>no_config = config, no_reset_at = None\<rparr>\<rparr>))))"

definition masks_new :: "(bytes \<Rightarrow> bytes) \<Rightarrow> kcp_mask list \<Rightarrow> noise_config option \<Rightarrow> io_error + masks" where
  "masks_new sha256 ks nc = masks_add sha256 nc ks \<lparr>mk_inner = [], mk_noise = None, mk_outer = []\<rparr>"

text \<open>What one call of \<open>wrap\<close> draws: for the inner masks, and for the noise packet or datagram with a given index.\<close>

record wrap_draws =
  wd_inner :: "nat \<Rightarrow> mask_draw"
  wd_outer :: "nat \<Rightarrow> nat \<Rightarrow> mask_draw"
  wd_delay :: "nat \<Rightarrow> u32 \<Rightarrow> u32 \<Rightarrow> u32"
  wd_packet :: "nat \<Rightarrow> nat \<Rightarrow> u32 \<Rightarrow> u32 \<Rightarrow> u32"

fun noise_packets ::
    "aead \<Rightarrow> wrap_draws \<Rightarrow> nat \<Rightarrow> noise_item list \<Rightarrow> legacy list \<Rightarrow> (bytes option \<times> u32) list \<times> legacy list" where
  "noise_packets a d k [] outer = ([], outer)"
| "noise_packets a d k (item # items) outer =
     (let pause = range_sample (wd_delay d k) (ni_delay_ms item);
          (packet, outer) = group_seal a (wd_outer d k) (noise_build (wd_packet d k) item) outer;
          (packets, outer) = noise_packets a d (Suc k) items outer
      in ((packet, pause) # packets, outer))"

definition noise_due :: "noise \<Rightarrow> nat \<Rightarrow> bool" where
  "noise_due n now \<longleftrightarrow>
     (case no_reset_at n of
        None \<Rightarrow> True
      | Some reset_at \<Rightarrow> nr_to (nc_reset_secs (no_config n)) > 0 \<and> now > reset_at)"

definition masks_wrap :: "aead \<Rightarrow> wrap_draws \<Rightarrow> bytes \<Rightarrow> nat \<Rightarrow> masks \<Rightarrow> wrapped option \<times> masks" where
  "masks_wrap a d datagram now ms =
     (case group_seal a (wd_inner d) datagram (mk_inner ms) of
        (None, inner) \<Rightarrow> (None, ms\<lparr>mk_inner := inner\<rparr>)
      | (Some datagram, inner) \<Rightarrow>
          (let items = (case mk_noise ms of
                 Some n \<Rightarrow> if noise_due n now then nc_items (no_config n) else []
               | None \<Rightarrow> []);
               (packets, outer) = noise_packets a d 0 items (mk_outer ms);
               (datagram, outer) = group_seal a (wd_outer d (length items)) datagram outer
           in (Some \<lparr>wr_noise = packets, wr_datagram = datagram\<rparr>,
               ms\<lparr>mk_inner := inner, mk_outer := outer\<rparr>)))"

definition masks_sent :: "(u32 \<Rightarrow> u32 \<Rightarrow> u32) \<Rightarrow> nat \<Rightarrow> masks \<Rightarrow> masks" where
  "masks_sent gen_range now ms =
     (case mk_noise ms of
        None \<Rightarrow> ms
      | Some n \<Rightarrow> ms\<lparr>mk_noise := Some (n\<lparr>no_reset_at :=
          Some (now + 1000 * unat (range_sample gen_range (nc_reset_secs (no_config n))))\<rparr>)\<rparr>)"

definition masks_open :: "aead \<Rightarrow> masks \<Rightarrow> bytes \<Rightarrow> (bytes \<times> nat \<times> nat) opened" where
  "masks_open a ms buf =
     (case group_open a (mk_outer ms) buf (0, length buf) of
        Opened (buf, r) \<Rightarrow> group_open a (mk_inner ms) buf r
      | Dropped \<Rightarrow> Dropped
      | Panics \<Rightarrow> Panics)"

section \<open>One mask\<close>

text \<open>What the cipher promises: encryption in place of what fits a datagram, undone by decryption.\<close>

definition aead_ok :: "aead \<Rightarrow> bool" where
  "aead_ok a \<longleftrightarrow>
     (\<forall>key nonce text. length nonce = NONCE \<longrightarrow> length text \<le> UDP_SIZE \<longrightarrow>
        (\<exists>c t. ae_encrypt a key nonce text = Some (c, t) \<and> length c = length text \<and> length t = TAG \<and>
           ae_decrypt a key nonce c t = Some text)) \<and>
     (\<forall>key nonce text c t. ae_encrypt a key nonce text = Some (c, t) \<longrightarrow> length c = length text) \<and>
     (\<forall>key nonce c t text. ae_decrypt a key nonce c t = Some text \<longrightarrow> length text = length c)"

lemma aead_okE:
  assumes "aead_ok a" "length nonce = NONCE" "length text \<le> UDP_SIZE"
  obtains c t where "ae_encrypt a key nonce text = Some (c, t)" "length c = length text" "length t = TAG"
    "ae_decrypt a key nonce c t = Some text"
  using assms unfolding aead_ok_def by blast

lemma aead_ok_length:
  "aead_ok a \<Longrightarrow> ae_decrypt a key nonce c t = Some text \<Longrightarrow> length text = length c"
  "aead_ok a \<Longrightarrow> ae_encrypt a key nonce text = Some (c, t) \<Longrightarrow> length c = length text"
  unfolding aead_ok_def by blast+

lemma length_xor_step [simp]: "length (xor_step i r) = length r"
  by (simp add: xor_step_def)

lemma length_fold_xor [simp]: "length (fold xor_step is r) = length r"
  by (induction "is" arbitrary: r) simp_all

lemma length_xor_forward [simp]: "length (xor_forward r) = length r"
  by (simp add: xor_forward_def)

lemma length_xor_back [simp]: "length (xor_back r) = length r"
  by (simp add: xor_back_def)

lemma xor_step_twice: "4 \<le> i \<Longrightarrow> xor_step i (xor_step i r) = r"
  by (cases "i < length r") (auto simp: xor_step_def nth_list_update list_update_beyond xor.assoc)

lemma fold_xor_undo: "list_all (\<lambda>i. 4 \<le> i) is \<Longrightarrow> fold xor_step (rev is) (fold xor_step is r) = r"
  by (induction "is" arbitrary: r) (simp_all add: xor_step_twice)

lemma xor_back_forward: "xor_back (xor_forward r) = r"
  by (simp add: xor_back_def xor_forward_def fold_xor_undo list_all_iff)

text \<open>Unwrapping \<open>region\<close> gives \<open>inner\<close>.\<close>

definition opens :: "aead \<Rightarrow> legacy \<Rightarrow> bytes \<Rightarrow> bytes \<Rightarrow> bool" where
  "opens a m region inner \<longleftrightarrow>
     (\<exists>r x y. legacy_open a m region = Opened (r, x, y) \<and> length r = length region \<and> slice_get r x y = Some inner)"

text \<open>The mask without its counters.\<close>

fun plain :: "legacy \<Rightarrow> legacy" where
  "plain (Dtls e l s) = Dtls 0 0 0"
| "plain (Srtp n) = Srtp 0"
| "plain (Wechat sn) = Wechat 0"
| "plain m = m"

definition same_kind :: "legacy \<Rightarrow> legacy \<Rightarrow> bool" where
  "same_kind m m' \<longleftrightarrow> plain m = plain m'"

lemma same_kind_refl [simp]: "same_kind m m"
  by (simp add: same_kind_def)

lemma same_kind_trans: "same_kind a b \<Longrightarrow> same_kind b c \<Longrightarrow> same_kind a c"
  by (simp add: same_kind_def)

lemma same_kind_size: "same_kind m m' \<Longrightarrow> legacy_size m = legacy_size m'"
  by (cases m; cases m') (simp_all add: same_kind_def)

lemma same_kind_open: "same_kind m m' \<Longrightarrow> legacy_open a m = legacy_open a m'"
  by (cases m; cases m') (simp_all add: same_kind_def fun_eq_iff)

lemma seal_same_kind: "legacy_seal a d m buf start = (m', buf') \<Longrightarrow> same_kind m m'"
  by (cases m) (auto simp: same_kind_def Let_def)

fun mask_ok :: "legacy \<Rightarrow> bool" where
  "mask_ok (Dns header) \<longleftrightarrow> 2 \<le> length header"
| "mask_ok _ \<longleftrightarrow> True"

text \<open>A mask that only writes its header.\<close>

lemma seal_opens_header:
  assumes "length h = legacy_size m" "start + legacy_size m \<le> length buf" "buf' = put start h buf"
    and "legacy_open a m (drop start buf') = Opened (drop start buf', legacy_size m, length (drop start buf'))"
  shows "take start buf' = take start buf \<and> length buf \<le> length buf' \<and>
    opens a m (drop start buf') (drop (start + legacy_size m) buf)"
proof -
  have d: "drop start buf' = h @ drop (start + legacy_size m) buf" using assms by simp
  then have "slice_get (drop start buf') (legacy_size m) (length (drop start buf')) = Some (drop (start + legacy_size m) buf)"
    using assms(1) by (simp add: slice_get_def)
  then have "opens a m (drop start buf') (drop (start + legacy_size m) buf)"
    using assms(4) unfolding opens_def by blast
  then show ?thesis using assms by simp
qed

lemma seal_opens_original:
  assumes "start + ORIGINAL \<le> length buf" "length buf \<le> UDP_SIZE" "legacy_seal a d Original buf start = (m', buf')"
  shows "take start buf' = take start buf \<and> length buf' = length buf \<and>
    opens a Original (drop start buf') (drop (start + ORIGINAL) buf)"
proof -
  let ?region = "drop start buf"
  define len :: u16 where "len = of_nat (length ?region - ORIGINAL)"
  define r1 where "r1 = put 4 (be16 len) ?region"
  define r2 where "r2 = put 0 (be32 (fnv1a (drop 4 r1))) r1"
  have n: "6 \<le> length ?region" "length ?region \<le> 4096" using assms(1,2) by (simp_all add: ORIGINAL_def UDP_SIZE_def)
  have buf': "buf' = take start buf @ xor_forward r2"
    using assms(3) by (simp add: Let_def len_def r1_def r2_def)
  have l1: "length r1 = length ?region" unfolding r1_def using n by (intro length_put) simp
  have l2: "length r2 = length ?region" unfolding r2_def using n l1 by (subst length_put) simp_all
  have d1: "drop 4 r1 = be16 len @ drop 6 ?region" using n by (simp add: r1_def drop_put)
  have r2: "r2 = be32 (fnv1a (drop 4 r1)) @ be16 len @ drop 6 ?region" using d1 by (simp add: r2_def put_def)
  have len: "unat len = length ?region - 6" using n(2) by (simp add: len_def ORIGINAL_def)
  have "from_be32 (take 4 r2) = fnv1a (drop 4 r2)" "take 2 (drop 4 r2) = be16 len"
    using d1 by (simp_all add: r2)
  then have "legacy_open a Original (xor_forward r2) = Opened (r2, ORIGINAL, length r2)"
    using n len l2 by (simp add: xor_back_forward Let_def ORIGINAL_def)
  moreover have "slice_get r2 ORIGINAL (length r2) = Some (drop (start + ORIGINAL) buf)"
    using n by (simp add: slice_get_def r2 ORIGINAL_def add.commute)
  ultimately have "opens a Original (xor_forward r2) (drop (start + ORIGINAL) buf)"
    unfolding opens_def by (intro exI conjI) simp_all
  then show ?thesis using n l2 assms(1) by (simp add: buf')
qed

lemma seal_opens_aes:
  assumes "aead_ok a" "length (md_nonce d) = NONCE" "start + NONCE \<le> length buf" "length buf \<le> UDP_SIZE"
    and "legacy_seal a d (Aes key) buf start = (m', buf')"
  shows "take start buf' = take start buf \<and> length buf' = length buf + TAG \<and>
    opens a (Aes key) (drop start buf') (drop (start + NONCE) buf)"
proof -
  let ?text = "drop (start + NONCE) buf"
  have "length ?text \<le> UDP_SIZE" using assms(4) by simp
  from aead_okE [OF assms(1,2) this, of key] obtain c t where ct: "ae_encrypt a key (md_nonce d) ?text = Some (c, t)"
      "length c = length ?text" "length t = TAG" "ae_decrypt a key (md_nonce d) c t = Some ?text" .
  have buf1: "put start (md_nonce d) buf = take start buf @ md_nonce d @ ?text"
    by (simp add: put_def assms(2))
  have buf': "buf' = take start buf @ md_nonce d @ c @ t"
    using assms(2,3,5) ct(1) by (simp add: Let_def buf1)
  have "legacy_open a (Aes key) (md_nonce d @ c @ t) = Opened (md_nonce d @ ?text @ t, NONCE, NONCE + length c)"
    using assms(2) ct(2-4) by (simp add: Let_def)
  moreover have "slice_get (md_nonce d @ ?text @ t) NONCE (NONCE + length c) = Some ?text"
    using assms(2) ct(2) by (simp add: slice_get_def)
  ultimately have "opens a (Aes key) (md_nonce d @ c @ t) ?text"
    unfolding opens_def using ct(2) by (intro exI conjI) simp_all
  then show ?thesis using assms(2,3) ct(2,3) by (simp add: buf')
qed

lemma seal_opens:
  assumes "aead_ok a" "length (md_nonce d) = NONCE" "start + legacy_size m \<le> length buf" "length buf \<le> UDP_SIZE" "mask_ok m"
    and "legacy_seal a d m buf start = (m', buf')"
  shows "take start buf' = take start buf \<and> length buf \<le> length buf' \<and>
    opens a m (drop start buf') (drop (start + legacy_size m) buf)"
proof (cases m)
  case Original
  have "start + ORIGINAL \<le> length buf" "legacy_seal a d Original buf start = (m', buf')"
    using assms(3,6) unfolding Original by simp_all
  from seal_opens_original [OF this(1) assms(4) this(2)] show ?thesis unfolding Original by simp
next
  case (Aes key)
  have "start + NONCE \<le> length buf" "legacy_seal a d (Aes key) buf start = (m', buf')"
    using assms(3,6) unfolding Aes by simp_all
  from seal_opens_aes [OF assms(1,2) this(1) assms(4) this(2)] show ?thesis unfolding Aes by simp
next
  case (Dns header)
  have "Suc (Suc (start + length header - 2)) = start + length header" using assms(5) Dns by simp
  then have "put start (be16 (md_id d)) (put start header buf) = put start (be16 (md_id d) @ drop 2 header) buf"
    using assms(3,5) Dns by (simp add: put_def)
  then show ?thesis
    using assms(3,5,6) unfolding Dns by (intro seal_opens_header [where h = "be16 (md_id d) @ drop 2 header"]) auto
next
  case (Dtls e l s)
  then show ?thesis
    using assms(3,6) unfolding Dtls
    by (intro seal_opens_header [where h = "[23, 254, 253] @ be16 e @ [0, 0] @ be32 s @ be16 l"]) (auto simp: Let_def)
next
  case (Srtp n)
  then show ?thesis
    using assms(3,6) unfolding Srtp by (intro seal_opens_header [where h = "[0, 0] @ be16 (n + 1)"]) (auto simp: Let_def)
next
  case Utp
  then show ?thesis
    using assms(3,6) unfolding Utp by (intro seal_opens_header [where h = "[0, 0, 0, 0]"]) auto
next
  case (Wechat n)
  then show ?thesis
    using assms(3,6) unfolding Wechat
    by (intro seal_opens_header [where h = "[0xa1, 0x08] @ be32 (n + 1) @ [0x00, 0x10, 0x11, 0x18, 0x30, 0x22, 0x30]"])
      (auto simp: Let_def)
next
  case Wireguard
  then show ?thesis
    using assms(3,6) unfolding Wireguard by (intro seal_opens_header [where h = "[4, 0, 0, 0]"]) auto
qed

section \<open>Groups\<close>

text \<open>Unwrapping mask by mask, the outermost first.\<close>

fun chain :: "aead \<Rightarrow> legacy list \<Rightarrow> bytes \<Rightarrow> bytes \<Rightarrow> bool" where
  "chain a [] region inner \<longleftrightarrow> region = inner"
| "chain a (m # ms) region inner \<longleftrightarrow> (\<exists>mid. opens a m region mid \<and> chain a ms mid inner)"

lemma chain_append: "chain a (xs @ ys) region inner \<longleftrightarrow> (\<exists>mid. chain a xs region mid \<and> chain a ys mid inner)"
  by (induction xs arbitrary: region) auto

lemma chain_opens:
  assumes "chain a ms region inner" "slice_get buf i j = Some region"
  shows "\<exists>buf' i' j'. open_masks a ms buf (i, j) = Opened (buf', i', j') \<and> slice_get buf' i' j' = Some inner"
  using assms
proof (induction ms arbitrary: region buf i j)
  case (Cons m ms)
  then obtain mid where mid: "opens a m region mid" "chain a ms mid inner" by auto
  then obtain r x y where o: "legacy_open a m region = Opened (r, x, y)" "length r = length region" "slice_get r x y = Some mid"
    by (auto simp: opens_def)
  have b: "i \<le> j" "j \<le> length buf" "length region = j - i" using Cons.prems(2) by (auto simp: slice_get_Some)
  have p: "put i r buf = take i buf @ r @ drop j buf" using b o(2) by (simp add: put_def)
  have xy: "x \<le> y" "y \<le> length r" "mid = take (y - x) (drop x r)" using o(3) by (auto simp: slice_get_Some)
  have "slice_get (put i r buf) (i + x) (i + y) = Some mid"
    using b xy o(2) by (auto simp: p slice_get_def min_def)
  from Cons.IH [OF mid(2) this] show ?case using Cons.prems(2) o(1) by simp
qed simp

lemma group_size_Cons [simp]: "group_size [] = 0" "group_size (m # ms) = legacy_size m + group_size ms"
  by (simp_all add: group_size_def)

lemma seal_longer:
  assumes "aead_ok a" "length (md_nonce d) = NONCE" "start + legacy_size m \<le> length buf" "mask_ok m"
    and "legacy_seal a d m buf start = (m', buf')"
  shows "length buf \<le> length buf'"
proof (cases m)
  case (Aes key)
  have p: "length (put start (md_nonce d) buf) = length buf" "drop (start + NONCE) (put start (md_nonce d) buf) = drop (start + NONCE) buf"
    using assms(2,3) Aes by (simp_all add: put_def)
  show ?thesis
  proof (cases "ae_encrypt a key (md_nonce d) (drop (start + NONCE) buf)")
    case None
    then show ?thesis using assms(5) Aes p by (simp add: Let_def)
  next
    case (Some ct)
    obtain c t where ct: "ct = (c, t)" by force
    then have "length c = length buf - (start + NONCE)" using aead_ok_length(2) [OF assms(1)] Some by simp
    then show ?thesis using assms(3,5) Aes p Some ct by (auto simp: Let_def)
  qed
next
  case Original
  then have "buf' = take start buf @ xor_forward (put 0 (be32 (fnv1a (drop 4 (put 4 (be16 (of_nat (length (drop start buf) - ORIGINAL))) (drop start buf)))))
      (put 4 (be16 (of_nat (length (drop start buf) - ORIGINAL))) (drop start buf)))"
    using assms(5) by (simp add: Let_def)
  then show ?thesis using assms(3) Original by (simp add: ORIGINAL_def)
next
  case (Dns header)
  then show ?thesis using assms(3,4,5) by auto
qed (use assms(3,5) in \<open>auto simp: Let_def\<close>)

lemma seal_masks_longer:
  "seal_masks a draws g buf start = (g', buf') \<Longrightarrow> group_size g \<le> start \<Longrightarrow> start \<le> length buf \<Longrightarrow>
   list_all mask_ok g \<Longrightarrow> \<forall>i. length (md_nonce (draws i)) = NONCE \<Longrightarrow> aead_ok a \<Longrightarrow> length buf \<le> length buf'"
proof (induction g arbitrary: draws buf start g' buf')
  case (Cons m ms)
  obtain m1 buf1 where s1: "legacy_seal a (draws 0) m buf (start - legacy_size m) = (m1, buf1)" by force
  obtain ms1 buf2 where s2: "seal_masks a (\<lambda>i. draws (Suc i)) ms buf1 (start - legacy_size m) = (ms1, buf2)" by force
  have "length buf \<le> length buf1" using Cons.prems by (intro seal_longer [OF _ _ _ _ s1]) simp_all
  moreover have "length buf1 \<le> length buf2" using Cons.prems calculation by (intro Cons.IH [OF s2]) simp_all
  ultimately show ?case using Cons.prems(1) s1 s2 by simp
qed simp

lemma seal_masks_chain:
  assumes "seal_masks a draws g buf start = (g', buf')" "group_size g \<le> start" "start \<le> length buf"
    and "list_all mask_ok g" "\<forall>i. length (md_nonce (draws i)) = NONCE" "aead_ok a" "length buf' \<le> UDP_SIZE"
  shows "take (start - group_size g) buf' = take (start - group_size g) buf \<and>
    chain a (rev g) (drop (start - group_size g) buf') (drop start buf) \<and> list_all2 same_kind g g'"
  using assms
proof (induction g arbitrary: draws buf start g' buf')
  case (Cons m ms)
  let ?start = "start - legacy_size m"
  obtain m1 buf1 where s1: "legacy_seal a (draws 0) m buf ?start = (m1, buf1)" by force
  obtain ms1 buf2 where s2: "seal_masks a (\<lambda>i. draws (Suc i)) ms buf1 ?start = (ms1, buf2)" by force
  have r: "g' = m1 # ms1" "buf' = buf2" using Cons.prems(1) s1 s2 by simp_all
  have l1: "length buf \<le> length buf1" using Cons.prems by (intro seal_longer [OF _ _ _ _ s1]) simp_all
  have l2: "length buf1 \<le> length buf2" using Cons.prems l1 by (intro seal_masks_longer [OF s2]) simp_all
  have o: "take ?start buf1 = take ?start buf" "opens a m (drop ?start buf1) (drop start buf)"
    using seal_opens [OF Cons.prems(6) _ _ _ _ s1] Cons.prems l1 l2 r(2) by simp_all
  have i: "take (?start - group_size ms) buf2 = take (?start - group_size ms) buf1"
      "chain a (rev ms) (drop (?start - group_size ms) buf2) (drop ?start buf1)" "list_all2 same_kind ms ms1"
    using Cons.IH [OF s2] Cons.prems l1 r(2) by simp_all
  have t: "take (?start - group_size ms) buf1 = take (?start - group_size ms) buf"
    using arg_cong [OF o(1), of "take (?start - group_size ms)"] by (simp only: take_take min_absorb1 [OF diff_le_self])
  show ?case using r o(2) i t seal_same_kind [OF s1] by (auto simp: chain_append diff_diff_left)
qed simp

lemma chain_same_kind: "list_all2 same_kind g g' \<Longrightarrow> chain a g region inner = chain a g' region inner"
  by (induction arbitrary: region rule: list_all2_induct) (simp_all add: opens_def same_kind_open)

lemma group_size_same_kind: "list_all2 same_kind g g' \<Longrightarrow> group_size g = group_size g'"
  by (induction rule: list_all2_induct) (simp_all add: same_kind_size)

lemma mask_ok_same_kind: "same_kind m m' \<Longrightarrow> mask_ok m = mask_ok m'"
  by (cases m; cases m') (simp_all add: same_kind_def)

lemma group_round_trip:
  assumes "group_seal a draws payload g = (Some sealed, g')" "list_all2 same_kind g h" "list_all mask_ok g"
    and "\<forall>i. length (md_nonce (draws i)) = NONCE" "aead_ok a" "slice_get buf i j = Some sealed"
  shows "\<exists>buf' i' j'. group_open a h buf (i, j) = Opened (buf', i', j') \<and> slice_get buf' i' j' = Some payload"
proof (cases "g = []")
  case True
  then show ?thesis using assms(1,2,6) by (auto simp: group_seal_def group_open_def)
next
  case False
  let ?buf = "replicate (group_size g) 0 @ payload"
  have s: "seal_masks a draws g ?buf (group_size g) = (g', sealed)" "length sealed \<le> UDP_SIZE"
    using assms(1) False by (auto simp: group_seal_def split: if_splits prod.splits)
  have "length ?buf \<le> length sealed" using assms(3-5) by (intro seal_masks_longer [OF s(1)]) simp_all
  then have size: "group_size h \<le> j - i"
    using slice_get_length [OF assms(6)] group_size_same_kind [OF assms(2)] by simp
  have "chain a (rev g) sealed payload"
    using seal_masks_chain [OF s(1) _ _ assms(3-5) s(2)] by simp
  then have "chain a (rev h) sealed payload"
    using chain_same_kind [of "rev g" "rev h"] assms(2) by (simp add: list_all2_rev)
  from chain_opens [OF this assms(6)] show ?thesis
    using size False assms(2) by (auto simp: group_open_def)
qed

lemma seal_masks_kind: "seal_masks a draws g buf start = (g', buf') \<Longrightarrow> list_all2 same_kind g g'"
proof (induction g arbitrary: draws buf start g')
  case (Cons m ms)
  obtain m1 buf1 where s1: "legacy_seal a (draws 0) m buf (start - legacy_size m) = (m1, buf1)" by force
  obtain ms1 buf2 where s2: "seal_masks a (\<lambda>i. draws (Suc i)) ms buf1 (start - legacy_size m) = (ms1, buf2)" by force
  have "g' = m1 # ms1" "buf' = buf2" using Cons.prems s1 s2 by simp_all
  then show ?case using seal_same_kind [OF s1] Cons.IH [of "\<lambda>i. draws (Suc i)" buf1 _ ms1] s2 by simp
qed simp

lemma group_seal_kind:
  assumes "group_seal a draws payload g = (r, g')"
  shows "list_all2 same_kind g g'"
proof -
  obtain g1 buf1 where s: "seal_masks a draws g (replicate (group_size g) 0 @ payload) (group_size g) = (g1, buf1)" by force
  show ?thesis
    using assms seal_masks_kind [OF s] by (auto simp: group_seal_def s list.rel_refl split: if_splits)
qed

section \<open>The masks of a connection\<close>

lemma dns_header_ok: "dns_header domain = Inr header \<Longrightarrow> 2 \<le> length header"
  by (auto simp: dns_header_def rbind_eq_Inr)

lemma legacy_new_ok: "legacy_new sha256 k = Inr (Some m) \<Longrightarrow> mask_ok m"
  using dns_header_ok
  by (auto simp: legacy_new_def rbind_eq_Inr Let_def split: kcp_mask.splits kcp_header.splits if_splits)

definition masks_ok :: "masks \<Rightarrow> bool" where
  "masks_ok ms \<longleftrightarrow> list_all mask_ok (mk_inner ms) \<and> list_all mask_ok (mk_outer ms)"

lemma masks_add_ok: "masks_add sha256 nc ks ms = Inr ms' \<Longrightarrow> masks_ok ms \<Longrightarrow> masks_ok ms'"
proof (induction ks arbitrary: ms)
  case (Cons k ks)
  then obtain new where new: "legacy_new sha256 k = Inr new" by (auto simp: rbind_eq_Inr)
  show ?case
  proof (cases new)
    case None
    then show ?thesis using Cons new by (auto simp: masks_ok_def rbind_eq_Inr split: option.splits if_splits)
  next
    case (Some m)
    then have "mask_ok m" using new legacy_new_ok by simp
    then show ?thesis using Cons new Some by (auto simp: masks_ok_def split: if_splits)
  qed
qed simp

lemma masks_new_ok: "masks_new sha256 ks nc = Inr ms \<Longrightarrow> masks_ok ms"
  unfolding masks_new_def by (erule masks_add_ok) (simp add: masks_ok_def)

datatype mask_op = OpWrap wrap_draws bytes nat | OpSent "u32 \<Rightarrow> u32 \<Rightarrow> u32" nat

fun mask_step :: "aead \<Rightarrow> mask_op \<Rightarrow> masks \<Rightarrow> masks" where
  "mask_step a (OpWrap d datagram now) ms = snd (masks_wrap a d datagram now ms)"
| "mask_step a (OpSent gen_range now) ms = masks_sent gen_range now ms"

definition masks_kind :: "masks \<Rightarrow> masks \<Rightarrow> bool" where
  "masks_kind ms ms' \<longleftrightarrow> list_all2 same_kind (mk_inner ms) (mk_inner ms') \<and> list_all2 same_kind (mk_outer ms) (mk_outer ms')"

lemma same_kinds_refl [simp]: "list_all2 same_kind g g"
  by (simp add: list.rel_refl)

lemma same_kinds_trans: "list_all2 same_kind g h \<Longrightarrow> list_all2 same_kind h k \<Longrightarrow> list_all2 same_kind g k"
  by (rule list_all2_trans [OF same_kind_trans])

lemma noise_packets_kind: "noise_packets a d k items outer = (packets, outer') \<Longrightarrow> list_all2 same_kind outer outer'"
proof (induction items arbitrary: k outer packets)
  case (Cons item items)
  obtain p o1 where 1: "group_seal a (wd_outer d k) (noise_build (wd_packet d k) item) outer = (p, o1)" by force
  obtain ps o2 where 2: "noise_packets a d (Suc k) items o1 = (ps, o2)" by force
  have "outer' = o2" using Cons.prems 1 2 by (simp add: Let_def)
  then show ?case using group_seal_kind [OF 1] Cons.IH [of "Suc k" o1 ps] 2 same_kinds_trans by blast
qed simp

text \<open>The states of the masks that \<open>wrap\<close> goes through.\<close>

lemma masks_wrapE:
  assumes "masks_wrap a d datagram now ms = (r, ms')"
  obtains inner where "group_seal a (wd_inner d) datagram (mk_inner ms) = (None, inner)" "r = None" "ms' = ms\<lparr>mk_inner := inner\<rparr>"
  | sealed inner n packets outer1 sent outer2 where
      "group_seal a (wd_inner d) datagram (mk_inner ms) = (Some sealed, inner)" "list_all2 same_kind (mk_outer ms) outer1"
      "group_seal a (wd_outer d n) sealed outer1 = (sent, outer2)"
      "r = Some \<lparr>wr_noise = packets, wr_datagram = sent\<rparr>" "ms' = ms\<lparr>mk_inner := inner, mk_outer := outer2\<rparr>"
proof -
  obtain q inner where q: "group_seal a (wd_inner d) datagram (mk_inner ms) = (q, inner)" by force
  let ?items = "case mk_noise ms of Some n \<Rightarrow> if noise_due n now then nc_items (no_config n) else [] | None \<Rightarrow> []"
  obtain packets outer1 where p: "noise_packets a d 0 ?items (mk_outer ms) = (packets, outer1)" by force
  show ?thesis
  proof (cases q)
    case None
    then show ?thesis using assms q by (intro that(1) [of inner]) (auto simp: masks_wrap_def)
  next
    case (Some sealed)
    obtain sent outer2 where s: "group_seal a (wd_outer d (length ?items)) sealed outer1 = (sent, outer2)" by force
    then show ?thesis
      using assms q p Some by (intro that(2) [OF _ noise_packets_kind [OF p] s, of inner packets]) (auto simp: masks_wrap_def Let_def)
  qed
qed

lemma mask_step_kind: "masks_kind ms (mask_step a op ms)"
proof (cases op)
  case (OpWrap d datagram now)
  obtain r ms' where w: "masks_wrap a d datagram now ms = (r, ms')" by force
  then show ?thesis
  proof (cases rule: masks_wrapE)
    case (1 inner)
    then show ?thesis using w OpWrap group_seal_kind [OF 1(1)] by (simp add: masks_kind_def)
  next
    case (2 sealed inner n packets outer1 sent outer2)
    then show ?thesis
      using w OpWrap group_seal_kind [OF 2(1)] same_kinds_trans [OF 2(2) group_seal_kind [OF 2(3)]] by (simp add: masks_kind_def)
  qed
next
  case (OpSent g now)
  then show ?thesis by (simp add: masks_kind_def masks_sent_def split: option.split)
qed

lemma mask_steps_kind: "masks_kind ms (fold (mask_step a) ops ms)"
proof (induction ops arbitrary: ms)
  case (Cons op ops)
  then show ?case using mask_step_kind [of ms a op] unfolding masks_kind_def by (auto intro: same_kinds_trans)
qed (simp add: masks_kind_def)

lemma mask_oks_same_kind: "list_all2 same_kind g h \<Longrightarrow> list_all mask_ok g = list_all mask_ok h"
  by (induction rule: list_all2_induct) (simp_all add: mask_ok_same_kind)

definition draws_ok :: "wrap_draws \<Rightarrow> bool" where
  "draws_ok d \<longleftrightarrow> (\<forall>i. length (md_nonce (wd_inner d i)) = NONCE) \<and> (\<forall>k i. length (md_nonce (wd_outer d k i)) = NONCE)"

lemma same_kind_sym: "same_kind m m' \<Longrightarrow> same_kind m' m"
  by (simp add: same_kind_def)

lemma same_kinds_sym: "list_all2 same_kind g h \<Longrightarrow> list_all2 same_kind h g"
  by (induction rule: list_all2_induct) (simp_all add: same_kind_sym)

text \<open>
  C13. The masks of a connection are undone by the masks that the same settings give at the other
  end: whatever was wrapped before, the datagram that goes on the wire opens to the datagram that was wrapped, also
  with noise between two groups of masks. The cipher encrypts in place and decryption undoes it.
\<close>

theorem kcp_masks_round_trip:
  assumes "aead_ok a" "masks_new sha256 ks nc = Inr ms" "draws_ok d"
    and "fst (masks_wrap a d datagram now (fold (mask_step a) ops ms)) = Some w" "wr_datagram w = Some sent"
  shows "\<exists>buf i j. masks_open a ms sent = Opened (buf, i, j) \<and> slice_get buf i j = Some datagram"
proof -
  let ?ms = "fold (mask_step a) ops ms"
  have k: "list_all2 same_kind (mk_inner ?ms) (mk_inner ms)" "list_all2 same_kind (mk_outer ?ms) (mk_outer ms)"
    using mask_steps_kind [of ms a ops] same_kinds_sym by (auto simp: masks_kind_def)
  have ok: "list_all mask_ok (mk_inner ?ms)" "list_all mask_ok (mk_outer ?ms)"
    using masks_new_ok [OF assms(2)] mask_oks_same_kind [OF k(1)] mask_oks_same_kind [OF k(2)] by (simp_all add: masks_ok_def)
  obtain ms' where w: "masks_wrap a d datagram now ?ms = (Some w, ms')" using assms(4) by (cases "masks_wrap a d datagram now ?ms") auto
  then obtain sealed inner n outer1 outer2 where
      s: "group_seal a (wd_inner d) datagram (mk_inner ?ms) = (Some sealed, inner)"
      and o: "list_all2 same_kind (mk_outer ?ms) outer1"
      and t: "group_seal a (wd_outer d n) sealed outer1 = (Some sent, outer2)"
    using assms(5) by (cases rule: masks_wrapE) auto
  have "list_all2 same_kind outer1 (mk_outer ms)" "list_all mask_ok outer1"
    using same_kinds_trans [OF same_kinds_sym [OF o] k(2)] mask_oks_same_kind [OF o] ok(2) by simp_all
  moreover have "slice_get sent 0 (length sent) = Some sent" by (simp add: slice_get_def)
  ultimately obtain buf i j where 1: "group_open a (mk_outer ms) sent (0, length sent) = Opened (buf, i, j)" "slice_get buf i j = Some sealed"
    using group_round_trip [OF t _ _ _ assms(1)] assms(3) unfolding draws_ok_def by blast
  obtain buf' i' j' where "group_open a (mk_inner ms) buf (i, j) = Opened (buf', i', j')" "slice_get buf' i' j' = Some datagram"
    using group_round_trip [OF s k(1) ok(1) _ assms(1) 1(2)] assms(3) unfolding draws_ok_def by blast
  then show ?thesis using 1(1) by (simp add: masks_open_def)
qed

definition example_aead :: aead where
  "example_aead = \<lparr>ae_encrypt = (\<lambda>key nonce text. Some (map (\<lambda>b. b XOR 90) text, replicate 16 7)),
     ae_decrypt = (\<lambda>key nonce c t. if t = replicate 16 7 then Some (map (\<lambda>b. b XOR 90) c) else None)\<rparr>"

lemma example_aead_ok: "aead_ok example_aead"
  by (simp add: aead_ok_def example_aead_def TAG_def comp_def xor.assoc)

definition example_draws :: wrap_draws where
  "example_draws = \<lparr>wd_inner = (\<lambda>i. \<lparr>md_nonce = replicate 12 3, md_id = 9\<rparr>),
     wd_outer = (\<lambda>k i. \<lparr>md_nonce = replicate 12 4, md_id = 8\<rparr>), wd_delay = (\<lambda>k x y. x), wd_packet = (\<lambda>k i x y. y)\<rparr>"

definition example_masks :: masks where
  "example_masks = \<lparr>mk_inner = [Original, Aes (replicate 16 1), Srtp 0], mk_noise = None, mk_outer = []\<rparr>"

lemma example_masks_new:
  "masks_new (\<lambda>_. replicate 32 1) [MaskOriginal, MaskAes128Gcm [112], MaskHeader HeaderSrtp] None = Inr example_masks"
  by code_simp

definition example_wrapped :: wrapped where
  "example_wrapped = the (fst (masks_wrap example_aead example_draws [1, 2, 3] 5
     (fold (mask_step example_aead) [OpWrap example_draws [9] 2] example_masks)))"

theorem kcp_masks_round_trip_witness:
  "\<exists>buf i j. masks_open example_aead example_masks (the (wr_datagram example_wrapped)) = Opened (buf, i, j) \<and>
     slice_get buf i j = Some [1, 2, 3]"
proof -
  have 1: "fst (masks_wrap example_aead example_draws [1, 2, 3] 5
      (fold (mask_step example_aead) [OpWrap example_draws [9] 2] example_masks)) \<noteq> None"
    by code_simp
  have 2: "wr_datagram example_wrapped \<noteq> None" by code_simp
  have d: "draws_ok example_draws" by (simp add: draws_ok_def example_draws_def NONCE_def)
  show ?thesis
    using 1 2
    by (intro kcp_masks_round_trip [OF example_aead_ok example_masks_new d, of "[1, 2, 3]" 5 "[OpWrap example_draws [9] 2]" example_wrapped])
      (simp_all add: example_wrapped_def)
qed

section \<open>Datagrams from anywhere\<close>

fun is_aes :: "legacy \<Rightarrow> bool" where
  "is_aes (Aes key) \<longleftrightarrow> True"
| "is_aes _ \<longleftrightarrow> False"

lemma legacy_open_range:
  assumes "aead_ok a" "legacy_size m \<le> length region"
  obtains "legacy_open a m region = Dropped"
  | r x y where "legacy_open a m region = Opened (r, x, y)" "length r = length region" "x \<le> y" "y \<le> length region"
      "\<not> is_aes m \<Longrightarrow> y - x = length region - legacy_size m"
proof (cases m)
  case Original
  then have "legacy_open a m region = Dropped \<or> legacy_open a m region = Opened (xor_back region, 6, length region)"
    using assms(2) by (auto simp: Let_def ORIGINAL_def)
  then show ?thesis using assms(2) Original that(1) that(2) [of "xor_back region" 6 "length region"] by (auto simp: ORIGINAL_def)
next
  case (Aes key)
  let ?rest = "drop NONCE region"
  let ?text = "take (length ?rest - TAG) ?rest"
  let ?tag = "drop (length ?rest - TAG) ?rest"
  show ?thesis
  proof (cases "length region < NONCE + TAG \<or> ae_decrypt a key (take NONCE region) ?text ?tag = None")
    case True
    then have "legacy_open a m region = Dropped" using Aes by (auto simp: Let_def)
    then show ?thesis by (rule that(1))
  next
    case False
    then obtain p where p: "ae_decrypt a key (take NONCE region) ?text ?tag = Some p" by auto
    have "length p = length ?text" by (rule aead_ok_length(1) [OF assms(1) p])
    then show ?thesis
      using that(2) [of "take NONCE region @ p @ ?tag" NONCE "length region - TAG"] False p Aes
      by (auto simp: Let_def NONCE_def TAG_def)
  qed
qed (use assms(2) that(2) in simp_all)

lemma open_masks_range:
  assumes "aead_ok a" "i \<le> j" "j \<le> length buf" "group_size ms \<le> j - i" "\<forall>m \<in> set (butlast ms). \<not> is_aes m"
  shows "open_masks a ms buf (i, j) = Dropped \<or>
    (\<exists>buf' i' j'. open_masks a ms buf (i, j) = Opened (buf', i', j') \<and> i' \<le> j' \<and> j' \<le> length buf')"
  using assms
proof (induction ms arbitrary: buf i j)
  case (Cons m ms)
  let ?region = "take (j - i) (drop i buf)"
  have region: "slice_get buf i j = Some ?region" "length ?region = j - i" using Cons.prems(2,3) by (simp_all add: slice_get_def)
  then have "legacy_size m \<le> length ?region" using Cons.prems(4) by simp
  with assms(1) show ?case
  proof (cases rule: legacy_open_range)
    case 1
    then show ?thesis using region(1) by simp
  next
    case (2 r x y)
    have put: "length (put i r buf) = length buf" using 2(2) Cons.prems(2,3) region(2) by (intro length_put) simp
    have step: "open_masks a (m # ms) buf (i, j) = open_masks a ms (put i r buf) (i + x, i + y)"
      using region(1) 2(1) by simp
    have xy: "i + x \<le> i + y" "i + y \<le> length (put i r buf)" using 2(3,4) region(2) Cons.prems(2,3) put by simp_all
    show ?thesis
    proof (cases ms)
      case Nil
      then show ?thesis using step xy by simp
    next
      case (Cons m' ms')
      then have "\<not> is_aes m" using Cons.prems(5) by simp
      then have "y - x = (j - i) - legacy_size m" using 2(5) region(2) by simp
      then have "group_size ms \<le> (i + y) - (i + x)" using Cons.prems(4) by simp
      moreover have "\<forall>m \<in> set (butlast ms). \<not> is_aes m" using Cons.prems(5) Cons by simp
      ultimately show ?thesis using Cons.IH [OF assms(1) xy] step by simp
    qed
  qed
qed simp

lemma group_open_range:
  assumes "aead_ok a" "i \<le> j" "j \<le> length buf" "\<forall>m \<in> set (tl g). \<not> is_aes m"
  shows "group_open a g buf (i, j) = Dropped \<or>
    (\<exists>buf' i' j'. group_open a g buf (i, j) = Opened (buf', i', j') \<and> i' \<le> j' \<and> j' \<le> length buf')"
proof -
  have "set (butlast (rev g)) = set (tl g)" by (cases g) (simp_all add: butlast_append)
  moreover have "group_size (rev g) = group_size g" by (simp add: group_size_def rev_map [symmetric] sum_list_rev)
  ultimately show ?thesis
    using assms open_masks_range [of a i j buf "rev g"] by (simp add: group_open_def)
qed

lemma masks_open_range:
  assumes "aead_ok a" "\<forall>m \<in> set (tl (mk_inner ms)) \<union> set (tl (mk_outer ms)). \<not> is_aes m"
  shows "masks_open a ms datagram = Dropped \<or>
    (\<exists>buf i j segments. masks_open a ms datagram = Opened (buf, i, j) \<and> slice_get buf i j = Some segments)"
proof -
  have "group_open a (mk_outer ms) datagram (0, length datagram) = Dropped \<or>
      (\<exists>buf i j. group_open a (mk_outer ms) datagram (0, length datagram) = Opened (buf, i, j) \<and> i \<le> j \<and> j \<le> length buf)"
    using assms by (intro group_open_range) auto
  then show ?thesis
  proof (elim disjE exE conjE)
    fix buf i j assume o: "group_open a (mk_outer ms) datagram (0, length datagram) = Opened (buf, i, j)" "i \<le> j" "j \<le> length buf"
    have "group_open a (mk_inner ms) buf (i, j) = Dropped \<or>
        (\<exists>buf' i' j'. group_open a (mk_inner ms) buf (i, j) = Opened (buf', i', j') \<and> i' \<le> j' \<and> j' \<le> length buf')"
      using assms by (intro group_open_range [OF _ o(2,3)]) auto
    then show ?thesis using o(1) by (auto simp: masks_open_def slice_get_def)
  qed (simp add: masks_open_def)
qed

text \<open>
  C26. Opening a datagram from anywhere never indexes outside the buffer: it drops the
  datagram or gives a range of it, as long as no AES mask is applied around another mask of its group.
\<close>

theorem kcp_masks_open_in_range:
  assumes "aead_ok a" "\<forall>m \<in> set (tl (mk_inner ms)) \<union> set (tl (mk_outer ms)). \<not> is_aes m"
  shows "masks_open a ms datagram = Dropped \<or>
    (\<exists>buf i j segments. masks_open a ms datagram = Opened (buf, i, j) \<and> slice_get buf i j = Some segments)"
  using assms by (rule masks_open_range)

theorem kcp_masks_open_in_range_witness:
  "masks_open example_aead \<lparr>mk_inner = [Aes (replicate 16 1), Original], mk_noise = None, mk_outer = []\<rparr> (replicate 40 5) = Dropped \<or>
   (\<exists>buf i j segments. masks_open example_aead \<lparr>mk_inner = [Aes (replicate 16 1), Original], mk_noise = None, mk_outer = []\<rparr>
      (replicate 40 5) = Opened (buf, i, j) \<and> slice_get buf i j = Some segments)"
  by (rule kcp_masks_open_in_range [OF example_aead_ok]) simp

text \<open>
  The condition is needed: with the original mask inside an AES mask, a peer that knows the key makes the reader
  index outside the datagram by sealing an empty text.
\<close>

lemma aes_around_original_panics:
  "masks_open example_aead \<lparr>mk_inner = [Original, Aes (replicate 16 1)], mk_noise = None, mk_outer = []\<rparr>
     (replicate 12 3 @ replicate 16 7) = Panics"
  by code_simp

end
