(* ===== verification/Xr_Kcp_Driver.thy ===== *)
theory Xr_Kcp_Driver
  imports Xr_Kcp_Delivery Xr_Poll Xr_Kcp_Mask
begin

text \<open>
  The stream and the driver of an mKCP connection, \<open>kcp/mod.rs\<close>: the stream polls the engine and parks
  its reader and writer, the driver feeds it datagrams, runs its timers and sends what it queues.
  Wakers are numbers; what a step wakes is part of its result. Instants are counted in
  milliseconds, and every reading of the clock is an argument. A parked reader has nothing to
  read, and the driver of a dropped stream stops.
\<close>

section \<open>Shared state\<close>

record inner =
  in_engine :: engine
  in_reader :: "nat option"
  in_writer :: "nat option"

record shared =
  sh_since :: nat
  sh_inner :: inner
  sh_wake :: bool

definition elapsed :: "nat \<Rightarrow> nat \<Rightarrow> u32" where
  "elapsed since now = of_nat (now - since)"

definition take_wakers :: "inner \<Rightarrow> nat list \<times> inner" where
  "take_wakers i =
     (let e = in_engine i;
          (reader, parked_reader) = (if en_input_ready e then (in_reader i, None) else (None, in_reader i));
          (writer, parked_writer) = (if en_output_ready e then (in_writer i, None) else (None, in_writer i))
      in (List.map_filter id [reader, writer],
          i\<lparr>in_engine := e\<lparr>en_input_ready := False, en_output_ready := False\<rparr>,
            in_reader := parked_reader, in_writer := parked_writer\<rparr>))"

definition signal :: "shared \<Rightarrow> nat list \<times> shared" where
  "signal s =
     (case take_wakers (sh_inner s) of
        (wakers, i) \<Rightarrow>
          (wakers, s\<lparr>sh_inner := i\<lparr>in_engine := (in_engine i)\<lparr>en_wake_data := False\<rparr>\<rparr>,
                     sh_wake := sh_wake s \<or> en_wake_data (in_engine i)\<rparr>))"

definition signal_from_driver :: "shared \<Rightarrow> nat list \<times> shared" where
  "signal_from_driver s =
     (case take_wakers (sh_inner s) of
        (wakers, i) \<Rightarrow> (wakers, s\<lparr>sh_inner := i\<lparr>in_engine := (in_engine i)\<lparr>en_wake_data := False\<rparr>\<rparr>\<rparr>))"

section \<open>The stream\<close>

definition with_engine :: "engine \<Rightarrow> shared \<Rightarrow> shared" where
  "with_engine e s = s\<lparr>sh_inner := (sh_inner s)\<lparr>in_engine := e\<rparr>\<rparr>"

abbreviation sh_engine :: "shared \<Rightarrow> engine" where
  "sh_engine s \<equiv> in_engine (sh_inner s)"

definition stream_start :: "nat \<Rightarrow> u16 \<Rightarrow> kcp_config \<Rightarrow> shared" where
  "stream_start since conv config =
     \<lparr>sh_since = since, sh_inner = \<lparr>in_engine = engine_new conv config, in_reader = None, in_writer = None\<rparr>, sh_wake = False\<rparr>"

definition stream_drop :: "nat \<Rightarrow> shared \<Rightarrow> nat list \<times> shared" where
  "stream_drop now s = signal (with_engine (snd (engine_close (elapsed (sh_since s) now) (sh_engine s))) s)"

definition stream_poll_read :: "nat \<Rightarrow> nat \<Rightarrow> shared \<Rightarrow> (io_error + bytes) poll \<times> nat list \<times> shared" where
  "stream_poll_read waker n s =
     (if n = 0 then (Ready (Inr []), [], s)
      else (case engine_read n (sh_engine s) of
          (None, e) \<Rightarrow> (Ready (Inr []), [], with_engine e s)
        | (Some bs, e) \<Rightarrow>
            let s = with_engine e s
            in if bs = [] then (Pending, [], s\<lparr>sh_inner := (sh_inner s)\<lparr>in_reader := Some waker\<rparr>\<rparr>)
               else (Ready (Inr bs), signal s)))"

definition stream_poll_write :: "nat \<Rightarrow> bytes \<Rightarrow> shared \<Rightarrow> (io_error + nat) poll \<times> nat list \<times> shared" where
  "stream_poll_write waker data s =
     (if data = [] then (Ready (Inr 0), [], s)
      else (case engine_write data (sh_engine s) of
          (Inr count, e) \<Rightarrow> (Ready (Inr count), signal (with_engine e s))
        | (Inl Full, e) \<Rightarrow>
            let s = with_engine e s
            in (Pending, [], s\<lparr>sh_inner := (sh_inner s)\<lparr>in_writer := Some waker\<rparr>\<rparr>)
        | (Inl Closed, e) \<Rightarrow> (Ready (Inl (Io BrokenPipe ''broken pipe'')), [], with_engine e s)))"

section \<open>The driver\<close>

definition PING_INTERVAL :: nat where "PING_INTERVAL = 5000"

record data_updater =
  du_running :: bool
  du_next :: nat
  du_interval :: nat

record driver =
  dr_shared :: shared
  dr_masks :: masks
  dr_data :: data_updater
  dr_ping_next :: nat
  dr_receiving :: bool

definition driver_new :: "shared \<Rightarrow> masks \<Rightarrow> driver" where
  "driver_new s ms =
     \<lparr>dr_shared = s, dr_masks = ms,
      dr_data = \<lparr>du_running = False, du_next = sh_since s, du_interval = unat (kc_tti (en_config (sh_engine s)))\<rparr>,
      dr_ping_next = sh_since s, dr_receiving = True\<rparr>"

abbreviation dr_engine :: "driver \<Rightarrow> engine" where
  "dr_engine d \<equiv> sh_engine (dr_shared d)"

definition dr_elapsed :: "driver \<Rightarrow> nat \<Rightarrow> u32" where
  "dr_elapsed d now = elapsed (sh_since (dr_shared d)) now"

definition dr_signal :: "driver \<Rightarrow> nat list \<times> driver" where
  "dr_signal d = (case signal_from_driver (dr_shared d) of (wakers, s) \<Rightarrow> (wakers, d\<lparr>dr_shared := s\<rparr>))"

definition dr_flush :: "nat \<Rightarrow> driver \<Rightarrow> driver" where
  "dr_flush t d = d\<lparr>dr_shared := with_engine (engine_flush (dr_elapsed d t) (dr_engine d)) (dr_shared d)\<rparr>"

definition driver_wake_data :: "nat \<Rightarrow> nat \<Rightarrow> driver \<Rightarrow> nat list \<times> driver" where
  "driver_wake_data now t d =
     (if du_running (dr_data d) then ([], d)
      else if data_update_terminated (dr_engine d) then ([], d)
      else
        let running = data_update_necessary (dr_engine d);
            d = d\<lparr>dr_data := (dr_data d)\<lparr>du_running := running\<rparr>\<rparr>;
            d = (if running
                 then (let d = dr_flush t d in d\<lparr>dr_data := (dr_data d)\<lparr>du_next := now + du_interval (dr_data d)\<rparr>\<rparr>)
                 else d)
        in dr_signal d)"

definition tick_data :: "nat \<Rightarrow> nat \<Rightarrow> driver \<Rightarrow> driver" where
  "tick_data now t d =
     (if du_running (dr_data d) \<and> now \<ge> du_next (dr_data d) then
        (if data_update_necessary (dr_engine d) then
           (let d = dr_flush t d;
                d = d\<lparr>dr_data := (dr_data d)\<lparr>du_next := du_next (dr_data d) + du_interval (dr_data d)\<rparr>\<rparr>
            in if du_next (dr_data d) \<le> now then d\<lparr>dr_data := (dr_data d)\<lparr>du_next := now\<rparr>\<rparr> else d)
         else d\<lparr>dr_data := (dr_data d)\<lparr>du_running := False\<rparr>\<rparr>)
      else d)"

definition tick_ping :: "nat \<Rightarrow> nat \<Rightarrow> driver \<Rightarrow> driver" where
  "tick_ping now t d =
     (if now \<ge> dr_ping_next d then
        (let d = (if en_state (dr_engine d) \<noteq> Terminated then dr_flush t d else d);
             d = d\<lparr>dr_ping_next := dr_ping_next d + PING_INTERVAL\<rparr>
         in if dr_ping_next d \<le> now then d\<lparr>dr_ping_next := now + PING_INTERVAL\<rparr> else d)
      else d)"

definition driver_tick :: "nat \<Rightarrow> nat \<Rightarrow> driver \<Rightarrow> nat list \<times> driver" where
  "driver_tick now t d = dr_signal (tick_ping now t (tick_data now t d))"

text \<open>\<open>receive\<close> up to the data updater; \<open>None\<close> is a panic.\<close>

definition driver_input :: "aead \<Rightarrow> nat \<Rightarrow> bytes \<Rightarrow> driver \<Rightarrow> (nat list \<times> bool \<times> driver) option" where
  "driver_input a t datagram d =
     (case masks_open a (dr_masks d) datagram of
        Panics \<Rightarrow> None
      | Dropped \<Rightarrow> Some ([], False, d)
      | Opened (buf, i, j) \<Rightarrow>
          (case slice_get buf i j of
             None \<Rightarrow> None
           | Some opened \<Rightarrow>
               (let segments = read_segments opened
                in if segments = [] then Some ([], False, d)
                   else
                     let e = engine_input segments (dr_elapsed d t) (dr_engine d);
                         wake = en_wake_data e;
                         (wakers, d) = dr_signal (d\<lparr>dr_shared := with_engine (e\<lparr>en_wake_data := False\<rparr>) (dr_shared d)\<rparr>)
                     in Some (wakers, wake, d))))"

definition driver_datagram :: "aead \<Rightarrow> nat \<Rightarrow> nat \<Rightarrow> nat \<Rightarrow> bytes \<Rightarrow> driver \<Rightarrow> (nat list \<times> driver) option" where
  "driver_datagram a t now t' datagram d =
     (case driver_input a t datagram d of
        None \<Rightarrow> None
      | Some (wakers, wake, d) \<Rightarrow>
          if wake then (case driver_wake_data now t' d of (wakers', d) \<Rightarrow> Some (wakers @ wakers', d))
          else Some (wakers, d))"

text \<open>What the driver does on the socket: datagrams that it hands to the system, and the pauses between them.\<close>

datatype wire = Packet bytes | Pause u32

definition noise_wire :: "bytes option \<times> u32 \<Rightarrow> wire list" where
  "noise_wire p = (case p of (noise, pause) \<Rightarrow>
     (case noise of Some packet \<Rightarrow> [Packet packet] | None \<Rightarrow> []) @ (if pause \<noteq> 0 then [Pause pause] else []))"

text \<open>The random numbers and clock readings for the \<open>k\<close>-th datagram that is sent.\<close>

record send_env =
  se_draws :: "nat \<Rightarrow> wrap_draws"
  se_reset :: "nat \<Rightarrow> u32 \<Rightarrow> u32 \<Rightarrow> u32"
  se_wrap :: "nat \<Rightarrow> nat"
  se_sent :: "nat \<Rightarrow> nat"

fun send_datagrams :: "aead \<Rightarrow> send_env \<Rightarrow> nat \<Rightarrow> bytes list \<Rightarrow> masks \<Rightarrow> wire list \<times> masks" where
  "send_datagrams a v k [] ms = ([], ms)"
| "send_datagrams a v k (datagram # ds) ms =
     (case masks_wrap a (se_draws v k) datagram (se_wrap v k) ms of
        (None, ms) \<Rightarrow> send_datagrams a v (Suc k) ds ms
      | (Some w, ms) \<Rightarrow>
          (let ms = masks_sent (se_reset v k) (se_sent v k) ms;
               out = concat (map noise_wire (wr_noise w)) @ (case wr_datagram w of Some d \<Rightarrow> [Packet d] | None \<Rightarrow> []);
               (rest, ms) = send_datagrams a v (Suc k) ds ms
           in (out @ rest, ms)))"

definition driver_send :: "aead \<Rightarrow> send_env \<Rightarrow> driver \<Rightarrow> bool \<times> wire list \<times> driver" where
  "driver_send a v d =
     (let datagrams = en_out (dr_engine d);
          terminated = (en_state (dr_engine d) = Terminated);
          d = d\<lparr>dr_shared := with_engine ((dr_engine d)\<lparr>en_out := []\<rparr>) (dr_shared d)\<rparr>
      in (case send_datagrams a v 0 datagrams (dr_masks d) of
            (out, ms) \<Rightarrow> (\<not> terminated, out, d\<lparr>dr_masks := ms\<rparr>)))"

text \<open>
  One round of \<open>run\<close>: what the \<open>select!\<close> gave, then the timers, then what is queued. The fields are the readings of
  the clock on the way.
\<close>

datatype driver_event = Notified | Received bytes | ReceiveFailed | Slept

record clock =
  ck_input :: nat
  ck_wake_now :: nat
  ck_wake :: nat
  ck_now :: nat
  ck_tick :: nat

definition driver_select :: "aead \<Rightarrow> clock \<Rightarrow> driver_event \<Rightarrow> driver \<Rightarrow> (nat list \<times> driver) option" where
  "driver_select a c ev d =
     (case ev of
        Notified \<Rightarrow>
          Some (driver_wake_data (ck_wake_now c) (ck_wake c) (d\<lparr>dr_shared := (dr_shared d)\<lparr>sh_wake := False\<rparr>\<rparr>))
      | Received datagram \<Rightarrow> driver_datagram a (ck_input c) (ck_wake_now c) (ck_wake c) datagram d
      | ReceiveFailed \<Rightarrow> Some ([], d\<lparr>dr_receiving := False\<rparr>)
      | Slept \<Rightarrow> Some ([], d))"

definition driver_round ::
    "aead \<Rightarrow> clock \<Rightarrow> send_env \<Rightarrow> driver_event \<Rightarrow> driver \<Rightarrow> (nat list \<times> wire list \<times> bool \<times> driver) option" where
  "driver_round a c v ev d =
     (case driver_select a c ev d of
        None \<Rightarrow> None
      | Some (wakers, d) \<Rightarrow>
          (case driver_tick (ck_now c) (ck_tick c) d of
             (wakers', d) \<Rightarrow>
               (case driver_send a v d of (continues, out, d) \<Rightarrow> Some (wakers @ wakers', out, continues, d))))"

datatype run_result = Panicked | Stopped | Running driver

fun driver_run :: "aead \<Rightarrow> (driver_event \<times> clock \<times> send_env) list \<Rightarrow> driver \<Rightarrow> run_result" where
  "driver_run a [] d = Running d"
| "driver_run a ((ev, c, v) # rounds) d =
     (case driver_round a c v ev d of
        None \<Rightarrow> Panicked
      | Some (wakers, out, continues, d) \<Rightarrow> if continues then driver_run a rounds d else Stopped)"

definition deadline :: "driver \<Rightarrow> nat" where
  "deadline d = (if du_running (dr_data d) then min (du_next (dr_data d)) (dr_ping_next d) else dr_ping_next d)"

section \<open>A parked reader\<close>

text \<open>The engine has nothing for a reader, and more may come.\<close>

definition reader_waits :: "engine \<Rightarrow> bool" where
  "reader_waits e \<longleftrightarrow> en_state e \<in> {Active, PeerClosed} \<and> rw_left_over (en_receiving e) = [] \<and>
     \<not> is_data_available (en_receiving e)"

text \<open>An operation leaves the reader waiting or signals it; a signal stays.\<close>

definition signals_reader :: "engine \<Rightarrow> engine \<Rightarrow> bool" where
  "signals_reader e e' \<longleftrightarrow>
     (en_input_ready e \<longrightarrow> en_input_ready e') \<and>
     (reader_waits e \<longrightarrow> reader_waits e' \<or> en_input_ready e')"

lemma signals_reader_refl [simp]: "signals_reader e e"
  by (simp add: signals_reader_def)

lemma signals_reader_trans [trans]: "signals_reader a b \<Longrightarrow> signals_reader b c \<Longrightarrow> signals_reader a c"
  by (auto simp: signals_reader_def)

lemma signals_reader_same:
  "en_input_ready e \<longrightarrow> en_input_ready e' \<Longrightarrow> en_state e' = en_state e \<Longrightarrow> recv_core e' = recv_core e \<Longrightarrow> signals_reader e e'"
  by (auto simp: signals_reader_def reader_waits_def recv_core_def is_data_available_def)

lemma set_state_receiving: "st \<noteq> Terminated \<Longrightarrow> en_receiving (set_state st t e) = en_receiving e"
  by (cases st) (simp_all add: set_state_def Let_def)

lemma set_state_ready: "en_input_ready e \<Longrightarrow> en_input_ready (set_state st t e)"
  by (cases st) (simp_all add: set_state_def Let_def)

lemma signals_reader_close: "signals_reader e (snd (engine_close t e))"
proof -
  have "en_input_ready (snd (engine_close t e))"
    by (cases "en_state e") (simp_all add: engine_close_def Let_def set_state_ready)
  then show ?thesis by (simp add: signals_reader_def)
qed

lemma signals_reader_option: "signals_reader e (handle_option opt t e)"
  by (cases "en_state e")
    (auto simp: signals_reader_def handle_option_def on_peer_closed_def set_state_ready reader_waits_def set_state_receiving)

lemma waiting_state: "\<not> reader_waits e \<Longrightarrow> (en_input_ready e \<longrightarrow> en_input_ready e') \<Longrightarrow> signals_reader e e'"
  by (simp add: signals_reader_def)

lemma signals_reader_flush: "signals_reader e (engine_flush t e)"
proof (cases "en_state e = Terminated")
  case True
  then show ?thesis by (simp add: engine_flush_def)
next
  case False
  let ?c = "if en_state e = Active \<and> t - en_last_incoming_time e \<ge> 30000 then snd (engine_close t e) else e"
  let ?e = "flush_timers t e"
  have late: "signals_reader x (set_state Terminating t x)" if "en_state x \<notin> {Active, PeerClosed}" for x
    using that by (intro waiting_state) (auto simp: reader_waits_def set_state_ready)
  have "signals_reader e ?c" using signals_reader_close by simp
  also have "signals_reader ?c ?e" by (auto simp: flush_timers_def Let_def late)
  finally have 1: "signals_reader e ?e" .
  show ?thesis
  proof (cases "en_state ?e = Terminating")
    case True
    have "signals_reader ?e (engine_flush t e)"
      using True False by (intro waiting_state) (auto simp: reader_waits_def engine_flush_def Let_def set_state_ready ping_def)
    then show ?thesis using 1 by (blast intro: signals_reader_trans)
  next
    case nt: False
    let ?l = "flush_late_timers t ?e"
    have "signals_reader ?e ?l"
    proof -
      let ?m = "if en_state ?e = PeerTerminating \<and> t - en_state_begin_time ?e > 4000 then set_state Terminating t ?e else ?e"
      have "signals_reader ?e ?m" by (simp add: late)
      also have "signals_reader ?m ?l" by (auto simp: flush_late_timers_def Let_def late)
      finally show ?thesis .
    qed
    moreover have "signals_reader ?l (engine_flush t e)"
      using False nt
      by (intro signals_reader_same)
        (simp_all add: engine_flush_def Let_def ping_def flush_data_def flush_data_window_def flush_acks_def recv_core_def split: prod.split)
    ultimately show ?thesis using 1 by (blast intro: signals_reader_trans)
  qed
qed

lemma write_pieces_ready: "write_pieces ps n e = (m, e') \<Longrightarrow> en_input_ready e' = en_input_ready e"
  by (induction ps n e rule: write_pieces.induct) (auto split: if_splits prod.splits)

lemma signals_reader_write: "signals_reader e (snd (engine_write data e))"
  by (rule signals_reader_same)
    (auto simp: engine_write_state recv_core_def engine_write_def Let_def
      dest: write_pieces_receiving write_pieces_ready write_pieces_state split: prod.split)

lemma process_segment_core:
  "rw_left_over (receiving_process_segment d w) = rw_left_over w"
  by (simp add: receiving_process_segment_def Let_def split: option.split)

lemma signals_reader_segment: "signals_reader e (input_segment t s e)"
proof (cases s)
  case (Data ds)
  let ?o = "handle_option (ds_option ds) t e"
  have "signals_reader e ?o" by (rule signals_reader_option)
  also have "signals_reader ?o (input_segment t s e)"
    by (auto simp: Data signals_reader_def reader_waits_def Let_def process_segment_core)
  finally show ?thesis .
next
  case (Ack a)
  let ?o = "handle_option (as_option a) t e"
  have "signals_reader e ?o" by (rule signals_reader_option)
  also have "signals_reader ?o (input_segment t s e)"
    unfolding Ack by (rule signals_reader_same) (simp_all add: Let_def recv_core_def split: prod.split)
  finally show ?thesis .
next
  case (Cmd c)
  let ?o = "handle_option (cs_option c) t e"
  have o: "signals_reader e ?o" by (rule signals_reader_option)
  show ?thesis
  proof (cases "cs_cmd c = CMD_TERMINATE")
    case True
    then show ?thesis by (simp add: Cmd signals_reader_def Let_def)
  next
    case False
    have "signals_reader ?o (input_segment t s e)"
      unfolding Cmd using False by (intro signals_reader_same) (simp_all add: Let_def recv_core_def)
    then show ?thesis using o by (blast intro: signals_reader_trans)
  qed
qed

lemma signals_reader_input: "signals_reader e (engine_input ss t e)"
proof -
  have "signals_reader e (input_segments t ss e)" for e
  proof (induction ss arbitrary: e)
    case (Cons s ss)
    then show ?case using signals_reader_segment [of e t s] by (auto intro: signals_reader_trans)
  qed simp
  moreover have "signals_reader e (e\<lparr>en_last_incoming_time := t\<rparr>)" by (rule signals_reader_same) (simp_all add: recv_core_def)
  ultimately show ?thesis unfolding engine_input_def by (blast intro: signals_reader_trans)
qed

text \<open>
  The sections of stream and driver that hold the lock, in any order and at any instants. The label tells the
  reader's own polls from the others.
\<close>

inductive section_step :: "aead \<Rightarrow> bool \<Rightarrow> driver \<Rightarrow> nat list \<Rightarrow> driver \<Rightarrow> bool" for a where
  reads: "stream_poll_read waker n (dr_shared d) = (r, woken, s) \<Longrightarrow> section_step a True d woken (d\<lparr>dr_shared := s\<rparr>)"
| writes: "stream_poll_write waker data (dr_shared d) = (r, woken, s) \<Longrightarrow> section_step a False d woken (d\<lparr>dr_shared := s\<rparr>)"
| drops: "stream_drop now (dr_shared d) = (woken, s) \<Longrightarrow> section_step a False d woken (d\<lparr>dr_shared := s\<rparr>)"
| receives: "driver_input a t datagram d = Some (woken, wake, d') \<Longrightarrow> section_step a False d woken d'"
| wakes: "driver_wake_data now t d = (woken, d') \<Longrightarrow> section_step a False d woken d'"
| notified: "section_step a False d [] (d\<lparr>dr_shared := (dr_shared d)\<lparr>sh_wake := False\<rparr>\<rparr>)"
| fails: "section_step a False d [] (d\<lparr>dr_receiving := False\<rparr>)"
| ticks: "driver_tick now t d = (woken, d') \<Longrightarrow> section_step a False d woken d'"
| sends: "driver_send a v d = (continues, out, d') \<Longrightarrow> section_step a False d [] d'"

inductive reachable :: "aead \<Rightarrow> driver \<Rightarrow> driver \<Rightarrow> bool" for a d where
  start: "reachable a d d"
| step: "reachable a d d' \<Longrightarrow> section_step a label d' woken d'' \<Longrightarrow> reachable a d d''"

text \<open>A parked reader waits, and no signal is left over.\<close>

definition reader_ok :: "shared \<Rightarrow> bool" where
  "reader_ok s \<longleftrightarrow> \<not> en_input_ready (sh_engine s) \<and> (in_reader (sh_inner s) \<noteq> None \<longrightarrow> reader_waits (sh_engine s))"

text \<open>What a section does for a waker that was parked.\<close>

definition passes :: "shared \<Rightarrow> nat list \<Rightarrow> shared \<Rightarrow> bool" where
  "passes s woken s' \<longleftrightarrow> reader_ok s' \<and>
     (\<forall>w. in_reader (sh_inner s) = Some w \<longrightarrow> in_reader (sh_inner s') = Some w \<or> w \<in> set woken)"

lemma take_wakers_reader:
  assumes "take_wakers i = (wakers, i')"
  shows "in_engine i' = (in_engine i)\<lparr>en_input_ready := False, en_output_ready := False\<rparr>"
    "in_reader i' = (if en_input_ready (in_engine i) then None else in_reader i)"
    "en_input_ready (in_engine i) \<Longrightarrow> in_reader i = Some w \<Longrightarrow> w \<in> set wakers"
  using assms by (auto simp: take_wakers_def Let_def map_filter_simps split: if_splits option.splits)

lemma reader_waits_flags [simp]:
  "reader_waits (e\<lparr>en_input_ready := b\<rparr>) = reader_waits e" "reader_waits (e\<lparr>en_output_ready := b\<rparr>) = reader_waits e"
  "reader_waits (e\<lparr>en_wake_data := b\<rparr>) = reader_waits e" "reader_waits (e\<lparr>en_out := out\<rparr>) = reader_waits e"
  by (simp_all add: reader_waits_def)

lemma signal_passes:
  assumes "reader_ok s" "signals_reader (sh_engine s) e" "take_wakers ((sh_inner s)\<lparr>in_engine := e\<rparr>) = (woken, i)"
    and "sh_inner s' = i\<lparr>in_engine := (in_engine i)\<lparr>en_wake_data := False\<rparr>\<rparr>"
  shows "passes s woken s'"
proof (cases "en_input_ready e")
  case True
  then show ?thesis
    using take_wakers_reader [OF assms(3)] assms(4) by (simp add: passes_def reader_ok_def)
next
  case False
  then have "in_reader i = in_reader (sh_inner s)" "in_engine i = e\<lparr>en_input_ready := False, en_output_ready := False\<rparr>"
    using take_wakers_reader [OF assms(3)] by simp_all
  moreover have "in_reader (sh_inner s) \<noteq> None \<longrightarrow> reader_waits e"
    using assms(1,2) False by (simp add: reader_ok_def signals_reader_def)
  ultimately show ?thesis using assms(4) by (simp add: passes_def reader_ok_def)
qed

lemma signal_with_engine:
  assumes "reader_ok s" "signals_reader (sh_engine s) e"
  shows "signal (with_engine e s) = (woken, s') \<Longrightarrow> passes s woken s'"
    "signal_from_driver (with_engine e s) = (woken, s') \<Longrightarrow> passes s woken s'"
  using signal_passes [OF assms] by (auto simp: signal_def signal_from_driver_def with_engine_def split: prod.splits)

lemma passes_refl: "reader_ok s \<Longrightarrow> passes s [] s"
  by (simp add: passes_def)

lemma engine_write_flags: "en_input_ready (snd (engine_write data e)) = en_input_ready e"
  by (auto simp: engine_write_def Let_def dest: write_pieces_ready split: prod.split)

lemma quiet_passes:
  assumes "reader_ok s" "signals_reader (sh_engine s) e" "\<not> en_input_ready e"
    and "sh_engine s' = e" "in_reader (sh_inner s') = in_reader (sh_inner s)"
  shows "passes s [] s'"
  using assms by (auto simp: passes_def reader_ok_def signals_reader_def)

lemma with_engine_simps [simp]:
  "with_engine e (with_engine e' s) = with_engine e s" "with_engine (sh_engine s) s = s"
  "sh_engine (with_engine e s) = e" "sh_since (with_engine e s) = sh_since s"
  "in_reader (sh_inner (with_engine e s)) = in_reader (sh_inner s)"
  by (simp_all add: with_engine_def)

lemma take_in_order_done: "\<not> is_data_available (take_in_order w)"
proof (induction w rule: take_in_order.induct)
  case (1 w)
  show ?case
  proof (cases "rw_window w (rw_next_number w)")
    case None
    then show ?thesis by (subst take_in_order.simps) (simp add: is_data_available_def domIff)
  next
    case (Some p)
    then show ?thesis using 1 [OF Some] by (subst take_in_order.simps) simp
  qed
qed

lemma read_empty:
  assumes "0 < n" "engine_read n e = (Some [], e')"
  shows "reader_waits e' \<and> en_input_ready e' = en_input_ready e"
proof -
  obtain bs r where r: "receiving_read n (en_receiving e) = (bs, r)" by force
  have st: "en_state e \<in> {Active, PeerClosed}" and bs: "bs = []" and e': "e' = e\<lparr>en_receiving := r\<rparr>"
    using assms(2) r by (cases "en_state e"; auto simp: engine_read_def Let_def split: if_splits)+
  have l: "rw_left_over (en_receiving e) = []" "take n (rw_left_over (take_in_order (en_receiving e))) = []"
    using r bs assms(1) by (auto simp: receiving_read_def Let_def split: if_splits)
  then have "r = (take_in_order (en_receiving e))\<lparr>rw_left_over := []\<rparr>" using r assms(1) by (simp add: receiving_read_def Let_def)
  then show ?thesis
    using st e' take_in_order_done [of "en_receiving e"] by (auto simp: reader_waits_def is_data_available_def)
qed

lemma read_waits:
  assumes "reader_waits e"
  shows "engine_read n e = (Some [], e)"
proof -
  have "take_in_order (en_receiving e) = en_receiving e"
    using assms by (subst take_in_order.simps) (auto simp: reader_waits_def is_data_available_def)
  then show ?thesis using assms by (auto simp: engine_read_def receiving_read_def reader_waits_def Let_def)
qed

lemma engine_read_ready: "en_input_ready (snd (engine_read n e)) = en_input_ready e"
  by (simp add: engine_read_def Let_def split: prod.split)

lemma read_ok:
  assumes "reader_ok s" "stream_poll_read waker n s = (r, woken, s')"
  shows "reader_ok s'"
proof (cases "n = 0")
  case True
  then show ?thesis using assms by (simp add: stream_poll_read_def)
next
  case False
  obtain c e where c: "engine_read n (sh_engine s) = (c, e)" by force
  have i: "en_input_ready e = en_input_ready (sh_engine s)" using engine_read_ready [of n "sh_engine s"] c by simp
  have w: "\<not> reader_waits (sh_engine s)" if "c \<noteq> Some []" using read_waits [of "sh_engine s" n] c that by auto
  show ?thesis
  proof (cases c)
    case None
    then show ?thesis using assms False c i w by (auto simp: stream_poll_read_def reader_ok_def)
  next
    case (Some bs)
    show ?thesis
    proof (cases "bs = []")
      case True
      then have "reader_waits e" using read_empty [of n "sh_engine s" e] c Some False by simp
      then show ?thesis using assms False c i Some True by (auto simp: stream_poll_read_def reader_ok_def Let_def)
    next
      case nonempty: False
      have "signals_reader (sh_engine s) e" using w i Some nonempty by (intro waiting_state) simp_all
      from signal_with_engine(1) [OF assms(1) this] show ?thesis
        using assms(2) False c Some nonempty by (auto simp: stream_poll_read_def passes_def Let_def)
    qed
  qed
qed

lemma write_passes:
  assumes "reader_ok s" "stream_poll_write waker data s = (r, woken, s')"
  shows "passes s woken s'"
proof (cases "data = []")
  case True
  then show ?thesis using assms by (simp add: stream_poll_write_def passes_refl)
next
  case False
  obtain c e where c: "engine_write data (sh_engine s) = (c, e)" by force
  have e: "signals_reader (sh_engine s) e" "\<not> en_input_ready e"
    using signals_reader_write [of "sh_engine s" data] engine_write_flags [of data "sh_engine s"] assms(1) c
    by (simp_all add: reader_ok_def)
  show ?thesis
  proof (cases c)
    case (Inr n)
    then show ?thesis using assms(2) False c signal_with_engine(1) [OF assms(1) e(1)] by (simp add: stream_poll_write_def)
  next
    case (Inl b)
    have "woken = [] \<and> sh_engine s' = e \<and> in_reader (sh_inner s') = in_reader (sh_inner s)"
      using assms(2) False c Inl by (cases b) (auto simp: stream_poll_write_def with_engine_def Let_def)
    then show ?thesis using quiet_passes [OF assms(1) e] by simp
  qed
qed

text \<open>A driver section runs the engine and then signals.\<close>

definition advances :: "driver \<Rightarrow> driver \<Rightarrow> bool" where
  "advances d d' \<longleftrightarrow> (\<exists>e. dr_shared d' = with_engine e (dr_shared d) \<and> signals_reader (dr_engine d) e)"

lemma advances_refl [simp]: "advances d d"
  unfolding advances_def by (intro exI [of _ "dr_engine d"]) simp

lemma advances_trans [trans]: "advances a b \<Longrightarrow> advances b c \<Longrightarrow> advances a c"
  unfolding advances_def by (metis signals_reader_trans with_engine_simps(1,3))

lemma advances_data [simp]:
  "advances d (d'\<lparr>dr_data := u\<rparr>) = advances d d'" "advances d (d'\<lparr>dr_ping_next := p\<rparr>) = advances d d'"
  "advances (d\<lparr>dr_data := u\<rparr>) d' = advances d d'"
  by (simp_all add: advances_def)

lemma advances_flush [simp]: "advances d (dr_flush t d)"
  unfolding advances_def dr_flush_def using signals_reader_flush by (intro exI conjI) auto

lemma advances_tick: "advances d (tick_ping now t (tick_data now t d))"
proof -
  have "advances d (tick_data now t d)" by (simp add: tick_data_def Let_def)
  also have "advances d' (tick_ping now t d')" for d' by (simp add: tick_ping_def Let_def)
  finally show ?thesis .
qed

lemma dr_signal_passes:
  assumes "reader_ok (dr_shared d)" "advances d d'" "dr_signal d' = (woken, d'')"
  shows "passes (dr_shared d) woken (dr_shared d'')"
  using assms signal_with_engine(2) [OF assms(1)] by (auto simp: advances_def dr_signal_def split: prod.splits)

lemma wake_data_passes:
  assumes "reader_ok (dr_shared d)" "driver_wake_data now t d = (woken, d')"
  shows "passes (dr_shared d) woken (dr_shared d')"
proof (cases "du_running (dr_data d) \<or> data_update_terminated (dr_engine d)")
  case True
  then have "driver_wake_data now t d = ([], d)" by (auto simp: driver_wake_data_def)
  then show ?thesis using assms by (simp add: passes_refl)
next
  case False
  let ?r = "data_update_necessary (dr_engine d)"
  let ?d = "d\<lparr>dr_data := (dr_data d)\<lparr>du_running := ?r\<rparr>\<rparr>"
  let ?e = "if ?r then (dr_flush t ?d)\<lparr>dr_data := (dr_data (dr_flush t ?d))\<lparr>du_next := now + du_interval (dr_data (dr_flush t ?d))\<rparr>\<rparr> else ?d"
  have "advances d (dr_flush t (d\<lparr>dr_data := u\<rparr>))" for u
    using advances_flush [of "d\<lparr>dr_data := u\<rparr>" t] by (simp only: advances_data)
  then have "advances d ?e" by simp
  moreover have "dr_signal ?e = (woken, d')"
    using assms(2) False by (cases ?r) (simp_all add: driver_wake_data_def Let_def)
  ultimately show ?thesis by (rule dr_signal_passes [OF assms(1)])
qed

lemma input_passes:
  assumes "reader_ok (dr_shared d)" "driver_input a t datagram d = Some (woken, wake, d')"
  shows "passes (dr_shared d) woken (dr_shared d')"
proof -
  consider "woken = []" "d' = d"
    | ss where "dr_signal (d\<lparr>dr_shared := with_engine ((engine_input ss (dr_elapsed d t) (dr_engine d))\<lparr>en_wake_data := False\<rparr>) (dr_shared d)\<rparr>) = (woken, d')"
    using assms(2) by (auto simp: driver_input_def Let_def split: opened.splits option.splits if_splits prod.splits)
  then show ?thesis
  proof cases
    case 1
    then show ?thesis using passes_refl [OF assms(1)] by simp
  next
    case (2 ss)
    let ?e = "engine_input ss (dr_elapsed d t) (dr_engine d)"
    have "signals_reader ?e (?e\<lparr>en_wake_data := False\<rparr>)" by (rule signals_reader_same) (simp_all add: recv_core_def)
    then have "signals_reader (dr_engine d) (?e\<lparr>en_wake_data := False\<rparr>)" by (rule signals_reader_trans [OF signals_reader_input])
    then have "advances d (d\<lparr>dr_shared := with_engine (?e\<lparr>en_wake_data := False\<rparr>) (dr_shared d)\<rparr>)"
      unfolding advances_def by (intro exI conjI) simp_all
    from dr_signal_passes [OF assms(1) this 2] show ?thesis .
  qed
qed

lemma send_passes:
  assumes "reader_ok (dr_shared d)" "driver_send a v d = (continues, out, d')"
  shows "passes (dr_shared d) [] (dr_shared d')"
proof (rule quiet_passes [OF assms(1)])
  show "signals_reader (dr_engine d) ((dr_engine d)\<lparr>en_out := []\<rparr>)" by (rule signals_reader_same) (simp_all add: recv_core_def)
  show "\<not> en_input_ready ((dr_engine d)\<lparr>en_out := []\<rparr>)" using assms(1) by (simp add: reader_ok_def)
  have "dr_shared d' = with_engine ((dr_engine d)\<lparr>en_out := []\<rparr>) (dr_shared d)"
    using assms(2) by (auto simp: driver_send_def Let_def split: prod.splits)
  then show "sh_engine (dr_shared d') = (dr_engine d)\<lparr>en_out := []\<rparr>"
    "in_reader (sh_inner (dr_shared d')) = in_reader (sh_inner (dr_shared d))" by simp_all
qed

lemma drop_passes:
  assumes "reader_ok s" "stream_drop now s = (woken, s')"
  shows "passes s woken s'"
  using assms signal_with_engine(1) [OF assms(1) signals_reader_close] by (simp add: stream_drop_def)

lemma section_ok:
  assumes "section_step a label d woken d'" "reader_ok (dr_shared d)"
  shows "reader_ok (dr_shared d') \<and> (\<not> label \<longrightarrow> passes (dr_shared d) woken (dr_shared d'))"
  using assms(1)
proof cases
  case (reads waker n r s)
  then show ?thesis using read_ok [OF assms(2)] by simp
next
  case (writes waker data r s)
  then show ?thesis using write_passes [OF assms(2)] by (simp add: passes_def)
next
  case (drops now s)
  then show ?thesis using drop_passes [OF assms(2)] by (simp add: passes_def)
next
  case (receives t datagram wake)
  then show ?thesis using input_passes [OF assms(2)] by (simp add: passes_def)
next
  case (wakes now t)
  then show ?thesis using wake_data_passes [OF assms(2)] by (simp add: passes_def)
next
  case notified
  then show ?thesis using assms(2) by (simp add: passes_def reader_ok_def)
next
  case fails
  then show ?thesis using assms(2) by (simp add: passes_def)
next
  case (ticks now t)
  then show ?thesis using dr_signal_passes [OF assms(2) advances_tick] by (simp add: passes_def driver_tick_def)
next
  case (sends v continues out)
  then show ?thesis using send_passes [OF assms(2)] by (simp add: passes_def)
qed

lemma reachable_ok: "reachable a d d' \<Longrightarrow> reader_ok (dr_shared d) \<Longrightarrow> reader_ok (dr_shared d')"
  by (induction rule: reachable.induct) (use section_ok in blast)+

lemma stream_start_ok: "reader_ok (dr_shared (driver_new (stream_start since conv c) ms))"
  by (simp add: driver_new_def stream_start_def reader_ok_def engine_new_def)

text \<open>
  C11. A reader that the stream parked is never forgotten: in every state that a connection
  reaches, with stream and driver taking turns in any order, a parked reader has nothing to
  read and is not at the end of the stream, so that polling again would only park it again; and
  whatever section comes next, other than a poll of the reader itself, leaves its waker parked or wakes it.
\<close>

theorem kcp_reader_wakes_up:
  assumes "reachable a (driver_new (stream_start since conv c) ms) d" "in_reader (sh_inner (dr_shared d)) = Some waker" "0 < n"
  shows "fst (stream_poll_read waker' n (dr_shared d)) = Pending \<and>
    (\<forall>woken d'. section_step a False d woken d' \<longrightarrow>
      in_reader (sh_inner (dr_shared d')) = Some waker \<or> waker \<in> set woken)"
proof -
  have ok: "reader_ok (dr_shared d)" by (rule reachable_ok [OF assms(1) stream_start_ok])
  then have "reader_waits (dr_engine d)" using assms(2) by (simp add: reader_ok_def)
  then have "fst (stream_poll_read waker' n (dr_shared d)) = Pending"
    using assms(3) by (simp add: stream_poll_read_def read_waits Let_def)
  then show ?thesis using section_ok [OF _ ok] assms(2) by (auto simp: passes_def)
qed

theorem kcp_reader_wakes_up_witness:
  "fst (stream_poll_read 9 4 (snd (snd (stream_poll_read 5 3 (stream_start 0 7 example_config))))) = Pending"
proof -
  let ?d = "driver_new (stream_start 0 7 example_config) \<lparr>mk_inner = [], mk_noise = None, mk_outer = []\<rparr>"
  obtain r woken s where p: "stream_poll_read 5 3 (dr_shared ?d) = (r, woken, s)" by (metis prod_cases3)
  then have "section_step example_aead True ?d woken (?d\<lparr>dr_shared := s\<rparr>)" by (rule reads)
  then have 1: "reachable example_aead ?d (?d\<lparr>dr_shared := s\<rparr>)" by (rule reachable.step [OF reachable.start])
  have "engine_read 3 (engine_new 7 example_config) = (Some [], engine_new 7 example_config)"
    by (rule read_waits) (simp add: reader_waits_def engine_new_def receiving_new_def is_data_available_def)
  then have "in_reader (sh_inner (dr_shared (?d\<lparr>dr_shared := s\<rparr>))) = Some 5"
    using p by (auto simp: driver_new_def stream_start_def stream_poll_read_def with_engine_def Let_def)
  from kcp_reader_wakes_up [OF 1 this, of 4 9] show ?thesis using p by (simp add: driver_new_def)
qed

section \<open>The end of the driver\<close>

text \<open>
  What a section at instants \<open>ts\<close> does to the state of the connection: it moves along the lifecycle, and a state that is
  entered takes one of the instants.
\<close>

definition goes :: "nat set \<Rightarrow> driver \<Rightarrow> driver \<Rightarrow> bool" where
  "goes ts d d' \<longleftrightarrow> sh_since (dr_shared d') = sh_since (dr_shared d) \<and>
     lifecycle\<^sup>*\<^sup>* (en_state (dr_engine d)) (en_state (dr_engine d')) \<and>
     en_state_begin_time (dr_engine d') \<in> insert (en_state_begin_time (dr_engine d)) (dr_elapsed d ` ts) \<and>
     (en_state (dr_engine d') = en_state (dr_engine d) \<longrightarrow> en_state_begin_time (dr_engine d') = en_state_begin_time (dr_engine d))"

lemma goes_refl [simp]: "goes ts d d"
  by (simp add: goes_def)

lemma lifecycle_antisym: "lifecycle\<^sup>*\<^sup>* s s' \<Longrightarrow> lifecycle\<^sup>*\<^sup>* s' s \<Longrightarrow> s = s'"
  using lifecycle_acyclic [of s s'] by (auto dest: rtranclpD)

lemma goes_trans: "goes ts a b \<Longrightarrow> goes ts b c \<Longrightarrow> goes ts a c"
  unfolding goes_def dr_elapsed_def
  using lifecycle_antisym [of "en_state (dr_engine a)" "en_state (dr_engine b)"] by (auto intro: rtranclp_trans)

lemma goes_mono: "goes ts d d' \<Longrightarrow> ts \<subseteq> ts' \<Longrightarrow> goes ts' d d'"
  by (auto simp: goes_def)

lemma goes_engine:
  assumes "moves (dr_elapsed d t) (dr_engine d) e" "dr_shared d' = with_engine e (dr_shared d)"
  shows "goes {t} d d'"
proof -
  have "en_state e \<noteq> en_state (dr_engine d)" if "lifecycle\<^sup>+\<^sup>+ (en_state (dr_engine d)) (en_state e)"
    using lifecycle_acyclic [OF that] by auto
  then show ?thesis using assms by (auto simp: goes_def moves_def tranclp_into_rtranclp)
qed

lemma goes_same:
  assumes "en_state (dr_engine d') = en_state (dr_engine d)" "en_state_begin_time (dr_engine d') = en_state_begin_time (dr_engine d)"
    and "sh_since (dr_shared d') = sh_since (dr_shared d)"
  shows "goes ts d d'"
  using assms by (simp add: goes_def)

lemma goes_fields [simp]:
  "goes ts d (d'\<lparr>dr_data := u\<rparr>) = goes ts d d'" "goes ts d (d'\<lparr>dr_ping_next := p\<rparr>) = goes ts d d'"
  "goes ts d (d'\<lparr>dr_masks := m\<rparr>) = goes ts d d'" "goes ts d (d'\<lparr>dr_receiving := b\<rparr>) = goes ts d d'"
  "goes ts (d\<lparr>dr_data := u\<rparr>) d' = goes ts d d'"
  by (simp_all add: goes_def dr_elapsed_def)

lemma goes_flush [simp]: "goes {t} d (dr_flush t d)"
  by (rule goes_engine [OF engine_flush_moves]) (simp add: dr_flush_def)

lemma take_wakers_engine: "take_wakers i = (w, i') \<Longrightarrow>
  en_state (in_engine i') = en_state (in_engine i) \<and> en_state_begin_time (in_engine i') = en_state_begin_time (in_engine i)"
  by (auto simp: take_wakers_def Let_def split: if_splits)

lemma goes_signal: "dr_signal d = (woken, d') \<Longrightarrow> goes ts d d'"
  by (rule goes_same)
    (auto simp: dr_signal_def signal_from_driver_def dest: take_wakers_engine split: prod.splits)

lemma dr_signal_fields:
  "dr_signal d = (woken, d') \<Longrightarrow> dr_ping_next d' = dr_ping_next d \<and> dr_masks d' = dr_masks d"
  by (auto simp: dr_signal_def split: prod.splits)

lemma dr_flush_fields [simp]: "dr_ping_next (dr_flush t d) = dr_ping_next d" "dr_masks (dr_flush t d) = dr_masks d"
  by (simp_all add: dr_flush_def)

lemma wake_data_goes:
  assumes "driver_wake_data now t d = (woken, d')"
  shows "goes {t} d d' \<and> dr_ping_next d' = dr_ping_next d \<and> dr_masks d' = dr_masks d"
proof (cases "du_running (dr_data d) \<or> data_update_terminated (dr_engine d)")
  case True
  then have "driver_wake_data now t d = ([], d)" by (auto simp: driver_wake_data_def)
  then show ?thesis using assms by simp
next
  case False
  let ?r = "data_update_necessary (dr_engine d)"
  let ?d = "d\<lparr>dr_data := (dr_data d)\<lparr>du_running := ?r\<rparr>\<rparr>"
  let ?e = "if ?r then (dr_flush t ?d)\<lparr>dr_data := (dr_data (dr_flush t ?d))\<lparr>du_next := now + du_interval (dr_data (dr_flush t ?d))\<rparr>\<rparr> else ?d"
  have "goes {t} d (dr_flush t (d\<lparr>dr_data := u\<rparr>))" for u
    using goes_flush [of t "d\<lparr>dr_data := u\<rparr>"] by (simp only: goes_fields)
  then have "goes {t} d ?e" by simp
  moreover have s: "dr_signal ?e = (woken, d')"
    using assms False by (cases ?r) (simp_all add: driver_wake_data_def Let_def)
  ultimately have "goes {t} d d'" by (blast intro: goes_trans goes_signal)
  then show ?thesis using dr_signal_fields [OF s] by (simp split: if_splits)
qed

lemma input_goes:
  assumes "driver_input a t datagram d = Some (woken, wake, d')"
  shows "goes {t} d d' \<and> dr_ping_next d' = dr_ping_next d \<and> dr_masks d' = dr_masks d"
proof -
  consider "d' = d"
    | ss where "dr_signal (d\<lparr>dr_shared := with_engine ((engine_input ss (dr_elapsed d t) (dr_engine d))\<lparr>en_wake_data := False\<rparr>) (dr_shared d)\<rparr>) = (woken, d')"
    using assms by (auto simp: driver_input_def Let_def split: opened.splits option.splits if_splits prod.splits)
  then show ?thesis
  proof cases
    case (2 ss)
    let ?e = "engine_input ss (dr_elapsed d t) (dr_engine d)"
    have "moves (dr_elapsed d t) (dr_engine d) ((dr_engine d)\<lparr>en_last_incoming_time := dr_elapsed d t\<rparr>)" by (rule moves_same) simp_all
    also have "moves (dr_elapsed d t) \<dots> ?e" unfolding engine_input_def by (rule input_segments_moves)
    also have "moves (dr_elapsed d t) ?e (?e\<lparr>en_wake_data := False\<rparr>)" by (rule moves_same) simp_all
    finally have "goes {t} d (d\<lparr>dr_shared := with_engine (?e\<lparr>en_wake_data := False\<rparr>) (dr_shared d)\<rparr>)"
      by (rule goes_engine) simp
    then have "goes {t} d d'" by (rule goes_trans [OF _ goes_signal [OF 2]])
    then show ?thesis using dr_signal_fields [OF 2] by simp
  qed simp
qed

lemma goes_tick_data: "goes {t} d (tick_data now t d)"
  by (simp add: tick_data_def Let_def)

lemma tick_data_fields [simp]: "dr_ping_next (tick_data now t d) = dr_ping_next d" "dr_masks (tick_data now t d) = dr_masks d"
  by (simp_all add: tick_data_def Let_def)

lemma goes_tick_ping: "goes {t} d (tick_ping now t d)"
  by (simp add: tick_ping_def Let_def)

lemma tick_ping_fields:
  "dr_masks (tick_ping now t d) = dr_masks d" "dr_ping_next (tick_ping now t d) \<le> max (dr_ping_next d) (now + PING_INTERVAL)"
  "now \<ge> dr_ping_next d \<Longrightarrow> dr_ping_next (tick_ping now t d) \<le> now + PING_INTERVAL"
  by (auto simp: tick_ping_def Let_def)

lemma send_datagrams_kind: "send_datagrams a v k ds ms = (out, ms') \<Longrightarrow> masks_kind ms ms'"
proof (induction ds arbitrary: k ms out)
  case (Cons datagram ds)
  obtain r m1 where w: "masks_wrap a (se_draws v k) datagram (se_wrap v k) ms = (r, m1)" by force
  have 1: "masks_kind ms m1" using mask_step_kind [of ms a "OpWrap (se_draws v k) datagram (se_wrap v k)"] w by simp
  have t: "masks_kind x y \<Longrightarrow> masks_kind y z \<Longrightarrow> masks_kind x z" for x y z
    unfolding masks_kind_def by (blast intro: same_kinds_trans)
  show ?case
  proof (cases r)
    case None
    then have "send_datagrams a v (Suc k) ds m1 = (out, ms')" using Cons.prems w by simp
    then show ?thesis using Cons.IH 1 t by blast
  next
    case (Some x)
    let ?m2 = "masks_sent (se_reset v k) (se_sent v k) m1"
    obtain rest where "send_datagrams a v (Suc k) ds ?m2 = (rest, ms')"
      using Cons.prems w Some by (auto simp: Let_def split: prod.splits)
    then have "masks_kind ?m2 ms'" by (rule Cons.IH)
    moreover have "masks_kind m1 ?m2" using mask_step_kind [of m1 a "OpSent (se_reset v k) (se_sent v k)"] by simp
    ultimately show ?thesis using 1 t by blast
  qed
qed (simp add: masks_kind_def)

lemma send_goes:
  assumes "driver_send a v d = (continues, out, d')"
  shows "goes ts d d' \<and> dr_ping_next d' = dr_ping_next d \<and> masks_kind (dr_masks d) (dr_masks d') \<and>
    continues = (en_state (dr_engine d') \<noteq> Terminated)"
proof -
  let ?d = "d\<lparr>dr_shared := with_engine ((dr_engine d)\<lparr>en_out := []\<rparr>) (dr_shared d)\<rparr>"
  obtain out' ms where s: "send_datagrams a v 0 (en_out (dr_engine d)) (dr_masks d) = (out', ms)" by force
  have d': "d' = ?d\<lparr>dr_masks := ms\<rparr>" "continues = (en_state (dr_engine d) \<noteq> Terminated)"
    using assms s by (auto simp: driver_send_def Let_def)
  moreover have "goes ts d ?d" by (rule goes_same) simp_all
  ultimately show ?thesis using send_datagrams_kind [OF s] by simp
qed

lemma select_goes:
  assumes "driver_select a c ev d = Some (woken, d')"
  shows "goes {ck_input c, ck_wake c} d d' \<and> dr_ping_next d' = dr_ping_next d \<and> dr_masks d' = dr_masks d"
proof (cases ev)
  case Notified
  let ?d = "d\<lparr>dr_shared := (dr_shared d)\<lparr>sh_wake := False\<rparr>\<rparr>"
  have "driver_wake_data (ck_wake_now c) (ck_wake c) ?d = (woken, d')" using assms Notified by (simp add: driver_select_def)
  note w = wake_data_goes [OF this]
  have "goes {ck_input c, ck_wake c} d ?d" by (rule goes_same) simp_all
  then show ?thesis using w by (auto intro: goes_trans goes_mono)
next
  case (Received datagram)
  then obtain w1 wake d1 where i: "driver_input a (ck_input c) datagram d = Some (w1, wake, d1)"
      "if wake then (\<exists>w2. driver_wake_data (ck_wake_now c) (ck_wake c) d1 = (w2, d')) else d' = d1"
    using assms by (auto simp: driver_select_def driver_datagram_def split: option.splits if_splits prod.splits)
  note g1 = input_goes [OF i(1)]
  have g2: "goes {ck_wake c} d1 d' \<and> dr_ping_next d' = dr_ping_next d1 \<and> dr_masks d' = dr_masks d1"
    using i(2) wake_data_goes by (auto split: if_splits)
  have "goes {ck_input c, ck_wake c} d d1" "goes {ck_input c, ck_wake c} d1 d'"
    using g1 g2 by (auto intro: goes_mono)
  then show ?thesis using g1 g2 by (auto intro: goes_trans)
qed (use assms in \<open>auto simp: driver_select_def\<close>)

text \<open>A round: the event, the timers, and sections that leave the state alone.\<close>

lemma round_goes:
  assumes "driver_round a c v ev d = Some (woken, out, continues, d')"
  obtains d1 where "goes {ck_input c, ck_wake c} d d1" "dr_ping_next d1 = dr_ping_next d"
    "goes {} (tick_ping (ck_now c) (ck_tick c) (tick_data (ck_now c) (ck_tick c) d1)) d'"
    "dr_ping_next d' = dr_ping_next (tick_ping (ck_now c) (ck_tick c) (tick_data (ck_now c) (ck_tick c) d1))"
    "masks_kind (dr_masks d) (dr_masks d')" "continues = (en_state (dr_engine d') \<noteq> Terminated)"
proof -
  obtain w1 d1 where 1: "driver_select a c ev d = Some (w1, d1)"
    using assms by (auto simp: driver_round_def split: option.splits)
  let ?d2 = "tick_ping (ck_now c) (ck_tick c) (tick_data (ck_now c) (ck_tick c) d1)"
  obtain w2 d2 where 2: "dr_signal ?d2 = (w2, d2)" by force
  have 3: "driver_send a v d2 = (continues, out, d')"
    using assms 1 2 by (auto simp: driver_round_def driver_tick_def split: prod.splits)
  have m: "dr_masks ?d2 = dr_masks d1" by (simp add: tick_ping_fields(1))
  show ?thesis
    using that [of d1] select_goes [OF 1] goes_trans [OF goes_signal [OF 2] conjunct1 [OF send_goes [OF 3]]]
      dr_signal_fields [OF 2] send_goes [OF 3, of "{}"] m by simp
qed

lemma select_some:
  assumes "aead_ok a" "\<forall>m \<in> set (tl (mk_inner (dr_masks d))) \<union> set (tl (mk_outer (dr_masks d))). \<not> is_aes m"
  shows "\<exists>woken d'. driver_select a c ev d = Some (woken, d')"
proof -
  have i: "\<exists>w wake d'. driver_input a t datagram d = Some (w, wake, d')" for t datagram
    using masks_open_range [OF assms, of datagram] by (auto simp: driver_input_def Let_def split: prod.split)
  show ?thesis
  proof (cases ev)
    case (Received datagram)
    obtain w wake d1 where "driver_input a (ck_input c) datagram d = Some (w, wake, d1)" using i by blast
    then show ?thesis using Received by (simp add: driver_select_def driver_datagram_def split: prod.split)
  qed (simp_all add: driver_select_def)
qed

lemma round_some:
  assumes "aead_ok a" "\<forall>m \<in> set (tl (mk_inner (dr_masks d))) \<union> set (tl (mk_outer (dr_masks d))). \<not> is_aes m"
  shows "\<exists>woken out continues d'. driver_round a c v ev d = Some (woken, out, continues, d')"
  using select_some [OF assms, of c ev] by (fastforce simp: driver_round_def split: prod.split)

lemma calm_kind:
  assumes "masks_kind ms ms'" "\<forall>m \<in> set (tl (mk_inner ms)) \<union> set (tl (mk_outer ms)). \<not> is_aes m"
  shows "\<forall>m \<in> set (tl (mk_inner ms')) \<union> set (tl (mk_outer ms')). \<not> is_aes m"
proof -
  have k: "same_kind m m' \<Longrightarrow> is_aes m = is_aes m'" for m m' by (cases m; cases m') (simp_all add: same_kind_def)
  have l: "list_all2 same_kind g h \<Longrightarrow> (\<forall>m \<in> set g. \<not> is_aes m) = (\<forall>m \<in> set h. \<not> is_aes m)" for g h
    by (induction rule: list_all2_induct) (auto simp: k)
  have t: "list_all2 same_kind g h \<Longrightarrow> list_all2 same_kind (tl g) (tl h)" for g h
    by (cases g; cases h) simp_all
  show ?thesis using assms l [OF t] unfolding masks_kind_def by (metis Un_iff)
qed

text \<open>
  A phase of the shutdown: the connection is in state \<open>s\<close> since an instant not after \<open>T\<close>, or already past it, and the next
  flush of the ping updater comes at most \<open>PING_INTERVAL\<close> after the state's time is up.
\<close>

definition in_phase :: "kcp_state \<Rightarrow> kcp_state set \<Rightarrow> nat \<Rightarrow> nat \<Rightarrow> nat \<Rightarrow> driver \<Rightarrow> bool" where
  "in_phase s past delay b T d \<longleftrightarrow>
     en_state (dr_engine d) \<in> past \<or>
     en_state (dr_engine d) = s \<and>
     (\<exists>b' \<le> T. b \<le> b' \<and> en_state_begin_time (dr_engine d) = dr_elapsed d b') \<and> dr_ping_next d \<le> T + delay + PING_INTERVAL"

definition phase :: "kcp_state \<Rightarrow> kcp_state set \<Rightarrow> nat \<Rightarrow> bool" where
  "phase s past delay \<longleftrightarrow>
     s \<notin> past \<and> (\<forall>x y. lifecycle\<^sup>*\<^sup>* x y \<longrightarrow> x \<in> past \<longrightarrow> y \<in> past) \<and> (\<forall>y. lifecycle\<^sup>*\<^sup>* s y \<longrightarrow> y \<in> insert s past) \<and>
     (\<forall>e t. en_state e = s \<longrightarrow> of_nat delay < t - en_state_begin_time e \<longrightarrow> en_state (engine_flush t e) \<in> past) \<and>
     Terminated \<in> past \<and> delay < 2 ^ 32"

lemma elapsed_diff:
  assumes "since \<le> b" "b \<le> t" "t - b < 2 ^ 32" "delay < t - b"
  shows "of_nat delay < elapsed since t - elapsed since b"
proof -
  have "unat (elapsed since t - elapsed since b) = (t - since) - (b - since)"
    unfolding elapsed_def using assms(1-3) by (intro diff_forward) linarith+
  then show ?thesis using assms by (simp add: word_less_nat_alt unat_of_nat)
qed

lemma phase_goes:
  assumes "phase s past delay" "in_phase s past delay b T d" "goes ts d d'" "dr_ping_next d' \<le> max (dr_ping_next d) (T + delay + PING_INTERVAL)"
  shows "in_phase s past delay b T d'"
proof (cases "en_state (dr_engine d) \<in> past")
  case True
  then show ?thesis using assms(1,3) unfolding in_phase_def phase_def goes_def by blast
next
  case False
  then have s: "en_state (dr_engine d) = s" using assms(2) by (simp add: in_phase_def)
  show ?thesis
  proof (cases "en_state (dr_engine d') = s")
    case True
    then show ?thesis using assms(2-4) s False by (auto simp: in_phase_def goes_def dr_elapsed_def)
  next
    case False
    then show ?thesis using assms(1,3) s unfolding in_phase_def phase_def goes_def by blast
  qed
qed

lemma phase_tick:
  assumes "phase s past delay" "in_phase s past delay b T d" "sh_since (dr_shared d) \<le> b" "now \<le> t" "t - b < 2 ^ 32" "b \<le> t"
  shows "in_phase s past delay b T (tick_ping now t d)"
    and "T + delay + PING_INTERVAL \<le> now \<Longrightarrow> en_state (dr_engine (tick_ping now t d)) \<in> past"
proof -
  let ?d = "tick_ping now t d"
  have past: "en_state (dr_engine ?d) \<in> past" if "dr_ping_next d \<le> now" "T + delay < t"
  proof (cases "en_state (dr_engine d) \<in> past")
    case True
    then show ?thesis using assms(1) goes_tick_ping [of t d now] unfolding goes_def phase_def by blast
  next
    case False
    then obtain b' where b': "en_state (dr_engine d) = s" "b' \<le> T" "b \<le> b'" "en_state_begin_time (dr_engine d) = dr_elapsed d b'"
      using assms(2) by (auto simp: in_phase_def)
    have "of_nat delay < dr_elapsed d t - en_state_begin_time (dr_engine d)"
      unfolding b'(4) dr_elapsed_def using assms(3,5,6) b'(2,3) that(2) by (intro elapsed_diff) linarith+
    then have "en_state (engine_flush (dr_elapsed d t) (dr_engine d)) \<in> past"
      using assms(1) b'(1) unfolding phase_def by blast
    moreover have "s \<noteq> Terminated" using assms(1) by (auto simp: phase_def)
    ultimately show ?thesis using that(1) b'(1) by (simp add: tick_ping_def dr_flush_def Let_def)
  qed
  show "en_state (dr_engine ?d) \<in> past" if "T + delay + PING_INTERVAL \<le> now"
  proof (cases "en_state (dr_engine d) \<in> past")
    case True
    then show ?thesis using assms(1) goes_tick_ping [of t d now] unfolding goes_def phase_def by blast
  next
    case False
    then have "dr_ping_next d \<le> now" using assms(2) that by (simp add: in_phase_def)
    then show ?thesis using past that assms(4) by (simp add: PING_INTERVAL_def)
  qed
  show "in_phase s past delay b T ?d"
  proof (cases "dr_ping_next d \<le> now \<and> T + delay < t")
    case True
    then show ?thesis using past by (simp add: in_phase_def)
  next
    case False
    then have "dr_ping_next ?d \<le> max (dr_ping_next d) (T + delay + PING_INTERVAL)"
      using tick_ping_fields(3) [of d now t] assms(4) by (cases "dr_ping_next d \<le> now") (auto simp: tick_ping_def)
    then show ?thesis by (rule phase_goes [OF assms(1,2) goes_tick_ping])
  qed
qed

text \<open>The state began, and the ping updater last ran, between \<open>b\<close> and \<open>M\<close>.\<close>

definition timed :: "nat \<Rightarrow> nat \<Rightarrow> driver \<Rightarrow> bool" where
  "timed b M d \<longleftrightarrow> sh_since (dr_shared d) \<le> b \<and> dr_ping_next d \<le> M + PING_INTERVAL \<and>
     (\<exists>b' \<le> M. b \<le> b' \<and> en_state_begin_time (dr_engine d) = dr_elapsed d b')"

definition clock_ok :: "nat \<Rightarrow> nat \<Rightarrow> clock \<Rightarrow> bool" where
  "clock_ok b M c \<longleftrightarrow> {ck_input c, ck_wake c, ck_now c, ck_tick c} \<subseteq> {b..M} \<and> ck_now c \<le> ck_tick c"

lemma timed_goes:
  assumes "timed b M d" "goes ts d d'" "ts \<subseteq> {b..M}" "dr_ping_next d' \<le> M + PING_INTERVAL"
  shows "timed b M d'"
proof -
  have "sh_since (dr_shared d') = sh_since (dr_shared d)"
      "en_state_begin_time (dr_engine d') \<in> insert (en_state_begin_time (dr_engine d)) (dr_elapsed d ` ts)"
    using assms(2) by (auto simp: goes_def)
  then obtain b' where "b' \<in> {b..M}" "en_state_begin_time (dr_engine d') = dr_elapsed d b'"
    using assms(1,3) by (fastforce simp: timed_def)
  moreover have "dr_elapsed d' = dr_elapsed d" using \<open>sh_since (dr_shared d') = _\<close> by (simp add: dr_elapsed_def fun_eq_iff)
  ultimately show ?thesis using assms(1,4) \<open>sh_since (dr_shared d') = _\<close> by (auto simp: timed_def)
qed

lemma timed_mono: "timed b M d \<Longrightarrow> M \<le> M' \<Longrightarrow> timed b M' d"
  unfolding timed_def by (meson add_le_mono1 le_trans)

lemma timed_phase: "timed b M d \<Longrightarrow> en_state (dr_engine d) \<in> insert s past \<Longrightarrow> in_phase s past delay b M d"
  by (auto simp: timed_def in_phase_def)

lemma round_phase:
  assumes "phase s past delay" "in_phase s past delay b T d" "timed b M d" "clock_ok b M c" "M < b + 2 ^ 32"
    and "driver_round a c v ev d = Some (woken, out, continues, d')"
  shows "in_phase s past delay b T d'" "timed b M d'" "continues = (en_state (dr_engine d') \<noteq> Terminated)"
    "T + delay + PING_INTERVAL \<le> ck_now c \<Longrightarrow> en_state (dr_engine d') \<in> past"
proof -
  obtain d1 where 1: "goes {ck_input c, ck_wake c} d d1" "dr_ping_next d1 = dr_ping_next d"
      "goes {} (tick_ping (ck_now c) (ck_tick c) (tick_data (ck_now c) (ck_tick c) d1)) d'"
      "dr_ping_next d' = dr_ping_next (tick_ping (ck_now c) (ck_tick c) (tick_data (ck_now c) (ck_tick c) d1))"
      "continues = (en_state (dr_engine d') \<noteq> Terminated)"
    using round_goes [OF assms(6)] by metis
  let ?d2 = "tick_data (ck_now c) (ck_tick c) d1"
  let ?d3 = "tick_ping (ck_now c) (ck_tick c) ?d2"
  have c: "b \<le> ck_tick c" "ck_tick c - b < 2 ^ 32" "ck_now c \<le> ck_tick c" "ck_now c \<le> M"
    using assms(4,5) by (auto simp: clock_ok_def)
  have p: "in_phase s past delay b T d1" by (rule phase_goes [OF assms(1,2) 1(1)]) (simp add: 1(2))
  have p2: "in_phase s past delay b T ?d2" by (rule phase_goes [OF assms(1) p goes_tick_data]) simp
  have t1: "timed b M d1"
    using assms(4) by (intro timed_goes [OF assms(3) 1(1)]) (use assms(3) 1(2) in \<open>auto simp: clock_ok_def timed_def\<close>)
  then have t2: "timed b M ?d2"
    using assms(4) by (intro timed_goes [OF _ goes_tick_data]) (auto simp: clock_ok_def timed_def)
  then have s2: "sh_since (dr_shared ?d2) \<le> b" by (simp add: timed_def)
  have t3: "timed b M ?d3"
    using t2 c(4) tick_ping_fields(2) [of "ck_now c" "ck_tick c" ?d2] assms(4)
    by (intro timed_goes [OF t2 goes_tick_ping]) (auto simp: clock_ok_def timed_def max_def split: if_splits)
  note p3 = phase_tick [OF assms(1) p2 s2 c(3,2,1)]
  show "in_phase s past delay b T d'" by (rule phase_goes [OF assms(1) p3(1) 1(3)]) (simp add: 1(4))
  show "timed b M d'" by (rule timed_goes [OF t3 1(3)]) (use t3 1(4) in \<open>auto simp: timed_def\<close>)
  show "continues = (en_state (dr_engine d') \<noteq> Terminated)" by (rule 1(5))
  assume "T + delay + PING_INTERVAL \<le> ck_now c"
  then have "en_state (dr_engine ?d3) \<in> past" by (rule p3(2))
  then show "en_state (dr_engine d') \<in> past" using assms(1) 1(3) unfolding goes_def phase_def by blast
qed

lemma run_append:
  "driver_run a (rs @ rs') d = (case driver_run a rs d of Running d' \<Rightarrow> driver_run a rs' d' | Panicked \<Rightarrow> Panicked | Stopped \<Rightarrow> Stopped)"
  by (induction a rs d rule: driver_run.induct) (auto split: option.split)

lemma run_phase:
  assumes "phase s past delay" "M < b + 2 ^ 32" "list_all (\<lambda>(ev, c, v). clock_ok b M c) rs"
    and "in_phase s past delay b T d" "timed b M d" "driver_run a rs d = Running d'"
  shows "in_phase s past delay b T d' \<and> timed b M d'"
  using assms(3-6)
proof (induction rs arbitrary: d)
  case (Cons r rs)
  obtain ev c v where r: "r = (ev, c, v)" by (cases r)
  obtain woken out continues d1 where 1: "driver_round a c v ev d = Some (woken, out, continues, d1)"
      and 2: "driver_run a rs d1 = Running d'"
    using Cons.prems(4) r by (auto split: option.splits if_splits)
  have c: "clock_ok b M c" using Cons.prems(1) r by simp
  note p = round_phase [OF assms(1) Cons.prems(2,3) c assms(2) 1]
  show ?case using Cons.IH [OF _ p(1,2) 2] Cons.prems(1) by simp
qed simp

lemma run_not_panicked:
  assumes "aead_ok a" "\<forall>m \<in> set (tl (mk_inner (dr_masks d))) \<union> set (tl (mk_outer (dr_masks d))). \<not> is_aes m"
  shows "driver_run a rs d \<noteq> Panicked"
  using assms(2)
proof (induction rs arbitrary: d)
  case (Cons r rs)
  obtain ev c v where r: "r = (ev, c, v)" by (cases r)
  obtain woken out continues d1 where 1: "driver_round a c v ev d = Some (woken, out, continues, d1)"
    using round_some [OF assms(1) Cons.prems] by blast
  have "masks_kind (dr_masks d) (dr_masks d1)" using round_goes [OF 1] by metis
  from Cons.IH [OF calm_kind [OF this Cons.prems]] show ?case using r 1 by simp
qed simp

text \<open>A run through one phase, ending with a round when its time is up.\<close>

lemma run_past:
  assumes "phase s past delay" "M < b + 2 ^ 32" "list_all (\<lambda>(ev, c, v). clock_ok b M c) rs" "clock_ok b M c"
    and "in_phase s past delay b T d" "timed b M d" "T + delay + PING_INTERVAL \<le> ck_now c"
    and "driver_run a (rs @ [(ev, c, v)]) d = Running d'"
  shows "en_state (dr_engine d') \<in> past \<and> timed b M d' \<and> en_state (dr_engine d') \<noteq> Terminated"
proof -
  obtain d1 where 1: "driver_run a rs d = Running d1" "driver_run a [(ev, c, v)] d1 = Running d'"
    using assms(8) by (auto simp: run_append split: run_result.splits)
  note p = run_phase [OF assms(1-3,5,6) 1(1)]
  obtain woken out continues where 2: "driver_round a c v ev d1 = Some (woken, out, continues, d')" "continues"
    using 1(2) by (auto split: option.splits if_splits)
  note q = round_phase [OF assms(1) conjunct1 [OF p] conjunct2 [OF p] assms(4,2) 2(1)]
  show ?thesis using q(2,3) q(4) [OF assms(7)] 2(2) by simp
qed

lemma phaseI:
  assumes "s \<notin> past" "Terminated \<in> past" "delay < 2 ^ 32"
    and "\<And>x y. lifecycle\<^sup>*\<^sup>* x y \<Longrightarrow> x \<in> past \<Longrightarrow> y \<in> past" "\<And>y. lifecycle\<^sup>*\<^sup>* s y \<Longrightarrow> y \<in> insert s past"
    and "\<And>e t. en_state e = s \<Longrightarrow> of_nat delay < t - en_state_begin_time e \<Longrightarrow> en_state (engine_flush t e) \<in> past"
  shows "phase s past delay"
  using assms unfolding phase_def by blast

lemma phase_ready: "phase ReadyToClose {Terminating, Terminated} 15000"
proof (rule phaseI)
  show "y \<in> {ReadyToClose, Terminating, Terminated}" if "lifecycle\<^sup>*\<^sup>* ReadyToClose y" for y
    using lifecycle_closing [OF that] by blast
  show "en_state (engine_flush t e) \<in> {Terminating, Terminated}"
    if "en_state e = ReadyToClose" "of_nat 15000 < t - en_state_begin_time e" for e t
    using flush_closing [of e t] that by simp
  show "y \<in> {Terminating, Terminated}" if "lifecycle\<^sup>*\<^sup>* x y" "x \<in> {Terminating, Terminated}" for x y
    using that by (rule lifecycle_terminating)
qed simp_all

lemma phase_terminating: "phase Terminating {Terminated} 8000"
proof (rule phaseI)
  show "y \<in> {Terminating, Terminated}" if "lifecycle\<^sup>*\<^sup>* Terminating y" for y
    using lifecycle_terminating [OF that] by blast
  show "en_state (engine_flush t e) \<in> {Terminated}"
    if "en_state e = Terminating" "of_nat 8000 < t - en_state_begin_time e" for e t
    using flush_terminating [of e t] that by simp
  show "y \<in> {Terminated}" if "lifecycle\<^sup>*\<^sup>* x y" "x \<in> {Terminated}" for x y
    using that lifecycle_end by simp
qed simp_all

lemma stopped_in_phases:
  assumes "aead_ok a" "\<forall>m \<in> set (tl (mk_inner (dr_masks d))) \<union> set (tl (mk_outer (dr_masks d))). \<not> is_aes m"
    and "timed b T d" "en_state (dr_engine d) \<in> {ReadyToClose, Terminating, Terminated}"
    and "list_all (\<lambda>(ev, c, v). clock_ok b (ck_tick c1) c) (rs1 @ [(ev1, c1, v1)])" "T \<le> ck_tick c1"
    and "list_all (\<lambda>(ev, c, v). clock_ok b (ck_tick c2) c) (rs2 @ [(ev2, c2, v2)])" "ck_tick c1 \<le> ck_tick c2"
    and "T + 20000 \<le> ck_now c1" "ck_tick c1 + 13000 \<le> ck_now c2" "ck_tick c2 < b + 2 ^ 32"
  shows "driver_run a (rs1 @ [(ev1, c1, v1)] @ rs2 @ [(ev2, c2, v2)]) d = Stopped"
proof -
  have t: "timed b (ck_tick c1) d" by (rule timed_mono [OF assms(3,6)])
  have p: "in_phase ReadyToClose {Terminating, Terminated} 15000 b T d"
    by (rule timed_phase [OF assms(3)]) (use assms(4) in simp)
  have not: "driver_run a (rs1 @ [(ev1, c1, v1)] @ rs2 @ [(ev2, c2, v2)]) d \<noteq> Running d2" for d2
  proof
    assume "driver_run a (rs1 @ [(ev1, c1, v1)] @ rs2 @ [(ev2, c2, v2)]) d = Running d2"
    then have "driver_run a ((rs1 @ [(ev1, c1, v1)]) @ (rs2 @ [(ev2, c2, v2)])) d = Running d2" by simp
    then obtain d1 where 1: "driver_run a (rs1 @ [(ev1, c1, v1)]) d = Running d1"
        and 2: "driver_run a (rs2 @ [(ev2, c2, v2)]) d1 = Running d2"
      unfolding run_append [of a "rs1 @ [(ev1, c1, v1)]"] by (auto split: run_result.splits)
    have c1: "list_all (\<lambda>(ev, c, v). clock_ok b (ck_tick c1) c) rs1" "clock_ok b (ck_tick c1) c1"
      and c2: "list_all (\<lambda>(ev, c, v). clock_ok b (ck_tick c2) c) rs2" "clock_ok b (ck_tick c2) c2"
      using assms(5,7) by simp_all
    have m: "ck_tick c1 < b + 2 ^ 32" using assms(8,11) by linarith
    have n: "T + 15000 + PING_INTERVAL \<le> ck_now c1" "ck_tick c1 + 8000 + PING_INTERVAL \<le> ck_now c2"
      using assms(9,10) by (simp_all add: PING_INTERVAL_def)
    note r1 = run_past [OF phase_ready m c1 p t n(1) 1]
    have q: "in_phase Terminating {Terminated} 8000 b (ck_tick c1) d1" using r1 by (intro timed_phase) auto
    have u: "timed b (ck_tick c2) d1" using r1 assms(8) by (auto intro: timed_mono)
    from run_past [OF phase_terminating assms(11) c2 q u n(2) 2] show False by auto
  qed
  show ?thesis
    using run_not_panicked [OF assms(1,2)] not by (cases "driver_run a (rs1 @ [(ev1, c1, v1)] @ rs2 @ [(ev2, c2, v2)]) d") auto
qed

lemma drop_timed:
  assumes "timed b T d" "b \<le> T"
  defines "d' \<equiv> d\<lparr>dr_shared := snd (stream_drop T (dr_shared d))\<rparr>"
  shows "timed b T d' \<and> en_state (dr_engine d') \<in> {ReadyToClose, Terminating, Terminated} \<and> dr_masks d' = dr_masks d"
proof -
  let ?e = "snd (engine_close (dr_elapsed d T) (dr_engine d))"
  have st: "en_state (dr_engine d') = en_state ?e \<and> en_state_begin_time (dr_engine d') = en_state_begin_time ?e \<and>
      sh_since (dr_shared d') = sh_since (dr_shared d)"
    by (auto simp: d'_def stream_drop_def signal_def dr_elapsed_def with_engine_def dest: take_wakers_engine split: prod.split)
  have "goes {T} d (d\<lparr>dr_shared := with_engine ?e (dr_shared d)\<rparr>)" by (rule goes_engine [OF engine_close_moves]) simp
  moreover have "goes {T} (d\<lparr>dr_shared := with_engine ?e (dr_shared d)\<rparr>) d'" using st by (intro goes_same) simp_all
  ultimately have "goes {T} d d'" by (rule goes_trans)
  then have "timed b T d'" using assms(1,2) by (intro timed_goes [OF assms(1)]) (auto simp: timed_def d'_def)
  moreover have "en_state ?e \<in> {ReadyToClose, Terminating, Terminated}"
    by (cases "en_state (dr_engine d)") (simp_all add: engine_close_def Let_def)
  ultimately show ?thesis using st by (simp add: d'_def)
qed


definition example_driver :: driver where
  "example_driver = driver_new (stream_start 100 7 example_config) \<lparr>mk_inner = [Original], mk_noise = None, mk_outer = []\<rparr>"

definition clock_at :: "nat \<Rightarrow> clock" where
  "clock_at t = \<lparr>ck_input = t, ck_wake_now = t, ck_wake = t, ck_now = t, ck_tick = t\<rparr>"

definition example_env :: send_env where
  "example_env = \<lparr>se_draws = (\<lambda>k. example_draws), se_reset = (\<lambda>k x y. x), se_wrap = (\<lambda>k. 0), se_sent = (\<lambda>k. 0)\<rparr>"


section \<open>A parked writer\<close>

text \<open>
  The writer has no such guarantee: a command segment can acknowledge the whole sending window, and does not
  signal the writer. Here the window is full and the writer parked; a ping acknowledges both segments, and the
  writer stays parked although a write would be accepted.
\<close>

definition narrow_config :: kcp_config where
  "narrow_config = \<lparr>kc_mtu = 21, kc_tti = 50, kc_uplink_capacity = 5, kc_downlink_capacity = 20,
     kc_cwnd_multiplier = 1, kc_max_sending_window = 21\<rparr>"

definition full_stream :: shared where
  "full_stream = snd (snd (stream_poll_write 5 [7] (snd (snd (stream_poll_write 5 [1, 2, 3, 4, 5, 6] (stream_start 0 7 narrow_config))))))"

definition pinged :: "(nat list \<times> bool \<times> driver) option" where
  "pinged = driver_input example_aead 40 ([0, 7, 3, 0] @ [0, 0, 0, 0] @ [0, 0, 0, 2] @ [0, 0, 0, 100])
     (driver_new full_stream \<lparr>mk_inner = [], mk_noise = None, mk_outer = []\<rparr>)"

lemma writer_stays_parked:
  "map_option (\<lambda>(woken, wake, d). (woken, in_writer (sh_inner (dr_shared d)), fst (engine_write [7] (dr_engine d)))) pinged =
     Some ([], Some 5, Inr 1)"
  by code_simp

lemma narrow_config_ok: "engine_config narrow_config = Inr narrow_config"
  by (simp add: engine_config_def narrow_config_def)

end
