(* ===== verification/Xr_FakeIp.thy ===== *)
theory Xr_FakeIp
  imports Xr_IpSet Xr_Domain "HOL-Library.AList"
begin

text \<open>
  The synthetic addresses of the fake DNS, \<open>xray-core-rs/src/fake_dns.rs\<close>: a bounded pool that
  leases IPv4 addresses to names. The mapper with its slots and three indices implements a table of
  leases; an address that was handed out stays with its name for the advertised time.
\<close>

section \<open>The mapper\<close>

datatype query_strategy = UseIp | UseIpv4 | UseIpv6

text \<open>The configuration: \<open>ipv4_pool\<close> is a network and its prefix length.\<close>

record fake_ip_config =
  fc_enabled :: bool
  fc_network :: ip_addr
  fc_prefix :: u8
  fc_pool_size :: u32
  fc_ttl :: u32

record fake_ip_entry =
  fe_domain :: bytes
  fe_ip :: u32
  fe_reusable_after :: nat

text \<open>
  Hash maps are association lists with distinct keys, the ordered set of leases is a sorted list.
  Offsets (\<open>u64\<close>) never exceed \<open>2 ^ 32\<close> and are \<open>nat\<close>; instants are counted in nanoseconds.
\<close>

record fake_ip_mapper =
  fm_query_strategy :: query_strategy
  fm_route_probe :: bool
  fm_ttl :: u32
  fm_network_base :: u32
  fm_address_count :: nat
  fm_first_offset :: nat
  fm_allocation_span :: nat
  fm_max_mappings :: nat
  fm_reserved :: "u32 list"
  fm_next_offset :: nat
  fm_entries :: "fake_ip_entry option list"
  fm_lease_index :: "(nat \<times> nat) list"
  fm_by_domain :: "(bytes \<times> nat) list"
  fm_by_ipv4 :: "(u32 \<times> nat) list"

datatype fake_ip_lookup = Mapped bytes | InPoolUnmapped | Outside

text \<open>\<open>u32::from(ip).checked_sub(network_base)\<close>\<close>

definition pool_offset :: "u32 \<Rightarrow> u32 \<Rightarrow> nat option" where
  "pool_offset base ip = (if base \<le> ip then Some (unat (ip - base)) else None)"

definition from_config_with_start :: "fake_ip_config \<Rightarrow> query_strategy \<Rightarrow> u32 list \<Rightarrow> nat \<Rightarrow> fake_ip_mapper option" where
  "from_config_with_start c strategy reserved start =
     (if \<not> fc_enabled c \<or> fc_ttl c = 0 then None
      else (case fc_network c of
          V6 _ \<Rightarrow> None
        | V4 network \<Rightarrow>
            if fc_prefix c > 32 then None
            else
              let host = 32 - unat (fc_prefix c);
                  address_count = 2 ^ host;
                  first_offset = (if address_count > 2 then 1 else 0);
                  allocation_span = (if address_count > 2 then address_count - 2 else address_count);
                  netmask = (if fc_prefix c = 0 then 0 else push_bit host (- 1));
                  network_base = network AND netmask;
                  reserved = remdups (sort reserved);
                  reserved_count = length (filter (\<lambda>ip. case pool_offset network_base ip of
                    None \<Rightarrow> False | Some offset \<Rightarrow> first_offset \<le> offset \<and> offset < first_offset + allocation_span) reserved);
                  available = allocation_span - reserved_count
              in if allocation_span = 0 then None
                 else if fc_pool_size c = 0 \<or> unat (fc_pool_size c) > available then None
                 else Some \<lparr>fm_query_strategy = strategy, fm_route_probe = False, fm_ttl = fc_ttl c,
                        fm_network_base = network_base, fm_address_count = address_count, fm_first_offset = first_offset,
                        fm_allocation_span = allocation_span, fm_max_mappings = unat (fc_pool_size c), fm_reserved = reserved,
                        fm_next_offset = start mod allocation_span, fm_entries = [], fm_lease_index = [],
                        fm_by_domain = [], fm_by_ipv4 = []\<rparr>))"

definition with_route_probe :: "fake_ip_mapper \<Rightarrow> fake_ip_mapper" where
  "with_route_probe m = m\<lparr>fm_route_probe := True\<rparr>"

text \<open>\<open>routes\<close> is what the probe reports for IPv4 and IPv6.\<close>

definition fake_answers :: "bool \<times> bool \<Rightarrow> fake_ip_mapper \<Rightarrow> bool \<Rightarrow> bool" where
  "fake_answers routes m ipv6 \<longleftrightarrow>
     (case fm_query_strategy m of UseIp \<Rightarrow> True | UseIpv4 \<Rightarrow> \<not> ipv6 | UseIpv6 \<Rightarrow> ipv6) \<and>
     (\<not> fm_route_probe m \<or> (if ipv6 then snd routes else fst routes))"

definition normalize_dns_domain :: "bytes \<Rightarrow> bytes option" where
  "normalize_dns_domain domain =
     (let domain = to_ascii_lowercase (trim_end_dots domain) in if domain \<noteq> [] then Some domain else None)"

section \<open>Allocation\<close>

text \<open>\<open>BTreeSet\<close>: insertion, with whether the element is new, and removal.\<close>

definition lease_less :: "nat \<times> nat \<Rightarrow> nat \<times> nat \<Rightarrow> bool" where
  "lease_less x y \<longleftrightarrow> fst x < fst y \<or> fst x = fst y \<and> snd x < snd y"

fun lease_insert :: "nat \<times> nat \<Rightarrow> (nat \<times> nat) list \<Rightarrow> (nat \<times> nat) list" where
  "lease_insert x [] = [x]"
| "lease_insert x (y # ys) =
     (if x = y then y # ys else if lease_less x y then x # y # ys else y # lease_insert x ys)"

definition lease_remove :: "nat \<times> nat \<Rightarrow> (nat \<times> nat) list \<Rightarrow> (nat \<times> nat) list" where
  "lease_remove x xs = remove1 x xs"

text \<open>\<open>entries.get_mut(slot)?.as_mut()?\<close>\<close>

definition entry_at :: "fake_ip_mapper \<Rightarrow> nat \<Rightarrow> fake_ip_entry option" where
  "entry_at m slot = Option.bind (nth_get (fm_entries m) slot) id"

fun next_available :: "nat \<Rightarrow> fake_ip_mapper \<Rightarrow> u32 option \<times> fake_ip_mapper" where
  "next_available 0 m = (None, m)"
| "next_available (Suc tries) m =
     (let offset = fm_first_offset m + (fm_next_offset m mod fm_allocation_span m);
          m = m\<lparr>fm_next_offset := (fm_next_offset m + 1) mod fm_allocation_span m\<rparr>
      in if offset \<ge> 2 ^ 32 \<or> unat (fm_network_base m) + offset \<ge> 2 ^ 32 then (None, m)
         else
           let ip = fm_network_base m + of_nat offset
           in if ip \<in> set (fm_reserved m) then next_available tries m
              else if map_of (fm_by_ipv4 m) ip = None then (Some ip, m)
              else next_available tries m)"

definition next_available_ipv4 :: "fake_ip_mapper \<Rightarrow> u32 option \<times> fake_ip_mapper" where
  "next_available_ipv4 m = next_available (fm_allocation_span m) m"

definition insert_mapping :: "nat \<Rightarrow> bytes \<Rightarrow> u32 \<Rightarrow> nat \<Rightarrow> fake_ip_mapper \<Rightarrow> unit option \<times> fake_ip_mapper" where
  "insert_mapping slot domain ip reusable_after m =
     (let entry = \<lparr>fe_domain = domain, fe_ip = ip, fe_reusable_after = reusable_after\<rparr>
      in if slot > length (fm_entries m) then (None, m)
         else
           let m = m\<lparr>fm_entries := (if slot = length (fm_entries m) then fm_entries m @ [Some entry]
                                    else (fm_entries m)[slot := Some entry]),
                     fm_by_domain := AList.update domain slot (fm_by_domain m),
                     fm_by_ipv4 := AList.update ip slot (fm_by_ipv4 m)\<rparr>;
               fresh = (reusable_after, slot) \<notin> set (fm_lease_index m)
           in (if fresh then Some () else None,
               m\<lparr>fm_lease_index := lease_insert (reusable_after, slot) (fm_lease_index m)\<rparr>))"

definition remove_earliest_expired :: "nat \<Rightarrow> fake_ip_mapper \<Rightarrow> (nat \<times> u32) option \<times> fake_ip_mapper" where
  "remove_earliest_expired now m =
     (case fm_lease_index m of
        [] \<Rightarrow> (None, m)
      | (reusable_after, slot) # _ \<Rightarrow>
          if reusable_after > now then (None, m)
          else
            let m = m\<lparr>fm_lease_index := lease_remove (reusable_after, slot) (fm_lease_index m)\<rparr>
            in (case entry_at m slot of
                  None \<Rightarrow> (None, m)
                | Some entry \<Rightarrow>
                    (Some (slot, fe_ip entry),
                     m\<lparr>fm_entries := (fm_entries m)[slot := None],
                       fm_by_domain := AList.delete (fe_domain entry) (fm_by_domain m),
                       fm_by_ipv4 := AList.delete (fe_ip entry) (fm_by_ipv4 m)\<rparr>)))"

text \<open>\<open>Duration::from_secs(self.ttl)\<close>\<close>

definition ttl_nanos :: "fake_ip_mapper \<Rightarrow> nat" where
  "ttl_nanos m = 1000000000 * unat (fm_ttl m)"

text \<open>\<open>limit\<close> is the last instant that \<open>Instant::checked_add\<close> can represent.\<close>

definition allocate_ipv4_at :: "nat \<Rightarrow> bytes \<Rightarrow> nat \<Rightarrow> fake_ip_mapper \<Rightarrow> u32 option \<times> fake_ip_mapper" where
  "allocate_ipv4_at limit domain now m =
     (case normalize_dns_domain domain of
        None \<Rightarrow> (None, m)
      | Some domain \<Rightarrow>
          let reusable_after = now + ttl_nanos m
          in if reusable_after > limit then (None, m)
             else (case map_of (fm_by_domain m) domain of
                 Some slot \<Rightarrow>
                   (case entry_at m slot of
                      None \<Rightarrow> (None, m)
                    | Some entry \<Rightarrow>
                        (Some (fe_ip entry),
                         m\<lparr>fm_entries := (fm_entries m)[slot := Some (entry\<lparr>fe_reusable_after := reusable_after\<rparr>)],
                           fm_lease_index := lease_insert (reusable_after, slot)
                             (lease_remove (fe_reusable_after entry, slot) (fm_lease_index m))\<rparr>))
               | None \<Rightarrow>
                   if length (fm_by_domain m) \<ge> fm_max_mappings m then
                     (case remove_earliest_expired now m of
                        (None, m) \<Rightarrow> (None, m)
                      | (Some (slot, ip), m) \<Rightarrow>
                          (case insert_mapping slot domain ip reusable_after m of
                             (None, m) \<Rightarrow> (None, m)
                           | (Some _, m) \<Rightarrow> (Some ip, m)))
                   else
                     (let slot = length (fm_entries m)
                      in (case next_available_ipv4 m of
                            (None, m) \<Rightarrow> (None, m)
                          | (Some ip, m) \<Rightarrow>
                              (case insert_mapping slot domain ip reusable_after m of
                                 (None, m) \<Rightarrow> (None, m)
                               | (Some _, m) \<Rightarrow> (Some ip, m))))))"

definition domain_for_ipv4 :: "fake_ip_mapper \<Rightarrow> u32 \<Rightarrow> bytes option" where
  "domain_for_ipv4 m ip = Option.bind (map_of (fm_by_ipv4 m) ip) (\<lambda>slot. map_option fe_domain (entry_at m slot))"

definition contains_ipv4 :: "fake_ip_mapper \<Rightarrow> u32 \<Rightarrow> bool" where
  "contains_ipv4 m ip = (case pool_offset (fm_network_base m) ip of None \<Rightarrow> False | Some offset \<Rightarrow> offset < fm_address_count m)"

definition lookup_ipv4 :: "fake_ip_mapper \<Rightarrow> u32 \<Rightarrow> fake_ip_lookup" where
  "lookup_ipv4 m ip =
     (case domain_for_ipv4 m ip of
        Some domain \<Rightarrow> Mapped domain
      | None \<Rightarrow> if contains_ipv4 m ip then InPoolUnmapped else Outside)"


section \<open>The table of leases\<close>

text \<open>What the mapper promises: a table from names to an address and the end of its lease.\<close>

type_synonym lease_table = "bytes \<rightharpoonup> u32 \<times> nat"

inductive lease_step ::
    "u32 set \<Rightarrow> nat \<Rightarrow> bytes \<Rightarrow> nat \<Rightarrow> nat \<Rightarrow> lease_table \<Rightarrow> u32 option \<Rightarrow> lease_table \<Rightarrow> bool"
  for pool capacity d now till where
  renew: "L d = Some (ip, t) \<Longrightarrow>
    lease_step pool capacity d now till L (Some ip) (L(d \<mapsto> (ip, till)))"
| fresh: "L d = None \<Longrightarrow> card (dom L) < capacity \<Longrightarrow> ip \<in> pool \<Longrightarrow> ip \<notin> fst ` ran L \<Longrightarrow>
    lease_step pool capacity d now till L (Some ip) (L(d \<mapsto> (ip, till)))"
| reuse: "L d = None \<Longrightarrow> capacity \<le> card (dom L) \<Longrightarrow> L d' = Some (ip, t) \<Longrightarrow> t \<le> now \<Longrightarrow>
    \<forall>l \<in> ran L. t \<le> snd l \<Longrightarrow>
    lease_step pool capacity d now till L (Some ip) ((L(d' := None))(d \<mapsto> (ip, till)))"
| full: "L d = None \<Longrightarrow> capacity \<le> card (dom L) \<Longrightarrow> \<forall>l \<in> ran L. now < snd l \<Longrightarrow>
    lease_step pool capacity d now till L None L"

definition leases :: "fake_ip_mapper \<Rightarrow> lease_table" where
  "leases m d = Option.bind (map_of (fm_by_domain m) d)
     (\<lambda>slot. map_option (\<lambda>e. (fe_ip e, fe_reusable_after e)) (entry_at m slot))"

definition pool_ip :: "fake_ip_mapper \<Rightarrow> nat \<Rightarrow> u32" where
  "pool_ip m k = fm_network_base m + of_nat (fm_first_offset m + k)"

definition fake_pool :: "fake_ip_mapper \<Rightarrow> u32 set" where
  "fake_pool m = pool_ip m ` {..<fm_allocation_span m} - set (fm_reserved m)"

text \<open>The slots and the three indices describe the same entries.\<close>

definition index_ok :: "fake_ip_mapper \<Rightarrow> bool" where
  "index_ok m \<longleftrightarrow>
     distinct (map fst (fm_by_domain m)) \<and> distinct (map fst (fm_by_ipv4 m)) \<and> sorted_wrt lease_less (fm_lease_index m) \<and>
     (\<forall>d s. map_of (fm_by_domain m) d = Some s \<longleftrightarrow> (\<exists>e. entry_at m s = Some e \<and> fe_domain e = d)) \<and>
     (\<forall>ip s. map_of (fm_by_ipv4 m) ip = Some s \<longleftrightarrow> (\<exists>e. entry_at m s = Some e \<and> fe_ip e = ip)) \<and>
     (\<forall>t s. (t, s) \<in> set (fm_lease_index m) \<longleftrightarrow> (\<exists>e. entry_at m s = Some e \<and> fe_reusable_after e = t))"

definition pool_ok :: "fake_ip_mapper \<Rightarrow> bool" where
  "pool_ok m \<longleftrightarrow>
     0 < fm_allocation_span m \<and> unat (fm_network_base m) + fm_first_offset m + fm_allocation_span m \<le> 2 ^ 32 \<and>
     fm_first_offset m + fm_allocation_span m \<le> fm_address_count m \<and>
     0 < fm_max_mappings m \<and> fm_max_mappings m \<le> card (fake_pool m) \<and> fm_next_offset m < fm_allocation_span m"

definition fake_ip_ok :: "fake_ip_mapper \<Rightarrow> bool" where
  "fake_ip_ok m \<longleftrightarrow> index_ok m \<and> pool_ok m \<and> None \<notin> set (fm_entries m) \<and>
     length (fm_entries m) \<le> fm_max_mappings m \<and>
     (\<forall>s e. entry_at m s = Some e \<longrightarrow> fe_ip e \<in> fake_pool m)"

subsection \<open>The ordered set\<close>

lemma lease_insert_set [simp]: "set (lease_insert x xs) = insert x (set xs)"
  by (induction xs) auto

lemma lease_less_trans: "lease_less x y \<Longrightarrow> lease_less y z \<Longrightarrow> lease_less x z"
  by (auto simp: lease_less_def)

lemma lease_less_linear: "lease_less x y \<or> x = y \<or> lease_less y x"
  by (cases x; cases y) (auto simp: lease_less_def)

lemma lease_insert_sorted: "sorted_wrt lease_less xs \<Longrightarrow> sorted_wrt lease_less (lease_insert x xs)"
proof (induction xs)
  case (Cons y ys)
  then show ?case
    using lease_less_linear [of x y] by (auto intro: lease_less_trans)
qed simp

lemma lease_sorted_distinct: "sorted_wrt lease_less xs \<Longrightarrow> distinct xs"
  by (induction xs) (auto simp: lease_less_def)

lemma lease_remove_set: "sorted_wrt lease_less xs \<Longrightarrow> set (lease_remove x xs) = set xs - {x}"
  by (simp add: lease_remove_def lease_sorted_distinct)

lemma lease_remove_sorted: "sorted_wrt lease_less xs \<Longrightarrow> sorted_wrt lease_less (lease_remove x xs)"
proof (induction xs)
  case (Cons y ys)
  then show ?case by (auto simp: lease_remove_def dest: set_mp [OF set_remove1_subset])
qed (simp add: lease_remove_def)

subsection \<open>Slots\<close>

lemma entry_at_eq: "entry_at m s = (if s < length (fm_entries m) then fm_entries m ! s else None)"
  by (simp add: entry_at_def nth_get_def)

lemma index_domain: "index_ok m \<Longrightarrow> map_of (fm_by_domain m) d = Some s \<longleftrightarrow> (\<exists>e. entry_at m s = Some e \<and> fe_domain e = d)"
  by (simp add: index_ok_def)

lemma index_ipv4: "index_ok m \<Longrightarrow> map_of (fm_by_ipv4 m) ip = Some s \<longleftrightarrow> (\<exists>e. entry_at m s = Some e \<and> fe_ip e = ip)"
  by (simp add: index_ok_def)

lemma index_lease: "index_ok m \<Longrightarrow> (t, s) \<in> set (fm_lease_index m) \<longleftrightarrow> (\<exists>e. entry_at m s = Some e \<and> fe_reusable_after e = t)"
  by (simp add: index_ok_def)

lemma same_domain:
  assumes "index_ok m" "entry_at m s = Some e" "entry_at m s' = Some e'" "fe_domain e = fe_domain e'"
  shows "s = s'"
  using index_domain [OF assms(1), of "fe_domain e"] assms by (metis option.inject)

lemma same_ipv4:
  assumes "index_ok m" "entry_at m s = Some e" "entry_at m s' = Some e'" "fe_ip e = fe_ip e'"
  shows "s = s'"
  using index_ipv4 [OF assms(1), of "fe_ip e"] assms by (metis option.inject)

lemma leases_iff:
  assumes "index_ok m"
  shows "leases m d = Some (ip, t) \<longleftrightarrow>
    (\<exists>s e. entry_at m s = Some e \<and> fe_domain e = d \<and> fe_ip e = ip \<and> fe_reusable_after e = t)"
  using index_domain [OF assms] by (fastforce simp: leases_def bind_eq_Some_conv)


lemma option_eqI: "(\<And>x. a = Some x \<longleftrightarrow> b = Some x) \<Longrightarrow> a = b"
  by (metis option.exhaust)

lemma leases_put:
  assumes m: "index_ok m" and m': "index_ok m'" and at: "entry_at m' = (entry_at m)(s \<mapsto> e)"
    and slot: "\<And>e0. entry_at m s = Some e0 \<Longrightarrow> fe_domain e0 = fe_domain e"
  shows "leases m' = (leases m)(fe_domain e \<mapsto> (fe_ip e, fe_reusable_after e))"
proof (rule ext, rule option_eqI)
  fix d and x :: "u32 \<times> nat"
  obtain ip t where x: "x = (ip, t)" by (cases x)
  have own: "entry_at m' s = Some e" by (simp add: at)
  have other: "entry_at m' s' = entry_at m s'" if "s' \<noteq> s" for s' using that by (simp add: at)
  show "leases m' d = Some x \<longleftrightarrow> ((leases m)(fe_domain e \<mapsto> (fe_ip e, fe_reusable_after e))) d = Some x"
  proof (cases "d = fe_domain e")
    case True
    then show ?thesis
      using same_domain [OF m' _ own] own unfolding x leases_iff [OF m'] by (auto simp: leases_iff [OF m'] x)
  next
    case False
    have "(\<exists>s' e'. entry_at m' s' = Some e' \<and> fe_domain e' = d \<and> P e') \<longleftrightarrow>
        (\<exists>s' e'. entry_at m s' = Some e' \<and> fe_domain e' = d \<and> P e')" for P
      using False own other slot by (metis option.inject)
    from this [of "\<lambda>e'. fe_ip e' = ip \<and> fe_reusable_after e' = t"] show ?thesis
      using False by (simp add: x leases_iff [OF m'] leases_iff [OF m])
  qed
qed

lemma leases_clear:
  assumes m: "index_ok m" and m': "index_ok m'" and at: "entry_at m' = (entry_at m)(s := None)"
    and own: "entry_at m s = Some e"
  shows "leases m' = (leases m)(fe_domain e := None)"
proof (rule ext, rule option_eqI)
  fix d and x :: "u32 \<times> nat"
  obtain ip t where x: "x = (ip, t)" by (cases x)
  have other: "entry_at m' s' = Some e' \<longleftrightarrow> s' \<noteq> s \<and> entry_at m s' = Some e'" for s' e' by (simp add: at)
  have "(\<exists>s' e'. entry_at m' s' = Some e' \<and> fe_domain e' = d \<and> P e') \<longleftrightarrow>
      d \<noteq> fe_domain e \<and> (\<exists>s' e'. entry_at m s' = Some e' \<and> fe_domain e' = d \<and> P e')" for P
    unfolding other using own same_domain [OF m] by (metis option.inject)
  from this [of "\<lambda>e'. fe_ip e' = ip \<and> fe_reusable_after e' = t"]
  show "leases m' d = Some x \<longleftrightarrow> ((leases m)(fe_domain e := None)) d = Some x"
    by (simp add: x leases_iff [OF m'] leases_iff [OF m])
qed

subsection \<open>The three updates of the indices\<close>

lemma map_of_update [simp]: "map_of (AList.update k v xs) = (map_of xs)(k \<mapsto> v)"
  by (rule update_conv')

lemma map_of_delete [simp]: "map_of (AList.delete k xs) = (map_of xs)(k := None)"
  by (rule delete_conv')

text \<open>\<open>same_pool m m'\<close>: the configuration of the pool is unchanged.\<close>

definition same_pool :: "fake_ip_mapper \<Rightarrow> fake_ip_mapper \<Rightarrow> bool" where
  "same_pool m m' \<longleftrightarrow> fm_network_base m' = fm_network_base m \<and> fm_address_count m' = fm_address_count m \<and>
     fm_first_offset m' = fm_first_offset m \<and> fm_allocation_span m' = fm_allocation_span m \<and>
     fm_max_mappings m' = fm_max_mappings m \<and> fm_reserved m' = fm_reserved m \<and> fm_ttl m' = fm_ttl m"

lemma same_pool_refl [simp]: "same_pool m m"
  by (simp add: same_pool_def)

lemma same_pool_trans: "same_pool a b \<Longrightarrow> same_pool b c \<Longrightarrow> same_pool a c"
  by (simp add: same_pool_def)

lemma fake_pool_same: "same_pool m m' \<Longrightarrow> fake_pool m' = fake_pool m"
proof -
  assume p: "same_pool m m'"
  then have "pool_ip m' = pool_ip m" by (auto simp: same_pool_def pool_ip_def)
  then show ?thesis using p by (simp add: same_pool_def fake_pool_def)
qed

lemma pool_ok_same: "same_pool m m' \<Longrightarrow> fm_next_offset m' < fm_allocation_span m' \<Longrightarrow> pool_ok m \<Longrightarrow> pool_ok m'"
  using fake_pool_same [of m m'] by (simp add: pool_ok_def) (simp add: same_pool_def)

lemma insert_mapping_put:
  assumes m: "index_ok m" and d: "map_of (fm_by_domain m) d = None" and ip: "map_of (fm_by_ipv4 m) ip = None"
    and slot: "slot \<le> length (fm_entries m)" "entry_at m slot = None"
    and ins: "insert_mapping slot d ip t m = (r, m')"
  shows "r = Some ()" and "index_ok m'" and
    "entry_at m' = (entry_at m)(slot \<mapsto> \<lparr>fe_domain = d, fe_ip = ip, fe_reusable_after = t\<rparr>)" and
    "same_pool m m'" and "fm_next_offset m' = fm_next_offset m" and
    "length (fm_entries m') = max (Suc slot) (length (fm_entries m))"
    and "set (fm_entries m') \<subseteq> insert (Some \<lparr>fe_domain = d, fe_ip = ip, fe_reusable_after = t\<rparr>) (set (fm_entries m))"
proof -
  let ?e = "\<lparr>fe_domain = d, fe_ip = ip, fe_reusable_after = t\<rparr>"
  have new: "(t, slot) \<notin> set (fm_lease_index m)" using index_lease [OF m] slot(2) by simp
  have nd: "entry_at m s = Some e \<Longrightarrow> fe_domain e \<noteq> d" for s e using index_domain [OF m, of d s] d by auto
  have ni: "entry_at m s = Some e \<Longrightarrow> fe_ip e \<noteq> ip" for s e using index_ipv4 [OF m, of ip s] ip by auto
  have m': "m' = m\<lparr>fm_entries := (if slot = length (fm_entries m) then fm_entries m @ [Some ?e] else (fm_entries m)[slot := Some ?e]),
      fm_by_domain := AList.update d slot (fm_by_domain m), fm_by_ipv4 := AList.update ip slot (fm_by_ipv4 m),
      fm_lease_index := lease_insert (t, slot) (fm_lease_index m)\<rparr>" and r: "r = Some ()"
    using ins slot(1) new by (auto simp: insert_mapping_def Let_def)
  show "r = Some ()" by (rule r)
  show at: "entry_at m' = (entry_at m)(slot \<mapsto> ?e)"
    using slot(1) by (auto simp: m' entry_at_eq fun_eq_iff nth_append nth_list_update)
  show "index_ok m'"
    unfolding index_ok_def at using m slot(2)
    by (auto simp: m' distinct_update lease_insert_sorted index_ok_def nd ni)
  show "same_pool m m'" "fm_next_offset m' = fm_next_offset m" by (simp_all add: m' same_pool_def)
  show "length (fm_entries m') = max (Suc slot) (length (fm_entries m))" using slot(1) by (auto simp: m')
  show "set (fm_entries m') \<subseteq> insert (Some ?e) (set (fm_entries m))"
    by (auto simp: m' dest: set_mp [OF set_update_subset_insert])
qed

lemma remove_earliest_take:
  assumes m: "index_ok m" and e: "entry_at m slot = Some e" and li: "fm_lease_index m = (fe_reusable_after e, slot) # ls"
    and old: "fe_reusable_after e \<le> now" and rem: "remove_earliest_expired now m = (r, m')"
  shows "r = Some (slot, fe_ip e)" and "index_ok m'" and "entry_at m' = (entry_at m)(slot := None)" and
    "same_pool m m'" and "fm_next_offset m' = fm_next_offset m" and "fm_entries m' = (fm_entries m)[slot := None]"
proof -
  have "entry_at (m\<lparr>fm_lease_index := x\<rparr>) slot = Some e" for x using e by (simp add: entry_at_def)
  then have m': "m' = m\<lparr>fm_lease_index := lease_remove (fe_reusable_after e, slot) (fm_lease_index m),
      fm_entries := (fm_entries m)[slot := None], fm_by_domain := AList.delete (fe_domain e) (fm_by_domain m),
      fm_by_ipv4 := AList.delete (fe_ip e) (fm_by_ipv4 m)\<rparr>" and r: "r = Some (slot, fe_ip e)"
    using rem li old by (auto simp: remove_earliest_expired_def Let_def)
  show "r = Some (slot, fe_ip e)" by (rule r)
  show at: "entry_at m' = (entry_at m)(slot := None)"
    by (auto simp: m' entry_at_eq fun_eq_iff nth_list_update)
  have sd: "s \<noteq> slot \<Longrightarrow> entry_at m s = Some e' \<Longrightarrow> fe_domain e' \<noteq> fe_domain e" for s e'
    using same_domain [OF m _ e] by blast
  have si: "s \<noteq> slot \<Longrightarrow> entry_at m s = Some e' \<Longrightarrow> fe_ip e' \<noteq> fe_ip e" for s e'
    using same_ipv4 [OF m _ e] by blast
  have sorted: "sorted_wrt lease_less (fm_lease_index m)" using m by (simp add: index_ok_def)
  show "index_ok m'"
    unfolding index_ok_def at
  proof (intro conjI allI)
    show "distinct (map fst (fm_by_domain m'))" "distinct (map fst (fm_by_ipv4 m'))"
      using m by (simp_all add: m' distinct_delete index_ok_def)
    show "sorted_wrt lease_less (fm_lease_index m')" by (simp add: m' lease_remove_sorted sorted)
    show "map_of (fm_by_domain m') d = Some s \<longleftrightarrow> (\<exists>e. ((entry_at m)(slot := None)) s = Some e \<and> fe_domain e = d)" for d s
      by (cases "s = slot") (use e sd in \<open>auto simp: m' index_domain [OF m]\<close>)
    show "map_of (fm_by_ipv4 m') d = Some s \<longleftrightarrow> (\<exists>e. ((entry_at m)(slot := None)) s = Some e \<and> fe_ip e = d)" for d s
      by (cases "s = slot") (use e si in \<open>auto simp: m' index_ipv4 [OF m]\<close>)
    show "(t, s) \<in> set (fm_lease_index m') \<longleftrightarrow> (\<exists>e. ((entry_at m)(slot := None)) s = Some e \<and> fe_reusable_after e = t)" for t s
      using e by (auto simp: m' lease_remove_set [OF sorted] index_lease [OF m])
  qed
  show "same_pool m m'" "fm_next_offset m' = fm_next_offset m" "fm_entries m' = (fm_entries m)[slot := None]"
    by (simp_all add: m' same_pool_def)
qed

lemma renew_put:
  assumes m: "index_ok m" and e: "entry_at m slot = Some e"
    and m': "m' = m\<lparr>fm_entries := (fm_entries m)[slot := Some (e\<lparr>fe_reusable_after := t\<rparr>)],
      fm_lease_index := lease_insert (t, slot) (lease_remove (fe_reusable_after e, slot) (fm_lease_index m))\<rparr>"
  shows "index_ok m'" and "entry_at m' = (entry_at m)(slot \<mapsto> e\<lparr>fe_reusable_after := t\<rparr>)"
proof -
  have len: "slot < length (fm_entries m)" using e by (simp add: entry_at_eq split: if_splits)
  then show at: "entry_at m' = (entry_at m)(slot \<mapsto> e\<lparr>fe_reusable_after := t\<rparr>)"
    by (auto simp: m' entry_at_eq fun_eq_iff nth_list_update)
  have sorted: "sorted_wrt lease_less (fm_lease_index m)" using m by (simp add: index_ok_def)
  show "index_ok m'"
    unfolding index_ok_def at
  proof (intro conjI allI)
    show "distinct (map fst (fm_by_domain m'))" "distinct (map fst (fm_by_ipv4 m'))"
      using m by (simp_all add: m' index_ok_def)
    show "sorted_wrt lease_less (fm_lease_index m')" by (simp add: m' lease_remove_sorted lease_insert_sorted sorted)
    show "map_of (fm_by_domain m') d = Some s \<longleftrightarrow>
        (\<exists>e'. ((entry_at m)(slot \<mapsto> e\<lparr>fe_reusable_after := t\<rparr>)) s = Some e' \<and> fe_domain e' = d)" for d s
      using e by (auto simp: m' index_domain [OF m])
    show "map_of (fm_by_ipv4 m') d = Some s \<longleftrightarrow>
        (\<exists>e'. ((entry_at m)(slot \<mapsto> e\<lparr>fe_reusable_after := t\<rparr>)) s = Some e' \<and> fe_ip e' = d)" for d s
      using e by (auto simp: m' index_ipv4 [OF m])
    show "(t', s) \<in> set (fm_lease_index m') \<longleftrightarrow>
        (\<exists>e'. ((entry_at m)(slot \<mapsto> e\<lparr>fe_reusable_after := t\<rparr>)) s = Some e' \<and> fe_reusable_after e' = t')" for t' s
      using e by (auto simp: m' lease_remove_set [OF sorted] index_lease [OF m])
  qed
qed

subsection \<open>Finding an address\<close>

definition next_turn :: "fake_ip_mapper \<Rightarrow> fake_ip_mapper" where
  "next_turn m = m\<lparr>fm_next_offset := (fm_next_offset m + 1) mod fm_allocation_span m\<rparr>"

definition turn_ip :: "fake_ip_mapper \<Rightarrow> u32" where
  "turn_ip m = pool_ip m (fm_next_offset m mod fm_allocation_span m)"

lemma next_available_Suc:
  "next_available (Suc n) m =
    (if fm_first_offset m + (fm_next_offset m mod fm_allocation_span m) \<ge> 2 ^ 32 \<or>
        unat (fm_network_base m) + (fm_first_offset m + (fm_next_offset m mod fm_allocation_span m)) \<ge> 2 ^ 32 then (None, next_turn m)
     else if turn_ip m \<in> set (fm_reserved m) \<union> dom (map_of (fm_by_ipv4 m)) then next_available n (next_turn m)
     else (Some (turn_ip m), next_turn m))"
  by (cases "map_of (fm_by_ipv4 m) (turn_ip m)")
    (simp_all add: Let_def next_turn_def turn_ip_def pool_ip_def dom_def)

declare next_available.simps(2) [simp del]

lemma next_turn_same [simp]: "same_pool m (next_turn m)"
  by (simp add: next_turn_def same_pool_def)

lemma next_turn_span [simp]: "fm_allocation_span (next_turn m) = fm_allocation_span m"
  "fm_by_ipv4 (next_turn m) = fm_by_ipv4 m" "fm_reserved (next_turn m) = fm_reserved m" "pool_ip (next_turn m) = pool_ip m"
  "fm_next_offset (next_turn m) = (fm_next_offset m + 1) mod fm_allocation_span m"
  "next_turn m\<lparr>fm_next_offset := x\<rparr> = m\<lparr>fm_next_offset := x\<rparr>"
  by (simp_all add: next_turn_def pool_ip_def fun_eq_iff)

lemma next_available_frame:
  "next_available n m = (r, m') \<Longrightarrow> 0 < fm_allocation_span m \<Longrightarrow> fm_next_offset m < fm_allocation_span m \<Longrightarrow>
   \<exists>x < fm_allocation_span m. m' = m\<lparr>fm_next_offset := x\<rparr>"
proof (induction n arbitrary: m)
  case 0
  have "m = m\<lparr>fm_next_offset := fm_next_offset m\<rparr>" by (cases m) simp
  moreover have "m' = m" using 0 by simp
  ultimately show ?case using 0(3) by blast
next
  case (Suc n)
  have lt: "(fm_next_offset m + 1) mod fm_allocation_span m < fm_allocation_span m" using Suc.prems(2) by simp
  consider "next_available n (next_turn m) = (r, m')" | "m' = next_turn m"
    using Suc.prems(1) unfolding next_available_Suc by (auto simp del: One_nat_def split: if_splits)
  then show ?case
  proof cases
    case 1
    then show ?thesis using Suc.IH [OF 1] Suc.prems(2) lt by simp
  next
    case 2
    then show ?thesis using lt unfolding next_turn_def by blast
  qed
qed

lemma next_available_some:
  "next_available n m = (Some ip, m') \<Longrightarrow> 0 < fm_allocation_span m \<Longrightarrow> ip \<in> fake_pool m \<and> map_of (fm_by_ipv4 m) ip = None"
proof (induction n arbitrary: m)
  case (Suc n)
  consider "next_available n (next_turn m) = (Some ip, m')"
    | "ip = turn_ip m" "ip \<notin> set (fm_reserved m)" "map_of (fm_by_ipv4 m) ip = None"
    using Suc.prems(1) unfolding next_available_Suc by (auto split: if_splits)
  then show ?case
  proof cases
    case 1
    then show ?thesis using Suc.IH [OF 1] Suc.prems(2) fake_pool_same [OF next_turn_same] by simp
  next
    case 2
    then show ?thesis using Suc.prems(2) by (simp add: fake_pool_def turn_ip_def)
  qed
qed simp

lemma next_available_none:
  "next_available n m = (None, m') \<Longrightarrow> pool_ok m \<Longrightarrow> j < n \<Longrightarrow>
   pool_ip m ((fm_next_offset m + j) mod fm_allocation_span m) \<in> set (fm_reserved m) \<union> dom (map_of (fm_by_ipv4 m))"
proof (induction n arbitrary: m j)
  case (Suc n)
  let ?s = "fm_allocation_span m"
  have s: "0 < ?s" "unat (fm_network_base m) + fm_first_offset m + ?s \<le> 2 ^ 32" using Suc.prems(2) by (auto simp: pool_ok_def)
  have "fm_next_offset m mod ?s < ?s" using s(1) by simp
  then have fits: "\<not> (fm_first_offset m + fm_next_offset m mod ?s \<ge> 2 ^ 32 \<or>
      unat (fm_network_base m) + (fm_first_offset m + fm_next_offset m mod ?s) \<ge> 2 ^ 32)"
    using s(2) by linarith
  have taken: "turn_ip m \<in> set (fm_reserved m) \<union> dom (map_of (fm_by_ipv4 m))"
    using Suc.prems(1) fits unfolding next_available_Suc by (metis option.discI prod.inject)
  then have rec: "next_available n (next_turn m) = (None, m')"
    using Suc.prems(1) fits unfolding next_available_Suc by presburger
  have ok: "pool_ok (next_turn m)"
    by (rule pool_ok_same [OF next_turn_same _ Suc.prems(2)]) (use s(1) in simp)
  show ?case
  proof (cases j)
    case 0
    then show ?thesis using taken by (simp add: turn_ip_def)
  next
    case i: (Suc i)
    have "((fm_next_offset m + 1) mod ?s + i) mod ?s = (fm_next_offset m + j) mod ?s" by (simp add: i mod_simps)
    then show ?thesis using Suc.IH [OF rec ok, of i] i Suc.prems(3) by simp
  qed
qed simp


subsection \<open>Counting\<close>

lemma entries_present:
  "fake_ip_ok m \<Longrightarrow> s < length (fm_entries m) \<Longrightarrow> \<exists>e. entry_at m s = Some e"
  unfolding fake_ip_ok_def entry_at_eq by (metis nth_mem not_None_eq)

lemma entry_at_bound: "entry_at m s = Some e \<Longrightarrow> s < length (fm_entries m)"
  by (simp add: entry_at_eq split: if_splits)

lemma card_dom_distinct: "distinct (map fst xs) \<Longrightarrow> card (dom (map_of xs)) = length xs"
  by (metis distinct_card dom_map_of_conv_image_fst length_map set_map)

lemma fake_count:
  assumes m: "fake_ip_ok m"
  shows "length (fm_by_domain m) = length (fm_entries m)" and "card (dom (leases m)) = length (fm_entries m)"
proof -
  have ix: "index_ok m" using m by (simp add: fake_ip_ok_def)
  let ?f = "\<lambda>s. fe_domain (the (entry_at m s))"
  have inj: "inj_on ?f {..<length (fm_entries m)}"
  proof (rule inj_onI)
    fix s s' assume b: "s \<in> {..<length (fm_entries m)}" "s' \<in> {..<length (fm_entries m)}" "?f s = ?f s'"
    then obtain e e' where "entry_at m s = Some e" "entry_at m s' = Some e'" using entries_present [OF m, of s] entries_present [OF m, of s'] by auto
    then show "s = s'" using b(3) same_domain [OF ix] by simp
  qed
  have img: "dom (map_of (fm_by_domain m)) = ?f ` {..<length (fm_entries m)}"
    using entries_present [OF m] entry_at_bound by (force simp: dom_def index_domain [OF ix])
  have dl: "dom (leases m) = dom (map_of (fm_by_domain m))"
    by (auto simp: leases_def dom_def bind_eq_Some_conv index_domain [OF ix])
  have c: "card (dom (map_of (fm_by_domain m))) = length (fm_entries m)" unfolding img by (simp add: card_image [OF inj])
  then show "card (dom (leases m)) = length (fm_entries m)" by (simp add: dl)
  show "length (fm_by_domain m) = length (fm_entries m)" using c ix card_dom_distinct [of "fm_by_domain m"] by (simp add: index_ok_def)
qed

lemma used_count:
  assumes ix: "index_ok m"
  shows "card (dom (map_of (fm_by_ipv4 m))) \<le> length (fm_entries m)"
proof -
  have "dom (map_of (fm_by_ipv4 m)) \<subseteq> (\<lambda>s. fe_ip (the (entry_at m s))) ` {..<length (fm_entries m)}"
    using entry_at_bound by (force simp: dom_def index_ipv4 [OF ix])
  then have "card (dom (map_of (fm_by_ipv4 m))) \<le> card ((\<lambda>s. fe_ip (the (entry_at m s))) ` {..<length (fm_entries m)})"
    by (intro card_mono) auto
  also have "\<dots> \<le> length (fm_entries m)" using card_image_le [of "{..<length (fm_entries m)}"] by simp
  finally show ?thesis .
qed

text \<open>Below its capacity the pool has a free address, and the search finds it.\<close>

lemma next_available_ipv4_finds:
  assumes m: "fake_ip_ok m" and room: "length (fm_entries m) < fm_max_mappings m" and nx: "next_available_ipv4 m = (r, m')"
  obtains ip x where "r = Some ip" "ip \<in> fake_pool m" "map_of (fm_by_ipv4 m) ip = None" "x < fm_allocation_span m"
    "m' = m\<lparr>fm_next_offset := x\<rparr>"
proof -
  let ?n = "fm_allocation_span m"
  have ix: "index_ok m" and pool: "pool_ok m" using m by (simp_all add: fake_ip_ok_def)
  have span: "0 < ?n" "fm_next_offset m < ?n" using pool by (simp_all add: pool_ok_def)
  have nx': "next_available ?n m = (r, m')" using nx by (simp add: next_available_ipv4_def)
  have "r \<noteq> None"
  proof
    assume "r = None"
    then have none: "next_available ?n m = (None, m')" using nx' by simp
    have "fake_pool m \<subseteq> dom (map_of (fm_by_ipv4 m))"
    proof
      fix ip assume "ip \<in> fake_pool m"
      then obtain k where k: "k < ?n" "ip = pool_ip m k" "ip \<notin> set (fm_reserved m)" by (auto simp: fake_pool_def)
      let ?j = "(k + (?n - fm_next_offset m)) mod ?n"
      have "(fm_next_offset m + ?j) mod ?n = (fm_next_offset m + (k + (?n - fm_next_offset m))) mod ?n" by (simp add: mod_simps)
      also have "\<dots> = k" using span k(1) by simp
      finally show "ip \<in> dom (map_of (fm_by_ipv4 m))"
        using next_available_none [OF none pool, of ?j] span(1) k by simp
    qed
    then have "card (fake_pool m) \<le> card (dom (map_of (fm_by_ipv4 m)))" by (intro card_mono) (simp_all add: finite_dom_map_of)
    then show False using used_count [OF ix] room pool by (simp add: pool_ok_def)
  qed
  then obtain ip where "r = Some ip" by blast
  then show thesis
    using that next_available_some [of ?n m ip m'] next_available_frame [OF nx' span] nx' span(1) by blast
qed

section \<open>Allocation is a step of the table\<close>

lemma leases_ran:
  assumes "index_ok m"
  shows "(ip, t) \<in> ran (leases m) \<longleftrightarrow> (\<exists>s e. entry_at m s = Some e \<and> fe_ip e = ip \<and> fe_reusable_after e = t)"
  using leases_iff [OF assms] by (auto simp: ran_def)

lemma leases_none: "index_ok m \<Longrightarrow> leases m d = None \<longleftrightarrow> map_of (fm_by_domain m) d = None"
  using index_domain [of m d] by (cases "map_of (fm_by_domain m) d") (auto simp: leases_def)

definition step_ok :: "nat \<Rightarrow> bytes \<Rightarrow> fake_ip_mapper \<Rightarrow> u32 option \<Rightarrow> fake_ip_mapper \<Rightarrow> bool" where
  "step_ok now d m r m' \<longleftrightarrow> fake_ip_ok m' \<and> same_pool m m' \<and>
     lease_step (fake_pool m) (fm_max_mappings m) d now (now + ttl_nanos m) (leases m) r (leases m')"

lemma renew_step:
  assumes m: "fake_ip_ok m" and e: "entry_at m slot = Some e" "fe_domain e = d"
    and m': "m' = m\<lparr>fm_entries := (fm_entries m)[slot := Some (e\<lparr>fe_reusable_after := now + ttl_nanos m\<rparr>)],
      fm_lease_index := lease_insert (now + ttl_nanos m, slot) (lease_remove (fe_reusable_after e, slot) (fm_lease_index m))\<rparr>"
  shows "step_ok now d m (Some (fe_ip e)) m'"
proof -
  have ix: "index_ok m" using m by (simp add: fake_ip_ok_def)
  note put = renew_put [OF ix e(1) m']
  have same: "same_pool m m'" by (simp add: m' same_pool_def)
  have "fm_next_offset m' < fm_allocation_span m'" using m by (simp add: m' fake_ip_ok_def pool_ok_def)
  then have "pool_ok m'" using m pool_ok_same [OF same] by (simp add: fake_ip_ok_def)
  moreover have "None \<notin> set (fm_entries m')"
    using m by (auto simp: m' fake_ip_ok_def dest: set_mp [OF set_update_subset_insert])
  moreover have "\<forall>s e'. entry_at m' s = Some e' \<longrightarrow> fe_ip e' \<in> fake_pool m'"
    using m e unfolding put(2) fake_pool_same [OF same] fake_ip_ok_def by auto
  ultimately have ok: "fake_ip_ok m'" using m put(1) by (simp add: fake_ip_ok_def m')
  have "leases m' = (leases m)(d \<mapsto> (fe_ip e, now + ttl_nanos m))"
    using leases_put [OF ix put(1) put(2)] e by simp
  moreover have "leases m d = Some (fe_ip e, fe_reusable_after e)" using e by (auto simp: leases_iff [OF ix])
  ultimately show ?thesis using ok same by (auto simp: step_ok_def intro: lease_step.renew)
qed

lemma put_ok:
  assumes m: "pool_ok m" "index_ok m" "\<forall>s e. entry_at m s = Some e \<longrightarrow> fe_ip e \<in> fake_pool m"
    and d: "map_of (fm_by_domain m) d = None" and ip: "map_of (fm_by_ipv4 m) ip = None" "ip \<in> fake_pool m"
    and slot: "slot \<le> length (fm_entries m)" "entry_at m slot = None"
    and len: "max (Suc slot) (length (fm_entries m)) \<le> fm_max_mappings m"
    and others: "\<And>s. s < length (fm_entries m) \<Longrightarrow> s \<noteq> slot \<Longrightarrow> entry_at m s \<noteq> None"
    and ins: "insert_mapping slot d ip t m = (r, m')"
  shows "r = Some () \<and> fake_ip_ok m' \<and> same_pool m m' \<and> leases m' = (leases m)(d \<mapsto> (ip, t))"
proof -
  note put = insert_mapping_put [OF m(2) d ip(1) slot ins]
  have "pool_ok m'" using pool_ok_same [OF put(4) _ m(1)] m(1) put(4,5) by (simp add: pool_ok_def same_pool_def)
  moreover have "\<forall>s e. entry_at m' s = Some e \<longrightarrow> fe_ip e \<in> fake_pool m'"
    using m(3) ip(2) unfolding put(3) fake_pool_same [OF put(4)] by auto
  moreover have "None \<notin> set (fm_entries m')"
  proof
    assume "None \<in> set (fm_entries m')"
    then obtain s where s: "s < length (fm_entries m')" "fm_entries m' ! s = None" by (metis in_set_conv_nth)
    then have "entry_at m' s = None" by (simp add: entry_at_eq)
    moreover have "s = slot \<or> s < length (fm_entries m)" using s(1) slot(1) unfolding put(6) by linarith
    ultimately show False using others [of s] unfolding put(3) by (auto split: if_splits)
  qed
  moreover have "length (fm_entries m') \<le> fm_max_mappings m'" using len put(4,6) by (simp add: same_pool_def)
  moreover have "leases m' = (leases m)(d \<mapsto> (ip, t))"
    using leases_put [OF m(2) put(2,3)] slot(2) by simp
  ultimately show ?thesis using put(1,2,4) by (simp add: fake_ip_ok_def)
qed

lemma fresh_step:
  assumes m: "fake_ip_ok m" and d: "map_of (fm_by_domain m) d = None" and room: "length (fm_entries m) < fm_max_mappings m"
    and nx: "next_available_ipv4 m = (r1, m1)"
  obtains ip m' where "r1 = Some ip" "insert_mapping (length (fm_entries m)) d ip (now + ttl_nanos m) m1 = (Some (), m')"
    "step_ok now d m (Some ip) m'"
proof -
  obtain ip x where ip: "r1 = Some ip" "ip \<in> fake_pool m" "map_of (fm_by_ipv4 m) ip = None" "x < fm_allocation_span m"
    and m1: "m1 = m\<lparr>fm_next_offset := x\<rparr>"
    using next_available_ipv4_finds [OF m room nx] by blast
  have ix: "index_ok m" and pool: "pool_ok m" using m by (simp_all add: fake_ip_ok_def)
  have same: "same_pool m m1" by (simp add: m1 same_pool_def)
  have at: "entry_at m1 = entry_at m" by (simp add: m1 entry_at_def fun_eq_iff)
  have ix1: "index_ok m1" using ix unfolding index_ok_def at by (simp add: m1)
  have le: "leases m1 = leases m" unfolding fun_eq_iff leases_def at by (simp add: m1)
  obtain r m' where ins: "insert_mapping (length (fm_entries m)) d ip (now + ttl_nanos m) m1 = (r, m')" by fastforce
  have "r = Some () \<and> fake_ip_ok m' \<and> same_pool m1 m' \<and> leases m' = (leases m1)(d \<mapsto> (ip, now + ttl_nanos m))"
  proof (rule put_ok [OF _ ix1 _ _ _ _ _ _ _ _ ins])
    show "pool_ok m1" using pool_ok_same [OF same _ pool] ip(4) by (simp add: m1)
    show "\<forall>s e. entry_at m1 s = Some e \<longrightarrow> fe_ip e \<in> fake_pool m1"
      using m unfolding at fake_pool_same [OF same] by (simp add: fake_ip_ok_def)
    show "entry_at m1 (length (fm_entries m)) = None" by (simp add: at entry_at_eq)
    show "entry_at m1 s \<noteq> None" if "s < length (fm_entries m1)" "s \<noteq> length (fm_entries m)" for s
      using entries_present [OF m, of s] that unfolding at by (auto simp: m1)
  qed (use d ip room fake_pool_same [OF same] in \<open>simp_all add: m1\<close>)
  then have done1: "r = Some ()" "fake_ip_ok m'" "same_pool m m'" "leases m' = (leases m)(d \<mapsto> (ip, now + ttl_nanos m))"
    using same_pool_trans [OF same] by (simp_all add: le)
  have "leases m d = None" "card (dom (leases m)) < fm_max_mappings m"
    using leases_none [OF ix] d fake_count [OF m] room by simp_all
  moreover have "ip \<notin> fst ` ran (leases m)"
  proof
    assume "ip \<in> fst ` ran (leases m)"
    then obtain s e where "entry_at m s = Some e" "fe_ip e = ip" by (auto simp: leases_ran [OF ix])
    then show False using index_ipv4 [OF ix, of ip s] ip(3) by simp
  qed
  ultimately have "step_ok now d m (Some ip) m'"
    using done1 ip(2) by (auto simp: step_ok_def intro: lease_step.fresh)
  then show thesis using that ip(1) ins done1(1) by blast
qed

lemma earliest_lease:
  assumes ix: "index_ok m" and li: "fm_lease_index m = (t, slot) # ls"
  obtains e where "entry_at m slot = Some e" "fe_reusable_after e = t" "\<forall>l \<in> ran (leases m). t \<le> snd l"
proof -
  obtain e where e: "entry_at m slot = Some e" "fe_reusable_after e = t" using index_lease [OF ix, of t slot] li by auto
  have "t \<le> t'" if l: "(ip, t') \<in> ran (leases m)" for ip t'
  proof -
    obtain s e' where "entry_at m s = Some e'" "fe_reusable_after e' = t'" using l by (auto simp: leases_ran [OF ix])
    then have "(t', s) \<in> set (fm_lease_index m)" by (simp add: index_lease [OF ix])
    moreover have "sorted_wrt lease_less ((t, slot) # ls)" using ix unfolding index_ok_def li by blast
    ultimately show ?thesis unfolding li by (auto simp: lease_less_def)
  qed
  then have "\<forall>l \<in> ran (leases m). t \<le> snd l" by auto
  then show thesis using that e by blast
qed

lemma reuse_step:
  assumes m: "fake_ip_ok m" and d: "map_of (fm_by_domain m) d = None" and full: "fm_max_mappings m \<le> length (fm_entries m)"
    and li: "fm_lease_index m = (t, slot) # ls" and old: "t \<le> now"
    and rm: "remove_earliest_expired now m = (r1, m1)"
  obtains ip m' where "r1 = Some (slot, ip)" "insert_mapping slot d ip (now + ttl_nanos m) m1 = (Some (), m')"
    "step_ok now d m (Some ip) m'"
proof -
  have ix: "index_ok m" and pool: "pool_ok m" using m by (simp_all add: fake_ip_ok_def)
  obtain e where e: "entry_at m slot = Some e" "fe_reusable_after e = t" and least: "\<forall>l \<in> ran (leases m). t \<le> snd l"
    using earliest_lease [OF ix li] .
  have old': "fe_reusable_after e \<le> now" and li': "fm_lease_index m = (fe_reusable_after e, slot) # ls" using e old li by simp_all
  note tk = remove_earliest_take [OF ix e(1) li' old' rm]
  have slot: "slot < length (fm_entries m)" using entry_at_bound [OF e(1)] .
  have le: "leases m1 = (leases m)(fe_domain e := None)" by (rule leases_clear [OF ix tk(2,3) e(1)])
  have owned: "leases m (fe_domain e) = Some (fe_ip e, t)" using e by (auto simp: leases_iff [OF ix])
  have "leases m d = None" using leases_none [OF ix] d by simp
  obtain r m' where ins: "insert_mapping slot d (fe_ip e) (now + ttl_nanos m) m1 = (r, m')" by fastforce
  have "r = Some () \<and> fake_ip_ok m' \<and> same_pool m1 m' \<and> leases m' = (leases m1)(d \<mapsto> (fe_ip e, now + ttl_nanos m))"
  proof (rule put_ok [OF _ tk(2) _ _ _ _ _ _ _ _ ins])
    show "pool_ok m1" using pool_ok_same [OF tk(4) _ pool] pool tk(4,5) by (simp add: pool_ok_def same_pool_def)
    show "\<forall>s e. entry_at m1 s = Some e \<longrightarrow> fe_ip e \<in> fake_pool m1"
      using m unfolding tk(3) fake_pool_same [OF tk(4)] by (simp add: fake_ip_ok_def)
    show "map_of (fm_by_domain m1) d = None" using leases_none [OF tk(2), of d] \<open>leases m d = None\<close> by (simp add: le split: if_splits)
    show "map_of (fm_by_ipv4 m1) (fe_ip e) = None"
    proof (rule ccontr)
      assume "map_of (fm_by_ipv4 m1) (fe_ip e) \<noteq> None"
      then obtain s e' where "s \<noteq> slot" "entry_at m s = Some e'" "fe_ip e' = fe_ip e"
        using index_ipv4 [OF tk(2), of "fe_ip e"] unfolding tk(3) by (auto split: if_splits)
      then show False using same_ipv4 [OF ix _ e(1)] by blast
    qed
    show "fe_ip e \<in> fake_pool m1" using m e(1) unfolding fake_pool_same [OF tk(4)] fake_ip_ok_def by blast
    show "entry_at m1 s \<noteq> None" if "s < length (fm_entries m1)" "s \<noteq> slot" for s
      using entries_present [OF m, of s] that by (simp add: tk(3,6))
    show "max (Suc slot) (length (fm_entries m1)) \<le> fm_max_mappings m1"
      using slot m tk(4,6) by (simp add: fake_ip_ok_def same_pool_def)
  qed (use slot in \<open>simp_all add: tk(3,6)\<close>)
  then have done1: "r = Some ()" "fake_ip_ok m'" "same_pool m m'"
    "leases m' = ((leases m)(fe_domain e := None))(d \<mapsto> (fe_ip e, now + ttl_nanos m))"
    using same_pool_trans [OF tk(4)] by (simp_all add: le)
  have "fm_max_mappings m \<le> card (dom (leases m))" using full fake_count [OF m] by simp
  then have "step_ok now d m (Some (fe_ip e)) m'"
    using done1 lease_step.reuse [OF \<open>leases m d = None\<close> _ owned old least] by (simp add: step_ok_def)
  then show thesis using that tk(1) ins done1(1) by blast
qed

lemma full_step:
  assumes m: "fake_ip_ok m" and d: "map_of (fm_by_domain m) d = None" and full: "fm_max_mappings m \<le> length (fm_entries m)"
    and first: "fm_lease_index m = [] \<or> now < fst (hd (fm_lease_index m))"
  shows "step_ok now d m None m"
proof -
  have ix: "index_ok m" using m by (simp add: fake_ip_ok_def)
  have "\<forall>l \<in> ran (leases m). now < snd l"
  proof (cases "fm_lease_index m")
    case Nil
    have "False" if l: "(ip, t) \<in> ran (leases m)" for ip t
    proof -
      obtain s e where "entry_at m s = Some e" "fe_reusable_after e = t" using l by (auto simp: leases_ran [OF ix])
      then show False using index_lease [OF ix, of t s] Nil by simp
    qed
    then show ?thesis by auto
  next
    case (Cons x ls)
    obtain t slot where x: "x = (t, slot)" by (cases x)
    have li: "fm_lease_index m = (t, slot) # ls" using Cons x by simp
    obtain e where "\<forall>l \<in> ran (leases m). t \<le> snd l" using earliest_lease [OF ix li] by blast
    moreover have "now < t" using first li by simp
    ultimately show ?thesis using less_le_trans by blast
  qed
  then show ?thesis
    using m full fake_count [OF m] leases_none [OF ix] d by (simp add: step_ok_def lease_step.full)
qed

lemma allocate_step:
  assumes m: "fake_ip_ok m" and d: "normalize_dns_domain domain = Some d" and till: "now + ttl_nanos m \<le> limit"
    and al: "allocate_ipv4_at limit domain now m = (r, m')"
  shows "step_ok now d m r m'"
proof -
  have ix: "index_ok m" using m by (simp add: fake_ip_ok_def)
  have al': "allocate_ipv4_at limit domain now m = (case map_of (fm_by_domain m) d of
      Some slot \<Rightarrow> (case entry_at m slot of None \<Rightarrow> (None, m) | Some entry \<Rightarrow>
        (Some (fe_ip entry), m\<lparr>fm_entries := (fm_entries m)[slot := Some (entry\<lparr>fe_reusable_after := now + ttl_nanos m\<rparr>)],
           fm_lease_index := lease_insert (now + ttl_nanos m, slot) (lease_remove (fe_reusable_after entry, slot) (fm_lease_index m))\<rparr>))
    | None \<Rightarrow> if length (fm_by_domain m) \<ge> fm_max_mappings m then
        (case remove_earliest_expired now m of (None, m) \<Rightarrow> (None, m)
         | (Some (slot, ip), m1) \<Rightarrow> (case insert_mapping slot d ip (now + ttl_nanos m) m1 of (None, m) \<Rightarrow> (None, m) | (Some _, m) \<Rightarrow> (Some ip, m)))
      else (case next_available_ipv4 m of (None, m) \<Rightarrow> (None, m)
         | (Some ip, m1) \<Rightarrow> (case insert_mapping (length (fm_entries m)) d ip (now + ttl_nanos m) m1 of
             (None, m) \<Rightarrow> (None, m) | (Some _, m) \<Rightarrow> (Some ip, m))))"
    unfolding allocate_ipv4_at_def Let_def using d till by simp
  consider (known) slot where "map_of (fm_by_domain m) d = Some slot"
    | (fresh) "map_of (fm_by_domain m) d = None" "length (fm_entries m) < fm_max_mappings m"
    | (full) "map_of (fm_by_domain m) d = None" "fm_max_mappings m \<le> length (fm_entries m)"
    by fastforce
  then show ?thesis
  proof cases
    case known
    then obtain e where e: "entry_at m slot = Some e" "fe_domain e = d" using index_domain [OF ix] by blast
    then show ?thesis using al known renew_step [OF m e refl, of now] unfolding al' by simp
  next
    case fresh
    obtain r1 m1 where nx: "next_available_ipv4 m = (r1, m1)" by fastforce
    obtain ip m2 where "r1 = Some ip" "insert_mapping (length (fm_entries m)) d ip (now + ttl_nanos m) m1 = (Some (), m2)"
      "step_ok now d m (Some ip) m2" using fresh_step [OF m fresh nx, of now] by blast
    then show ?thesis using al fresh unfolding al' by (simp add: nx fake_count [OF m])
  next
    case full
    obtain r1 m1 where rm: "remove_earliest_expired now m = (r1, m1)" by fastforce
    show ?thesis
    proof (cases "fm_lease_index m = [] \<or> now < fst (hd (fm_lease_index m))")
      case True
      then have "r1 = None \<and> m1 = m" using rm by (auto simp: remove_earliest_expired_def split: list.splits prod.splits if_splits)
      then show ?thesis using al full full_step [OF m full True] unfolding al' by (simp add: rm fake_count [OF m])
    next
      case False
      then obtain t slot ls where li: "fm_lease_index m = (t, slot) # ls" and old: "t \<le> now"
        by (cases "fm_lease_index m") auto
      obtain ip m2 where "r1 = Some (slot, ip)" "insert_mapping slot d ip (now + ttl_nanos m) m1 = (Some (), m2)"
        "step_ok now d m (Some ip) m2" using reuse_step [OF m full li old rm] by blast
      then show ?thesis using al full unfolding al' by (simp add: rm fake_count [OF m])
    qed
  qed
qed

lemma allocate_refuses:
  assumes "normalize_dns_domain domain = None \<or> limit < now + ttl_nanos m"
  shows "allocate_ipv4_at limit domain now m = (None, m)"
  using assms by (cases "normalize_dns_domain domain") (simp_all add: allocate_ipv4_at_def)

section \<open>A mapper from its configuration\<close>

lemma pool_base_room:
  fixes n :: u32
  assumes p: "p \<le> 32"
  shows "unat (n AND prefix_mask p) + 2 ^ (32 - unat p) \<le> 2 ^ 32"
proof -
  let ?h = "32 - unat p"
  have start: "unat (n AND prefix_mask p) = unat n div 2 ^ ?h * 2 ^ ?h"
    using unat_prefix_start [of n p] by (simp add: from_prefix_def Let_def)
  have split: "(2 :: nat) ^ unat p * 2 ^ ?h = 2 ^ 32"
    using p by (simp add: word_le_nat_alt flip: power_add)
  have "unat n < 2 ^ unat p * 2 ^ ?h" unfolding split using unsigned_less [of n] by simp
  then have "unat n div 2 ^ ?h < 2 ^ unat p" by (rule less_mult_imp_div_less)
  then have "(unat n div 2 ^ ?h + 1) * 2 ^ ?h \<le> 2 ^ unat p * 2 ^ ?h" by (intro mult_right_mono) simp_all
  then show ?thesis unfolding start split by (simp only: add_mult_distrib mult_1)
qed

lemma offset_in_pool:
  fixes base :: u32
  assumes "unat base + first + span \<le> 2 ^ 32"
  shows "(case pool_offset base ip of None \<Rightarrow> False | Some k \<Rightarrow> first \<le> k \<and> k < first + span) \<longleftrightarrow>
    ip \<in> (\<lambda>k. base + of_nat (first + k)) ` {..<span}"
proof
  assume "case pool_offset base ip of None \<Rightarrow> False | Some k \<Rightarrow> first \<le> k \<and> k < first + span"
  then have b: "first \<le> unat (ip - base)" "unat (ip - base) < first + span"
    by (auto simp: pool_offset_def split: if_splits)
  then have "ip = base + of_nat (first + (unat (ip - base) - first))" by simp
  moreover have "unat (ip - base) - first < span" using b by linarith
  ultimately show "ip \<in> (\<lambda>k. base + of_nat (first + k)) ` {..<span}" by blast
next
  assume "ip \<in> (\<lambda>k. base + of_nat (first + k)) ` {..<span}"
  then obtain k where k: "k < span" and ip: "ip = base + of_nat (first + k)" by blast
  have u: "unat (of_nat (first + k) :: u32) = first + k"
    using assms k by (simp add: unat_of_nat take_bit_nat_eq_self del: of_nat_add)
  have "unat ip = unat base + (first + k)"
    unfolding ip using unat_add_lem [of base "of_nat (first + k)"] assms k u by simp
  then have "base \<le> ip" by (simp add: word_le_nat_alt)
  then show "case pool_offset base ip of None \<Rightarrow> False | Some k \<Rightarrow> first \<le> k \<and> k < first + span"
    using u k by (simp add: pool_offset_def ip)
qed

lemma pool_card:
  fixes base :: u32
  assumes "unat base + first + span \<le> 2 ^ 32"
  shows "card ((\<lambda>k. base + of_nat (first + k)) ` {..<span}) = span"
proof -
  have "inj_on (\<lambda>k. base + of_nat (first + k)) {..<span}"
  proof (rule inj_onI)
    fix j k assume b: "j \<in> {..<span}" "k \<in> {..<span}" "base + of_nat (first + j) = base + of_nat (first + k)"
    have "unat (of_nat (first + i) :: u32) = first + i" if "i < span" for i
      using assms that by (simp add: unat_of_nat take_bit_nat_eq_self del: of_nat_add)
    then show "j = k" using b by (metis add_left_cancel lessThan_iff)
  qed
  then show ?thesis by (simp add: card_image)
qed

lemma from_config_ok:
  assumes c: "from_config_with_start c strategy reserved start = Some m"
  shows "fake_ip_ok m" and "leases m = Map.empty"
proof -
  obtain network where net: "fc_network c = V4 network" using c by (auto simp: from_config_with_start_def split: ip_addr.splits if_splits)
  let ?h = "32 - unat (fc_prefix c)"
  let ?count = "2 ^ ?h :: nat"
  let ?first = "if ?count > 2 then 1 else 0 :: nat"
  let ?span = "if ?count > 2 then ?count - 2 else ?count"
  let ?base = "network AND prefix_mask (fc_prefix c)"
  let ?in = "\<lambda>ip. case pool_offset ?base ip of None \<Rightarrow> False | Some k \<Rightarrow> ?first \<le> k \<and> k < ?first + ?span"
  let ?res = "remdups (sort reserved)"
  have p: "fc_prefix c \<le> 32" and size: "0 < unat (fc_pool_size c)" "unat (fc_pool_size c) \<le> ?span - length (filter ?in ?res)"
    and m: "m = \<lparr>fm_query_strategy = strategy, fm_route_probe = False, fm_ttl = fc_ttl c,
        fm_network_base = ?base, fm_address_count = ?count, fm_first_offset = ?first,
        fm_allocation_span = ?span, fm_max_mappings = unat (fc_pool_size c), fm_reserved = ?res,
        fm_next_offset = start mod ?span, fm_entries = [], fm_lease_index = [], fm_by_domain = [], fm_by_ipv4 = []\<rparr>"
    using c unfolding from_config_with_start_def Let_def net prefix_mask_def
    by (auto simp: unat_gt_0 split: if_splits)
  have span: "0 < ?span" "?first + ?span \<le> ?count" by auto
  have room: "unat ?base + ?first + ?span \<le> 2 ^ 32" using pool_base_room [OF p, of network] span(2) by linarith
  let ?all = "(\<lambda>k. ?base + of_nat (?first + k)) ` {..<?span}"
  have pool: "fake_pool m = ?all - set ?res" by (simp add: fake_pool_def pool_ip_def m)
  have "?all \<inter> set ?res = set (filter ?in ?res)" using offset_in_pool [OF room] by auto
  then have "card (?all \<inter> set ?res) = card (set (filter ?in ?res))" by (rule arg_cong)
  also have "\<dots> = length (filter ?in ?res)" by (rule distinct_card) (rule distinct_filter, rule distinct_remdups)
  finally have taken: "card (?all \<inter> set ?res) = length (filter ?in ?res)" .
  have "card (fake_pool m) = card ?all - card (?all \<inter> set ?res)" unfolding pool by (rule card_Diff_subset_Int) simp
  then have "card (fake_pool m) = ?span - length (filter ?in ?res)" unfolding taken pool_card [OF room] .
  then have "unat (fc_pool_size c) \<le> card (fake_pool m)" using size(2) by (rule ord_le_eq_trans [OF _ sym, rotated])
  then have "pool_ok m" using span room size(1) by (simp add: pool_ok_def m)
  moreover have "index_ok m" by (simp add: index_ok_def m entry_at_eq)
  ultimately show "fake_ip_ok m" by (simp add: fake_ip_ok_def m entry_at_eq)
  show "leases m = Map.empty" by (simp add: leases_def fun_eq_iff m)
qed

section \<open>Series of requests\<close>

text \<open>\<open>allocate_ipv4\<close> for each request: the name and the time it is asked at.\<close>

fun serve :: "nat \<Rightarrow> (bytes \<times> nat) list \<Rightarrow> fake_ip_mapper \<Rightarrow> fake_ip_mapper" where
  "serve limit [] m = m"
| "serve limit ((domain, now) # rest) m = serve limit rest (snd (allocate_ipv4_at limit domain now m))"

lemma allocate_cases:
  assumes "fake_ip_ok m" "allocate_ipv4_at limit domain now m = (r, m')"
  obtains "r = None" "m' = m" | d where "normalize_dns_domain domain = Some d" "step_ok now d m r m'"
proof (cases "normalize_dns_domain domain = None \<or> limit < now + ttl_nanos m")
  case True
  then show thesis using assms that(1) allocate_refuses by simp
next
  case False
  then obtain d where "normalize_dns_domain domain = Some d" and "now + ttl_nanos m \<le> limit" by auto
  then show thesis using that(2) allocate_step [OF assms(1) _ _ assms(2)] by blast
qed

lemma allocate_ok:
  assumes "fake_ip_ok m" "allocate_ipv4_at limit domain now m = (r, m')"
  shows "fake_ip_ok m' \<and> same_pool m m'"
  by (rule allocate_cases [OF assms]) (use assms in \<open>simp_all add: step_ok_def\<close>)

lemma serve_ok: "fake_ip_ok m \<Longrightarrow> fake_ip_ok (serve limit calls m) \<and> same_pool m (serve limit calls m)"
proof (induction calls arbitrary: m)
  case (Cons call calls)
  obtain domain now where call: "call = (domain, now)" by (cases call)
  obtain r m1 where al: "allocate_ipv4_at limit domain now m = (r, m1)" by fastforce
  show ?case
    using Cons.IH [of m1] allocate_ok [OF Cons.prems al] same_pool_trans by (auto simp: call al)
qed simp

lemma ttl_same: "same_pool m m' \<Longrightarrow> ttl_nanos m' = ttl_nanos m"
  by (simp add: same_pool_def ttl_nanos_def)

lemma lookup_leases:
  assumes ix: "index_ok m"
  shows "lookup_ipv4 m ip = Mapped d \<longleftrightarrow> (\<exists>t. leases m d = Some (ip, t))"
proof -
  have "domain_for_ipv4 m ip = Some d \<longleftrightarrow> (\<exists>s e. entry_at m s = Some e \<and> fe_ip e = ip \<and> fe_domain e = d)"
    by (auto simp: domain_for_ipv4_def bind_eq_Some_conv index_ipv4 [OF ix]) (metis index_ipv4 [OF ix] option.simps(9))
  then show ?thesis
    by (cases "domain_for_ipv4 m ip") (auto simp: lookup_ipv4_def leases_iff [OF ix])
qed

lemma lease_kept:
  assumes st: "lease_step P n d' now till L r L'" and own: "L d = Some (ip, u)" "now < u" and v: "v \<le> u" "v \<le> till"
  shows "\<exists>u'. L' d = Some (ip, u') \<and> v \<le> u'"
  using st own v by cases auto

lemma serve_keeps_lease:
  "fake_ip_ok m \<Longrightarrow> leases m d = Some (ip, u) \<Longrightarrow> t + ttl_nanos m \<le> u \<Longrightarrow>
   list_all (\<lambda>call. t \<le> snd call \<and> snd call < t + ttl_nanos m) calls \<Longrightarrow>
   \<exists>u'. leases (serve limit calls m) d = Some (ip, u')"
proof (induction calls arbitrary: m u)
  case (Cons call calls)
  obtain domain now where call: "call = (domain, now)" by (cases call)
  obtain r m1 where al: "allocate_ipv4_at limit domain now m = (r, m1)" by fastforce
  have now: "t \<le> now" "now < u" using Cons.prems call by auto
  have ok: "fake_ip_ok m1" "same_pool m m1" using allocate_ok [OF Cons.prems(1) al] by simp_all
  have "\<exists>u'. leases m1 d = Some (ip, u') \<and> t + ttl_nanos m \<le> u'"
  proof (rule allocate_cases [OF Cons.prems(1) al])
    assume "m1 = m"
    then show ?thesis using Cons.prems by blast
  next
    fix d' assume "step_ok now d' m r m1"
    then have st: "lease_step (fake_pool m) (fm_max_mappings m) d' now (now + ttl_nanos m) (leases m) r (leases m1)"
      by (simp add: step_ok_def)
    show ?thesis by (rule lease_kept [where L = "leases m" and d = d, OF st Cons.prems(2) now(2) Cons.prems(3)]) (use now(1) in simp)
  qed
  then obtain u' where "leases m1 d = Some (ip, u')" "t + ttl_nanos m1 \<le> u'" using ttl_same [OF ok(2)] by auto
  then show ?case using Cons.IH [OF ok(1)] Cons.prems(4) ttl_same [OF ok(2)] by (simp add: call al)
qed simp

text \<open>A pool of one address, for the examples.\<close>

definition demo_config :: fake_ip_config where
  "demo_config = \<lparr>fc_enabled = True, fc_network = V4 0xC6120001, fc_prefix = 32, fc_pool_size = 1, fc_ttl = 60\<rparr>"

definition demo_mapper :: "(bytes \<times> nat) option \<Rightarrow> fake_ip_mapper" where
  "demo_mapper lease = \<lparr>fm_query_strategy = UseIp, fm_route_probe = False, fm_ttl = 60,
      fm_network_base = 0xC6120001, fm_address_count = 1, fm_first_offset = 0, fm_allocation_span = 1, fm_max_mappings = 1,
      fm_reserved = [5], fm_next_offset = 0,
      fm_entries = (case lease of None \<Rightarrow> [] | Some (d, t) \<Rightarrow> [Some \<lparr>fe_domain = d, fe_ip = 0xC6120001, fe_reusable_after = t\<rparr>]),
      fm_lease_index = (case lease of None \<Rightarrow> [] | Some (d, t) \<Rightarrow> [(t, 0)]),
      fm_by_domain = (case lease of None \<Rightarrow> [] | Some (d, t) \<Rightarrow> [(d, 0)]),
      fm_by_ipv4 = (case lease of None \<Rightarrow> [] | Some (d, t) \<Rightarrow> [(0xC6120001, 0)])\<rparr>"

lemmas demo_defs = demo_mapper_def allocate_ipv4_at_def normalize_dns_domain_def trim_end_dots_def to_ascii_lowercase_def
  ascii_lower_def is_ascii_uppercase_def next_available_ipv4_def insert_mapping_def remove_earliest_expired_def lease_remove_def
  next_available.simps entry_at_def nth_get_def ttl_nanos_def Let_def

lemma demo_config: "from_config_with_start demo_config UseIp [5] 7 = Some (demo_mapper None)"
  by (simp add: demo_config_def demo_mapper_def from_config_with_start_def Let_def pool_offset_def)

lemma demo_first: "allocate_ipv4_at (10 ^ 15) [97, 46] 0 (demo_mapper None) = (Some 0xC6120001, demo_mapper (Some ([97], 60 * 10 ^ 9)))"
  by (simp add: demo_defs)

lemma demo_full: "allocate_ipv4_at (10 ^ 15) [98] 5 (demo_mapper (Some ([97], 60 * 10 ^ 9))) = (None, demo_mapper (Some ([97], 60 * 10 ^ 9)))"
  by (simp add: demo_defs)

lemma demo_reuse: "allocate_ipv4_at (10 ^ 15) [98] (60 * 10 ^ 9) (demo_mapper (Some ([97], 60 * 10 ^ 9))) =
    (Some 0xC6120001, demo_mapper (Some ([98], 120 * 10 ^ 9)))"
  by (simp add: demo_defs)

section \<open>Properties\<close>

text \<open>
  C5: whatever requests a configured mapper has answered, its slots and indices stand for a
  table of leases that begins empty, and the next request is a step of that table. A known name keeps
  its address and renews its lease. Below capacity a new name gets an address of the pool that is not
  reserved and not leased, and the search for it always succeeds. At capacity a new name takes over
  the earliest lease if that has ended; the request fails, and changes nothing, only when no
  lease has ended.
\<close>

theorem fake_ip_refines_leases:
  assumes "from_config_with_start c strategy reserved start = Some m0"
    and "normalize_dns_domain domain = Some d" "now + ttl_nanos m0 \<le> limit"
    and "allocate_ipv4_at limit domain now (serve limit calls m0) = (r, m')"
  shows "leases m0 = Map.empty \<and>
    lease_step (fake_pool m0) (fm_max_mappings m0) d now (now + ttl_nanos m0) (leases (serve limit calls m0)) r (leases m')"
proof -
  note m0 = from_config_ok [OF assms(1)]
  have ok: "fake_ip_ok (serve limit calls m0)" and same: "same_pool m0 (serve limit calls m0)"
    using serve_ok [OF m0(1)] by simp_all
  have "step_ok now d (serve limit calls m0) r m'"
    using allocate_step [OF ok assms(2) _ assms(4)] assms(3) ttl_same [OF same] by simp
  then show ?thesis
    using m0(2) fake_pool_same [OF same] ttl_same [OF same] same by (simp add: step_ok_def same_pool_def)
qed

theorem fake_ip_refines_leases_witness:
  "lease_step (fake_pool (demo_mapper None)) 1 [98] (60 * 10 ^ 9) (120 * 10 ^ 9)
     (leases (demo_mapper (Some ([97], 60 * 10 ^ 9)))) (Some 0xC6120001) (leases (demo_mapper (Some ([98], 120 * 10 ^ 9))))"
proof -
  have served: "serve (10 ^ 15) [([97, 46], 0)] (demo_mapper None) = demo_mapper (Some ([97], 60 * 10 ^ 9))"
    by (simp only: serve.simps demo_first snd_conv)
  have name: "normalize_dns_domain [98] = Some [98]" by (simp add: demo_defs)
  have till: "60 * 10 ^ 9 + ttl_nanos (demo_mapper None) = 120 * 10 ^ 9" "fm_max_mappings (demo_mapper None) = 1"
    by (simp_all add: demo_mapper_def ttl_nanos_def)
  show ?thesis
    using fake_ip_refines_leases [OF demo_config name, where calls = "[([97, 46], 0)]" and limit = "10 ^ 15", unfolded served, OF _ demo_reuse]
    unfolding till by simp
qed

text \<open>
  C14: an address handed out for a name resolves back to that name as long as the time to live
  that was advertised with it has not passed, whatever other names are asked for in the meantime.
\<close>

theorem fake_ip_valid_for_ttl:
  assumes "from_config_with_start c strategy reserved start = Some m0"
    and "allocate_ipv4_at limit domain t (serve limit before m0) = (Some ip, m)"
    and "list_all (\<lambda>call. t \<le> snd call \<and> snd call < t + ttl_nanos m0) later"
  shows "map_option Mapped (normalize_dns_domain domain) = Some (lookup_ipv4 (serve limit later m) ip)"
proof -
  have ok: "fake_ip_ok (serve limit before m0)" and same: "same_pool m0 (serve limit before m0)"
    using serve_ok [OF from_config_ok(1) [OF assms(1)]] by simp_all
  obtain d where d: "normalize_dns_domain domain = Some d" and st: "step_ok t d (serve limit before m0) (Some ip) m"
    by (rule allocate_cases [OF ok assms(2)]) auto
  have m: "fake_ip_ok m" "same_pool m0 m" using allocate_ok [OF ok assms(2)] same same_pool_trans by blast+
  have "leases m d = Some (ip, t + ttl_nanos m)"
    using st ttl_same [OF same] ttl_same [OF m(2)] by (auto simp: step_ok_def elim: lease_step.cases)
  then obtain u where "leases (serve limit later m) d = Some (ip, u)"
    using serve_keeps_lease [OF m(1) _ order_refl] assms(3) ttl_same [OF m(2)] by fastforce
  moreover have "index_ok (serve limit later m)" using serve_ok [OF m(1)] by (simp add: fake_ip_ok_def)
  ultimately have "lookup_ipv4 (serve limit later m) ip = Mapped d" using lookup_leases by blast
  then show ?thesis by (simp add: d)
qed

theorem fake_ip_valid_for_ttl_witness:
  "lookup_ipv4 (serve (10 ^ 15) [([98], 5)] (demo_mapper (Some ([97], 60 * 10 ^ 9)))) 0xC6120001 = Mapped [97]"
proof -
  have first: "allocate_ipv4_at (10 ^ 15) [97, 46] 0 (serve (10 ^ 15) [] (demo_mapper None)) =
      (Some 0xC6120001, demo_mapper (Some ([97], 60 * 10 ^ 9)))"
    by (simp only: serve.simps demo_first)
  have name: "normalize_dns_domain [97, 46] = Some [97]" by (simp add: demo_defs)
  have soon: "list_all (\<lambda>call. 0 \<le> snd call \<and> snd call < 0 + ttl_nanos (demo_mapper None)) [([98 :: u8], 5)]"
    by (simp add: demo_mapper_def ttl_nanos_def)
  show ?thesis using fake_ip_valid_for_ttl [OF demo_config first soon] by (simp only: name option.map option.inject)
qed

end
