(* ===== verification/Xr_Hysteria.thy ===== *)
theory Xr_Hysteria
  imports Xr_Codec
begin

text \<open>
  Hysteria 2 messages, \<open>crates/xray-proxy/src/hysteria/wire.rs\<close>, and the reassembly of fragmented datagrams,
  \<open>hysteria/reassembly.rs\<close>. A datagram that is too large for one QUIC datagram is split, and the
  fragments come back together in whatever order they arrive; what arrives from elsewhere is bounded and never
  mixed into a packet it does not belong to. The \<open>Reader\<close> is its unread input. Instants and
  durations are counted in nanoseconds.
\<close>

section \<open>Messages\<close>

definition TCP_REQUEST_ID :: nat where "TCP_REQUEST_ID = 0x401"
definition HY_MAX_ADDRESS :: nat where "HY_MAX_ADDRESS = 2048"
definition HY_MAX_MESSAGE :: nat where "HY_MAX_MESSAGE = 2048"
definition HY_MAX_PADDING :: nat where "HY_MAX_PADDING = 4096"
definition HY_MAX_UDP_PAYLOAD :: nat where "HY_MAX_UDP_PAYLOAD = 65535"

datatype hy_error =
  HyIncomplete | HyFrameType | HyAddress | HyMessageTooLong | HyPaddingTooLong | HyPayloadLength | HyFragment | HyDatagramLimit

record tcp_request =
  tq_address :: bytes
  tq_padding :: bytes

record tcp_response =
  tp_status :: u8
  tp_message :: bytes
  tp_padding :: bytes

record udp_message =
  um_session_id :: u32
  um_packet_id :: u16
  um_fragment_id :: u8
  um_fragment_count :: u8
  um_address :: bytes
  um_payload :: bytes

definition hy_varint :: "bytes \<Rightarrow> hy_error + (u64 \<times> bytes)" where
  "hy_varint i =
     rbind (take_u8 HyIncomplete i) (\<lambda>(b, r).
     let width = 2 ^ unat (drop_bit 6 b)
     in rbind (take_exact HyIncomplete (width - 1) r) (\<lambda>(bs, r).
        Inr (foldl (\<lambda>v b. push_bit 8 v OR ucast b) (ucast (b AND 0x3f)) bs, r)))"

definition bounded_bytes :: "nat \<Rightarrow> hy_error \<Rightarrow> bytes \<Rightarrow> hy_error + (bytes \<times> bytes)" where
  "bounded_bytes limit e i =
     rbind (hy_varint i) (\<lambda>(len, r).
     if unat len > limit then Inl e else take_exact HyIncomplete (unat len) r)"

definition validate_address :: "bytes \<Rightarrow> hy_error + unit" where
  "validate_address a = (if a = [] \<or> length a > HY_MAX_ADDRESS then Inl HyAddress else Inr ())"

definition hy_address :: "bytes \<Rightarrow> hy_error + (bytes \<times> bytes)" where
  "hy_address i =
     rbind (bounded_bytes HY_MAX_ADDRESS HyAddress i) (\<lambda>(bs, r).
     rbind (ok_or HyAddress (from_utf8 bs)) (\<lambda>a.
     rbind (validate_address a) (\<lambda>_. Inr (a, r))))"

definition varint_length :: "nat \<Rightarrow> nat" where
  "varint_length v = (if v < 64 then 1 else if v < 16384 then 2 else 4)"

definition put_varint :: "nat \<Rightarrow> bytes" where
  "put_varint v =
     (if varint_length v = 1 then [of_nat v]
      else if varint_length v = 2 then be16 (of_nat v OR 0x4000)
      else be32 (of_nat v OR 0x80000000))"

definition put_bytes :: "bytes \<Rightarrow> bytes" where
  "put_bytes bs = put_varint (length bs) @ bs"

definition read_tcp_request :: "bytes \<Rightarrow> hy_error + (tcp_request \<times> bytes)" where
  "read_tcp_request i =
     rbind (hy_varint i) (\<lambda>(ty, r).
     if unat ty \<noteq> TCP_REQUEST_ID then Inl HyFrameType
     else
       rbind (hy_address r) (\<lambda>(a, r).
       rbind (bounded_bytes HY_MAX_PADDING HyPaddingTooLong r) (\<lambda>(p, r).
       Inr (\<lparr>tq_address = a, tq_padding = p\<rparr>, r))))"

definition decode_tcp_request :: "bytes \<Rightarrow> hy_error + (tcp_request \<times> nat)" where
  "decode_tcp_request i = rbind (read_tcp_request i) (\<lambda>(q, r). Inr (q, length i - length r))"

definition encode_tcp_request :: "tcp_request \<Rightarrow> hy_error + bytes" where
  "encode_tcp_request q =
     rbind (validate_address (tq_address q)) (\<lambda>_.
     if length (tq_padding q) > HY_MAX_PADDING then Inl HyPaddingTooLong
     else Inr (put_varint TCP_REQUEST_ID @ put_bytes (tq_address q) @ put_bytes (tq_padding q)))"

definition read_tcp_response :: "bytes \<Rightarrow> hy_error + (tcp_response \<times> bytes)" where
  "read_tcp_response i =
     rbind (take_u8 HyIncomplete i) (\<lambda>(s, r).
     rbind (bounded_bytes HY_MAX_MESSAGE HyMessageTooLong r) (\<lambda>(m, r).
     rbind (bounded_bytes HY_MAX_PADDING HyPaddingTooLong r) (\<lambda>(p, r).
     Inr (\<lparr>tp_status = s, tp_message = m, tp_padding = p\<rparr>, r))))"

definition decode_tcp_response :: "bytes \<Rightarrow> hy_error + (tcp_response \<times> nat)" where
  "decode_tcp_response i = rbind (read_tcp_response i) (\<lambda>(q, r). Inr (q, length i - length r))"

definition encode_tcp_response :: "tcp_response \<Rightarrow> hy_error + bytes" where
  "encode_tcp_response q =
     (if length (tp_message q) > HY_MAX_MESSAGE then Inl HyMessageTooLong
      else if length (tp_padding q) > HY_MAX_PADDING then Inl HyPaddingTooLong
      else Inr ([tp_status q] @ put_bytes (tp_message q) @ put_bytes (tp_padding q)))"

definition header_length :: "udp_message \<Rightarrow> nat" where
  "header_length m = 8 + varint_length (length (um_address m)) + length (um_address m)"

definition validate_udp :: "udp_message \<Rightarrow> hy_error + unit" where
  "validate_udp m =
     rbind (validate_address (um_address m)) (\<lambda>_.
     if um_payload m = [] \<or> length (um_payload m) > HY_MAX_UDP_PAYLOAD then Inl HyPayloadLength
     else if um_fragment_count m = 0 \<or> um_fragment_count m > 1 \<and> um_fragment_id m \<ge> um_fragment_count m then Inl HyFragment
     else Inr ())"

definition decode_udp_message :: "bytes \<Rightarrow> hy_error + udp_message" where
  "decode_udp_message i =
     rbind (take_exact HyIncomplete 8 i) (\<lambda>(h, r).
     rbind (hy_address r) (\<lambda>(a, r).
     let m = \<lparr>um_session_id = from_be32 (take 4 h), um_packet_id = from_be16 [h ! 4, h ! 5],
              um_fragment_id = h ! 6, um_fragment_count = h ! 7, um_address = a, um_payload = r\<rparr>
     in rbind (validate_udp m) (\<lambda>_. Inr m)))"

definition encode_udp_message :: "udp_message \<Rightarrow> hy_error + bytes" where
  "encode_udp_message m =
     rbind (validate_udp m) (\<lambda>_.
     Inr (be32 (um_session_id m) @ be16 (um_packet_id m) @ [um_fragment_id m, um_fragment_count m] @
       put_bytes (um_address m) @ um_payload m))"

definition fragment_udp_message :: "udp_message \<Rightarrow> nat \<Rightarrow> hy_error + udp_message list" where
  "fragment_udp_message m max_datagram_size =
     rbind (validate_udp m) (\<lambda>_.
     if um_fragment_count m \<noteq> 1 then Inl HyFragment
     else if max_datagram_size \<le> header_length m then Inl HyDatagramLimit
     else
       let capacity = max_datagram_size - header_length m;
           count = (length (um_payload m) + (capacity - 1)) div capacity
       in rbind (ok_or HyDatagramLimit (try_u8 count)) (\<lambda>count.
          Inr (map (\<lambda>(index, payload). m\<lparr>um_fragment_id := of_nat index, um_fragment_count := count, um_payload := payload\<rparr>)
            (List.enumerate 0 (chunks capacity (um_payload m))))))"

section \<open>Reassembly\<close>

record reassembled =
  rd_session_id :: u32
  rd_address :: bytes
  rd_payload :: bytes

datatype reassembly_error = Wire hy_error | Session | Conflict | Budget | Limits

record partial_packet =
  pp_packet_id :: u16
  pp_address :: bytes
  pp_first_seen :: nat
  pp_fragments :: "bytes option list"
  pp_received :: nat
  pp_size :: nat

record reassembler =
  re_session_id :: u32
  re_max_payload :: nat
  re_timeout :: nat
  re_partial :: "partial_packet option"

definition reassembler_new :: "u32 \<Rightarrow> nat \<Rightarrow> nat \<Rightarrow> reassembly_error + reassembler" where
  "reassembler_new session_id max_payload timeout =
     (if max_payload = 0 \<or> max_payload > HY_MAX_UDP_PAYLOAD \<or> timeout = 0 then Inl Limits
      else Inr \<lparr>re_session_id = session_id, re_max_payload = max_payload, re_timeout = timeout, re_partial = None\<rparr>)"

definition buffered_payload_bytes :: "reassembler \<Rightarrow> nat" where
  "buffered_payload_bytes r = (case re_partial r of None \<Rightarrow> 0 | Some p \<Rightarrow> pp_size p)"

definition expire :: "nat \<Rightarrow> reassembler \<Rightarrow> reassembler" where
  "expire now r =
     (case re_partial r of
        None \<Rightarrow> r
      | Some p \<Rightarrow> if now - pp_first_seen p \<ge> re_timeout r then r\<lparr>re_partial := None\<rparr> else r)"

definition clear :: "reassembler \<Rightarrow> reassembler" where
  "clear r = r\<lparr>re_partial := None\<rparr>"

text \<open>The partial packet a message belongs to, a fresh one if there is none.\<close>

definition partial_for :: "udp_message \<Rightarrow> nat \<Rightarrow> reassembler \<Rightarrow> partial_packet" where
  "partial_for m now r =
     (let fresh = \<lparr>pp_packet_id = um_packet_id m, pp_address = um_address m, pp_first_seen = now,
            pp_fragments = replicate (unat (um_fragment_count m)) None, pp_received = 0, pp_size = 0\<rparr>
      in case re_partial r of
           None \<Rightarrow> fresh
         | Some p \<Rightarrow>
             if pp_packet_id p \<noteq> um_packet_id m \<or> length (pp_fragments p) \<noteq> unat (um_fragment_count m) then fresh else p)"

text \<open>A result of \<open>None\<close> is a panic: an index or a subtraction out of range, or a fragment missing.\<close>

type_synonym feed_result = "(reassembly_error + reassembled option) option \<times> reassembler"

definition feed_fragment :: "udp_message \<Rightarrow> partial_packet \<Rightarrow> reassembler \<Rightarrow> feed_result" where
  "feed_fragment m p r =
     (let r = r\<lparr>re_partial := Some p\<rparr>
      in if pp_address p \<noteq> um_address m then (Some (Inl Conflict), clear r)
         else (case nth_get (pp_fragments p) (unat (um_fragment_id m)) of
             None \<Rightarrow> (None, r)
           | Some (Some existing) \<Rightarrow>
               if existing = um_payload m then (Some (Inr None), r) else (Some (Inl Conflict), clear r)
           | Some None \<Rightarrow>
               if re_max_payload r < pp_size p then (None, r)
               else if length (um_payload m) > re_max_payload r - pp_size p then (Some (Inl Budget), clear r)
               else
                 let p = p\<lparr>pp_fragments := (pp_fragments p)[unat (um_fragment_id m) := Some (um_payload m)],
                           pp_size := pp_size p + length (um_payload m), pp_received := pp_received p + 1\<rparr>
                 in if pp_received p \<noteq> length (pp_fragments p) then (Some (Inr None), r\<lparr>re_partial := Some p\<rparr>)
                    else if None \<in> set (pp_fragments p) then (None, clear r)
                    else (Some (Inr (Some \<lparr>rd_session_id = re_session_id r, rd_address = pp_address p,
                            rd_payload = concat (map the (pp_fragments p))\<rparr>)), clear r)))"

definition feed :: "udp_message \<Rightarrow> nat \<Rightarrow> reassembler \<Rightarrow> feed_result" where
  "feed m now r =
     (let r = expire now r
      in case validate_udp m of
           Inl e \<Rightarrow> (Some (Inl (Wire e)), r)
         | Inr _ \<Rightarrow>
             if um_session_id m \<noteq> re_session_id r then (Some (Inl Session), r)
             else if um_fragment_count m = 1 then
               if length (um_payload m) > re_max_payload r then (Some (Inl Budget), r)
               else (Some (Inr (Some \<lparr>rd_session_id = re_session_id r, rd_address = um_address m, rd_payload = um_payload m\<rparr>)), r)
             else if length (um_payload m) > re_max_payload r then (Some (Inl Budget), clear r)
             else feed_fragment m (partial_for m now r) r)"

section \<open>Variable-length integers\<close>

lemma from_be_be_bytes_ucast:
  fixes w :: "'a::len word"
  assumes "LENGTH('a) \<le> 8 * n"
  shows "from_be (be_bytes n w) = (ucast w :: 'b::len word)"
proof (rule bit_word_eqI)
  fix k assume k: "k < LENGTH('b)"
  show "bit (from_be (be_bytes n w) :: 'b word) k = bit (ucast w :: 'b word) k"
  proof (cases "k < 8 * n")
    case True
    then have "k div 8 < n" by (simp add: less_mult_imp_div_less)
    then show ?thesis using k True by (auto simp: bit_from_be bit_ucast_iff bit_drop_bit_eq nth_be_bytes)
  next
    case False
    then show ?thesis using k assms bit_imp_le_length [of w k] by (auto simp: bit_from_be bit_ucast_iff)
  qed
qed

lemma from_be_Cons_masked:
  "foldl (\<lambda>v b. push_bit 8 v OR ucast b) (ucast (b AND 0x3f)) bs = (from_be ((b AND 0x3f) # bs) :: u64)"
  by (simp add: from_be_def)

lemma bit_low6: "bit (b AND 0x3f :: u8) k \<longleftrightarrow> k < 6 \<and> bit b k"
proof -
  have m: "(0x3f :: u8) = mask 6" by (simp add: mask_eq_exp_minus_1)
  show ?thesis unfolding m by (auto simp: bit_and_iff bit_mask_iff)
qed

lemma masked_value:
  fixes w :: "'a::len word"
  assumes n: "LENGTH('a) = 8 * n" "be_bytes n w = b # bs"
  shows "from_be ((b AND 0x3f) # bs) = (ucast (take_bit (8 * n - 2) w) :: u64)"
proof (rule bit_word_eqI)
  fix k assume k: "k < LENGTH(64)"
  have len: "n = Suc (length bs)" using arg_cong [OF n(2), of length] by simp
  show "bit (from_be ((b AND 0x3f) # bs) :: u64) k = bit (ucast (take_bit (8 * n - 2) w) :: u64) k"
  proof (cases "k < 8 * n")
    case True
    then have d: "k div 8 < n" by (simp add: less_mult_imp_div_less)
    have at: "(b # bs) ! (n - 1 - k div 8) = ucast (drop_bit (8 * (k div 8)) w)"
      using d nth_be_bytes [of "n - 1 - k div 8" n w] by (simp add: n(2))
    have whole: "bit ((b # bs) ! (n - 1 - k div 8)) (k mod 8) = bit w k"
      unfolding at by (simp add: bit_ucast_iff bit_drop_bit_eq)
    show ?thesis
    proof (cases "k div 8 = n - 1")
      case first: True
      then have "k mod 8 < 6 \<longleftrightarrow> k < 8 * n - 2" using True len div_mult_mod_eq [of k 8] by arith
      then show ?thesis using k True first whole by (auto simp: bit_from_be bit_low6 bit_ucast_iff bit_take_bit_iff len)
    next
      case False
      then have "k < 8 * n - 2" using d div_mult_mod_eq [of k 8] by arith
      moreover have "n - 1 - k div 8 = Suc (n - 2 - k div 8)" using False d by arith
      ultimately show ?thesis using k True whole by (simp add: bit_from_be bit_ucast_iff bit_take_bit_iff len)
    qed
  next
    case False
    then show ?thesis using k by (auto simp: bit_from_be bit_ucast_iff bit_take_bit_iff len)
  qed
qed

lemma streams_varint:
  fixes w :: "'a::len word"
  assumes n: "LENGTH('a) = 8 * n" "n = 2 ^ p" "p < 4" and top: "drop_bit (8 * n - 2) w = of_nat p"
  shows "streams HyIncomplete hy_varint (be_bytes n w) (ucast (take_bit (8 * n - 2) w))"
proof -
  obtain b bs where b: "be_bytes n w = b # bs" using n(2) by (metis length_be_bytes list.exhaust list.size(3) power_not_zero zero_neq_numeral)
  then have "Suc (length bs) = length (be_bytes n w)" by (simp only: length_Cons)
  then have len: "length bs = 2 ^ p - 1" unfolding length_be_bytes n(2) by simp
  have "0 < n" using n(2) by simp
  then have "b = ucast (drop_bit (8 * (n - 1)) w)" using nth_be_bytes [of 0 n w] unfolding b by simp
  moreover have "bit (ucast (drop_bit (8 * (n - 1)) w) :: u8) (6 + k) = bit (ucast (drop_bit (8 * n - 2) w) :: u8) k"
    if "k < LENGTH(8)" for k
  proof -
    have i: "8 * (n - 1) + (6 + k) = 8 * n - 2 + k" using \<open>0 < n\<close> by arith
    show ?thesis
      using that bit_imp_le_length [of w "8 * n - 2 + k"] n(1)
      by (auto simp add: bit_ucast_iff bit_drop_bit_eq simp flip: i)
  qed
  ultimately have "drop_bit 6 b = ucast (drop_bit (8 * n - 2) w)"
    by (intro bit_word_eqI) (simp only: bit_drop_bit_eq comp_def)
  moreover have "unat (ucast (of_nat p :: 'a word) :: u8) = p"
  proof -
    have "(2 :: nat) ^ 2 \<le> 2 ^ LENGTH('a)" using n(1) \<open>0 < n\<close> by (intro power_increasing) simp_all
    then show ?thesis using n(3) by (simp add: unsigned_ucast_eq unat_of_nat take_bit_nat_eq_self)
  qed
  ultimately have p: "unat (drop_bit 6 b) = p" by (simp only: top)
  have "streams HyIncomplete hy_varint ([b] @ bs @ []) (from_be ((b AND 0x3f) # bs))"
    unfolding hy_varint_def [abs_def] from_be_Cons_masked
    by (rule streams_bind [OF streams_u8]) (use len in \<open>simp only: Let_def p, intro streams_bind [OF streams_take] streams_return\<close>)
  then show ?thesis using masked_value [OF n(1) b] b by simp
qed

lemma ucast_of_nat_u64: "v < 2 ^ LENGTH('a) \<Longrightarrow> v < 2 ^ 64 \<Longrightarrow> (ucast (of_nat v :: 'a::len word) :: u64) = of_nat v"
proof -
  assume v: "v < 2 ^ LENGTH('a)" "v < 2 ^ 64"
  have "unat (ucast (of_nat v :: 'a word) :: u64) = v" "unat (of_nat v :: u64) = v"
    using v by (simp_all add: unsigned_ucast_eq unat_of_nat take_bit_nat_eq_self)
  then show ?thesis by (metis word_unat_eq_iff)
qed

lemma put_varint_reads:
  assumes "v < 2 ^ 30"
  shows "streams HyIncomplete hy_varint (put_varint v) (of_nat v)"
proof -
  consider "v < 64" | "64 \<le> v" "v < 16384" | "16384 \<le> v" by linarith
  then show ?thesis
  proof cases
    case 1
    let ?w = "of_nat v OR 0 :: u8"
    have w: "drop_bit 6 ?w = 0" "take_bit 6 ?w = of_nat v" by (rule flagged [where g = 0]; use 1 in simp)+
    have "streams HyIncomplete hy_varint (be_bytes 1 ?w) (ucast (take_bit (8 * 1 - 2) ?w))"
      by (rule streams_varint [of 1 0]) (use w in simp_all)
    then show ?thesis
      using 1 w(2) ucast_of_nat_u64 [of v, where 'a = 8] by (simp add: put_varint_def varint_length_def be_bytes_def)
  next
    case 2
    let ?w = "of_nat v OR 0x4000 :: u16"
    have w: "drop_bit 14 ?w = 1" "take_bit 14 ?w = of_nat v" by (rule flagged [where g = 1]; use 2 in simp)+
    have "streams HyIncomplete hy_varint (be_bytes 2 ?w) (ucast (take_bit (8 * 2 - 2) ?w))"
      by (rule streams_varint [of 2 1]) (use w in simp_all)
    then show ?thesis
      using 2 w(2) ucast_of_nat_u64 [of v, where 'a = 16] by (simp add: put_varint_def varint_length_def be16_def)
  next
    case 3
    let ?w = "of_nat v OR 0x80000000 :: u32"
    have w: "drop_bit 30 ?w = 2" "take_bit 30 ?w = of_nat v" by (rule flagged [where g = 2]; use assms in simp)+
    have "streams HyIncomplete hy_varint (be_bytes 4 ?w) (ucast (take_bit (8 * 4 - 2) ?w))"
      by (rule streams_varint [of 4 2]) (use w in simp_all)
    then show ?thesis
      using 3 assms w(2) ucast_of_nat_u64 [of v, where 'a = 32] by (simp add: put_varint_def varint_length_def be32_def)
  qed
qed

lemma put_varint_length: "length (put_varint v) = varint_length v"
  by (simp add: put_varint_def varint_length_def)

section \<open>Wire format\<close>

lemma streams_bounded:
  assumes "length bs \<le> limit" "length bs < 2 ^ 30"
  shows "streams HyIncomplete (bounded_bytes limit e) (put_bytes bs) bs"
proof -
  have len: "unat (of_nat (length bs) :: u64) = length bs"
    using assms(2) by (simp add: unat_of_nat take_bit_nat_eq_self)
  show ?thesis
    unfolding put_bytes_def bounded_bytes_def [abs_def]
    by (rule streams_bind [OF put_varint_reads [OF assms(2)]], rule streams_if) (use assms len in \<open>simp_all add: streams_take\<close>)
qed

definition address_ok :: "bytes \<Rightarrow> bool" where
  "address_ok a \<longleftrightarrow> utf8_valid a \<and> a \<noteq> [] \<and> length a \<le> HY_MAX_ADDRESS"

lemma validate_address_Inr [simp]: "validate_address a = Inr u \<longleftrightarrow> a \<noteq> [] \<and> length a \<le> HY_MAX_ADDRESS"
  by (auto simp: validate_address_def)

lemma streams_address:
  assumes "address_ok a"
  shows "streams HyIncomplete hy_address (put_bytes a) a"
proof -
  have v: "validate_address a = Inr ()" and u: "utf8_valid a" using assms by (simp_all add: address_ok_def)
  have "streams HyIncomplete hy_address (put_bytes a @ []) a"
    unfolding hy_address_def [abs_def]
    by (rule streams_bind [OF streams_bounded])
      (use assms in \<open>simp_all add: address_ok_def HY_MAX_ADDRESS_def v [unfolded HY_MAX_ADDRESS_def] streams_return\<close>)
  then show ?thesis by simp
qed

definition tcp_request_ok :: "tcp_request \<Rightarrow> bool" where
  "tcp_request_ok q \<longleftrightarrow> address_ok (tq_address q) \<and> length (tq_padding q) \<le> HY_MAX_PADDING"

definition tcp_request_wire :: "tcp_request \<Rightarrow> bytes" where
  "tcp_request_wire q = put_varint TCP_REQUEST_ID @ put_bytes (tq_address q) @ put_bytes (tq_padding q)"

lemma encode_tcp_request_Inr:
  "encode_tcp_request q = Inr w \<and> utf8_valid (tq_address q) \<longleftrightarrow> tcp_request_ok q \<and> w = tcp_request_wire q"
  by (auto simp: encode_tcp_request_def tcp_request_ok_def tcp_request_wire_def address_ok_def rbind_eq_Inr)

lemma streams_tcp_request:
  assumes "tcp_request_ok q"
  shows "streams HyIncomplete read_tcp_request (tcp_request_wire q) q"
proof -
  have ok: "address_ok (tq_address q)" "length (tq_padding q) \<le> HY_MAX_PADDING" "length (tq_padding q) < 2 ^ 30"
    using assms by (simp_all add: tcp_request_ok_def HY_MAX_PADDING_def)
  have ty: "\<not> unat (of_nat TCP_REQUEST_ID :: u64) \<noteq> TCP_REQUEST_ID" by (simp add: TCP_REQUEST_ID_def)
  have id: "TCP_REQUEST_ID < 2 ^ 30" by (simp add: TCP_REQUEST_ID_def)
  have w: "tcp_request_wire q = put_varint TCP_REQUEST_ID @ put_bytes (tq_address q) @ put_bytes (tq_padding q) @ []"
    by (simp add: tcp_request_wire_def)
  show ?thesis
    unfolding w read_tcp_request_def [abs_def]
    by (rule streams_bind [OF put_varint_reads [OF id]], rule streams_if [OF ty],
        rule streams_bind [OF streams_address [OF ok(1)]], rule streams_bind [OF streams_bounded [OF ok(2,3)]])
      (cases q, simp add: streams_return)
qed

interpretation hyq: incremental_codec tcp_request_ok tcp_request_wire "parser_dec read_tcp_request"
  "parser_need HyIncomplete read_tcp_request"
  by (rule incremental_codec_streams [OF streams_tcp_request])
    (simp_all add: tcp_request_wire_def put_varint_def varint_length_def TCP_REQUEST_ID_def be16_def be_bytes_def)

definition tcp_response_ok :: "tcp_response \<Rightarrow> bool" where
  "tcp_response_ok q \<longleftrightarrow> length (tp_message q) \<le> HY_MAX_MESSAGE \<and> length (tp_padding q) \<le> HY_MAX_PADDING"

definition tcp_response_wire :: "tcp_response \<Rightarrow> bytes" where
  "tcp_response_wire q = [tp_status q] @ put_bytes (tp_message q) @ put_bytes (tp_padding q)"

lemma encode_tcp_response_Inr: "encode_tcp_response q = Inr w \<longleftrightarrow> tcp_response_ok q \<and> w = tcp_response_wire q"
  by (auto simp: encode_tcp_response_def tcp_response_ok_def tcp_response_wire_def)

lemma streams_tcp_response:
  assumes "tcp_response_ok q"
  shows "streams HyIncomplete read_tcp_response (tcp_response_wire q) q"
proof -
  have ok: "length (tp_message q) \<le> HY_MAX_MESSAGE" "length (tp_message q) < 2 ^ 30"
    "length (tp_padding q) \<le> HY_MAX_PADDING" "length (tp_padding q) < 2 ^ 30"
    using assms by (simp_all add: tcp_response_ok_def HY_MAX_PADDING_def HY_MAX_MESSAGE_def)
  have w: "tcp_response_wire q = [tp_status q] @ put_bytes (tp_message q) @ put_bytes (tp_padding q) @ []"
    by (simp add: tcp_response_wire_def)
  show ?thesis
    unfolding w read_tcp_response_def [abs_def]
    by (rule streams_bind [OF streams_u8], rule streams_bind [OF streams_bounded [OF ok(1,2)]],
        rule streams_bind [OF streams_bounded [OF ok(3,4)]]) (cases q, simp add: streams_return)
qed

interpretation hyp: incremental_codec tcp_response_ok tcp_response_wire "parser_dec read_tcp_response"
  "parser_need HyIncomplete read_tcp_response"
  by (rule incremental_codec_streams [OF streams_tcp_response]) (simp_all add: tcp_response_wire_def)

text \<open>Requests and responses are read back from the front of a stream; the offset leaves what follows untouched.\<close>

lemma decode_tcp_wire:
  "tcp_request_ok q \<Longrightarrow> decode_tcp_request (tcp_request_wire q @ rest) = Inr (q, length (tcp_request_wire q))"
  "tcp_response_ok p \<Longrightarrow> decode_tcp_response (tcp_response_wire p @ rest) = Inr (p, length (tcp_response_wire p))"
  by (simp_all add: decode_tcp_request_def decode_tcp_response_def streamsD [OF streams_tcp_request] streamsD [OF streams_tcp_response])

definition udp_message_ok :: "udp_message \<Rightarrow> bool" where
  "udp_message_ok m \<longleftrightarrow> utf8_valid (um_address m) \<and> validate_udp m = Inr ()"

lemma validate_udp_Inr:
  "validate_udp m = Inr u \<longleftrightarrow>
     um_address m \<noteq> [] \<and> length (um_address m) \<le> HY_MAX_ADDRESS \<and> um_payload m \<noteq> [] \<and> length (um_payload m) \<le> HY_MAX_UDP_PAYLOAD \<and>
     um_fragment_count m \<noteq> 0 \<and> (um_fragment_count m > 1 \<longrightarrow> um_fragment_id m < um_fragment_count m)"
  by (auto simp: validate_udp_def rbind_eq_Inr)

lemma udp_message_round_trip:
  assumes ok: "udp_message_ok m"
  obtains w where "encode_udp_message m = Inr w" "decode_udp_message w = Inr m"
    "length w = header_length m + length (um_payload m)"
proof -
  let ?h = "be32 (um_session_id m) @ be16 (um_packet_id m) @ [um_fragment_id m, um_fragment_count m]"
  let ?w = "?h @ put_bytes (um_address m) @ um_payload m"
  have v: "validate_udp m = Inr ()" using ok by (simp add: udp_message_ok_def)
  have "address_ok (um_address m)" using ok by (simp add: udp_message_ok_def address_ok_def validate_udp_Inr)
  then have a: "hy_address (put_bytes (um_address m) @ um_payload m) = Inr (um_address m, um_payload m)"
    by (rule streamsD [OF streams_address])
  obtain p q where pq: "be16 (um_packet_id m) = [p, q]" "from_be16 [p, q] = um_packet_id m" by (rule be16_split)
  have h: "take_exact HyIncomplete 8 ?w = Inr (?h, put_bytes (um_address m) @ um_payload m)"
    by (simp add: take_exact_def)
  have m: "\<lparr>um_session_id = um_session_id m, um_packet_id = um_packet_id m, um_fragment_id = um_fragment_id m,
      um_fragment_count = um_fragment_count m, um_address = um_address m, um_payload = um_payload m\<rparr> = m" by (cases m) simp
  have "decode_udp_message ?w = Inr m"
    using v unfolding decode_udp_message_def h by (simp add: a nth_append pq Let_def m)
  moreover have "encode_udp_message m = Inr ?w" by (simp add: encode_udp_message_def v)
  moreover have "length ?w = header_length m + length (um_payload m)"
    by (simp add: header_length_def put_bytes_def put_varint_length)
  ultimately show thesis using that by blast
qed

section \<open>Fragments\<close>

text \<open>The fragments of a message, by their position.\<close>

lemma fragment_udp_Inr:
  assumes "fragment_udp_message m mx = Inr fs"
  obtains c cs where "validate_udp m = Inr ()" "um_fragment_count m = 1" "mx = header_length m + c" "0 < c"
    "cs = chunks c (um_payload m)" "length cs < 256"
    "fs = map (\<lambda>i. m\<lparr>um_fragment_id := of_nat i, um_fragment_count := of_nat (length cs), um_payload := cs ! i\<rparr>) [0..<length cs]"
proof -
  let ?c = "mx - header_length m"
  let ?cs = "chunks ?c (um_payload m)"
  have mx: "header_length m < mx" and v: "validate_udp m = Inr ()" "um_fragment_count m = 1"
    and n: "(length (um_payload m) + (?c - 1)) div ?c < 256"
    and fs: "fs = map (\<lambda>(index, payload). m\<lparr>um_fragment_id := of_nat index,
        um_fragment_count := of_nat ((length (um_payload m) + (?c - 1)) div ?c), um_payload := payload\<rparr>) (List.enumerate 0 ?cs)"
    using assms by (auto simp: fragment_udp_message_def rbind_eq_Inr Let_def try_u8_Some split: if_splits)
  have len: "length ?cs = (length (um_payload m) + (?c - 1)) div ?c" using mx by (intro chunks_length) simp
  show thesis
  proof (rule that [of ?c ?cs])
    show "fs = map (\<lambda>i. m\<lparr>um_fragment_id := of_nat i, um_fragment_count := of_nat (length ?cs), um_payload := ?cs ! i\<rparr>) [0..<length ?cs]"
      unfolding fs len [symmetric] by (rule nth_equalityI) (simp_all add: nth_enumerate_eq)
  qed (use mx v n len in simp_all)
qed

lemma fragments_ok:
  assumes "fragment_udp_message m mx = Inr fs" "utf8_valid (um_address m)" "f \<in> set fs"
  shows "udp_message_ok f \<and> header_length f + length (um_payload f) \<le> mx"
proof -
  obtain c cs where m: "validate_udp m = Inr ()" "um_fragment_count m = 1" "mx = header_length m + c" "0 < c"
    and cs: "cs = chunks c (um_payload m)" "length cs < 256"
    and fs: "fs = map (\<lambda>i. m\<lparr>um_fragment_id := of_nat i, um_fragment_count := of_nat (length cs), um_payload := cs ! i\<rparr>) [0..<length cs]"
    using fragment_udp_Inr [OF assms(1)] .
  obtain i where i: "i < length cs"
    and f: "f = m\<lparr>um_fragment_id := of_nat i, um_fragment_count := of_nat (length cs), um_payload := cs ! i\<rparr>"
    using assms(3) by (auto simp: fs)
  have part: "cs ! i \<noteq> []" "length (cs ! i) \<le> c" using chunks_lengths [of "cs ! i" c "um_payload m"] i by (auto simp: cs(1))
  have "length (cs ! i) \<le> length (concat cs)" using i by (metis nth_mem sum_list_map_remove1 length_concat le_add1 map_eq_conv)
  then have "length (cs ! i) \<le> length (um_payload m)" using chunks_concat [OF m(4), of "um_payload m"] by (simp add: cs(1))
  moreover have "(of_nat (length cs) :: u8) \<noteq> 0" "(of_nat i :: u8) < of_nat (length cs)"
    using i cs(2) by (auto simp: word_less_nat_alt unat_eq_zero [symmetric])
  ultimately show ?thesis using m part assms(2) by (auto simp: f udp_message_ok_def validate_udp_Inr header_length_def)
qed

section \<open>A series of messages\<close>

fun feed_all :: "(udp_message \<times> nat) list \<Rightarrow> reassembler \<Rightarrow> (reassembly_error + reassembled option) option list \<times> reassembler" where
  "feed_all [] r = ([], r)"
| "feed_all ((m, now) # rest) r =
     (case feed m now r of (x, r) \<Rightarrow> case feed_all rest r of (xs, r) \<Rightarrow> (x # xs, r))"

text \<open>A message that does not touch the partial packet: unfragmented, or of another session.\<close>

definition passes_by :: "reassembler \<Rightarrow> udp_message \<Rightarrow> bool" where
  "passes_by r m \<longleftrightarrow> um_fragment_count m = 1 \<or> um_session_id m \<noteq> re_session_id r"

lemma expire_same [simp]:
  "re_session_id (expire now r) = re_session_id r" "re_max_payload (expire now r) = re_max_payload r"
  "re_timeout (expire now r) = re_timeout r"
  by (simp_all add: expire_def split: option.split)

lemma feed_passes_by: "passes_by r m \<Longrightarrow> snd (feed m now r) = expire now r"
  by (auto simp: feed_def passes_by_def Let_def split: sum.split)

lemma feed_is_fragment:
  assumes "validate_udp m = Inr ()" "um_session_id m = re_session_id r" "um_fragment_count m \<noteq> 1"
    "length (um_payload m) \<le> re_max_payload r"
  shows "feed m now r = feed_fragment m (partial_for m now (expire now r)) (expire now r)"
  using assms by (simp add: feed_def Let_def)

text \<open>The partial packet after the fragments \<open>S\<close> of a message with the payloads \<open>cs\<close>.\<close>

definition partial_of :: "udp_message \<Rightarrow> bytes list \<Rightarrow> nat set \<Rightarrow> nat \<Rightarrow> partial_packet" where
  "partial_of m cs S t =
     \<lparr>pp_packet_id = um_packet_id m, pp_address = um_address m, pp_first_seen = t,
      pp_fragments = map (\<lambda>i. if i \<in> S then Some (cs ! i) else None) [0..<length cs],
      pp_received = card S, pp_size = (\<Sum>i\<in>S. length (cs ! i))\<rparr>"

definition fragment_at :: "udp_message \<Rightarrow> bytes list \<Rightarrow> nat \<Rightarrow> udp_message" where
  "fragment_at m cs i = m\<lparr>um_fragment_id := of_nat i, um_fragment_count := of_nat (length cs), um_payload := cs ! i\<rparr>"

lemma fragment_at_simps [simp]:
  "um_session_id (fragment_at m cs i) = um_session_id m" "um_packet_id (fragment_at m cs i) = um_packet_id m"
  "um_address (fragment_at m cs i) = um_address m" "um_payload (fragment_at m cs i) = cs ! i"
  "um_fragment_id (fragment_at m cs i) = of_nat i" "um_fragment_count (fragment_at m cs i) = of_nat (length cs)"
  by (simp_all add: fragment_at_def)

lemma sum_chunks: "(\<Sum>i<length cs. length (cs ! i)) = length (concat cs)"
  by (simp add: length_concat sum_list_sum_nth atLeast0LessThan)

lemma feed_fragment_partial:
  assumes i: "i < length cs" "length cs < 256" and S: "S \<subseteq> {..<length cs}" and max: "length (concat cs) \<le> re_max_payload r"
  shows "feed_fragment (fragment_at m cs i) (partial_of m cs S t) r =
    (if insert i S = {..<length cs} \<and> i \<notin> S
     then (Some (Inr (Some \<lparr>rd_session_id = re_session_id r, rd_address = um_address m, rd_payload = concat cs\<rparr>)), clear r)
     else (Some (Inr None), r\<lparr>re_partial := Some (partial_of m cs (insert i S) t)\<rparr>))"
proof (cases "i \<in> S")
  case True
  then show ?thesis
    using i by (simp add: feed_fragment_def partial_of_def nth_get_def insert_absorb)
next
  case False
  have fin: "finite S" using S finite_subset by blast
  let ?frs = "\<lambda>S. map (\<lambda>j. if j \<in> S then Some (cs ! j) else None) [0..<length cs]"
  have upd: "(?frs S)[i := Some (cs ! i)] = ?frs (insert i S)"
    by (rule nth_equalityI) (use i(1) in \<open>auto simp: nth_list_update\<close>)
  have size: "(\<Sum>j\<in>insert i S. length (cs ! j)) = length (cs ! i) + (\<Sum>j\<in>S. length (cs ! j))" using fin False by simp
  have "(\<Sum>j\<in>insert i S. length (cs ! j)) \<le> (\<Sum>j<length cs. length (cs ! j))" using S i by (intro sum_mono2) auto
  then have fits: "length (cs ! i) \<le> re_max_payload r - (\<Sum>j\<in>S. length (cs ! j))" "(\<Sum>j\<in>S. length (cs ! j)) \<le> re_max_payload r"
    using max unfolding sum_chunks size by linarith+
  have card: "card (insert i S) = Suc (card S)" using fin False by simp
  have full: "Suc (card S) = length cs \<longleftrightarrow> insert i S = {..<length cs}"
    unfolding card [symmetric] using card_subset_eq [of "{..<length cs}" "insert i S"] S i by auto
  have all: "map (\<lambda>j. if j < length cs then Some (cs ! j) else None) [0..<length cs] = map Some cs" by (rule nth_equalityI) auto
  show ?thesis
  proof (cases "insert i S = {..<length cs}")
    case True
    then show ?thesis
      using i False fits full
      by (simp add: feed_fragment_def partial_of_def nth_get_def upd all clear_def Let_def comp_def image_iff)
  next
    case more: False
    then show ?thesis
      using i False fits full
      by (simp add: feed_fragment_def partial_of_def nth_get_def upd [simplified] card size Let_def add.commute)
  qed
qed

text \<open>A reassembler with the fragments \<open>S\<close> of a message, the first of them not before \<open>t0\<close>.\<close>

definition holding :: "udp_message \<Rightarrow> bytes list \<Rightarrow> nat \<Rightarrow> nat set \<Rightarrow> reassembler \<Rightarrow> bool" where
  "holding m cs t0 S r \<longleftrightarrow>
     (if S = {} then (case re_partial r of None \<Rightarrow> True | Some p \<Rightarrow> pp_packet_id p \<noteq> um_packet_id m)
      else (\<exists>t \<ge> t0. re_partial r = Some (partial_of m cs S t)))"

lemma partial_for_holding:
  assumes h: "holding m cs t0 S r" and t: "t0 \<le> now" "now < t0 + re_timeout r" and n: "length cs < 256"
  shows "\<exists>t \<ge> t0. partial_for (fragment_at m cs i) now (expire now r) = partial_of m cs S t"
proof (cases "S = {}")
  case True
  have "partial_for (fragment_at m cs i) now (expire now r) = partial_of m cs {} now"
    using h n True
    by (auto simp: holding_def partial_for_def expire_def partial_of_def map_replicate_const Let_def split: option.splits)
  then show ?thesis using True t(1) by blast
next
  case False
  then obtain t where t': "t0 \<le> t" "re_partial r = Some (partial_of m cs S t)" using h by (auto simp: holding_def)
  then have "\<not> now - t \<ge> re_timeout r" using t by linarith
  then have "partial_for (fragment_at m cs i) now (expire now r) = partial_of m cs S t"
    using t' n by (simp add: partial_for_def expire_def partial_of_def Let_def)
  then show ?thesis using t'(1) by blast
qed

lemma holding_expire:
  assumes h: "holding m cs t0 S r" and t: "t0 \<le> now" "now < t0 + re_timeout r"
  shows "holding m cs t0 S (expire now r)"
proof (cases "S = {}")
  case True
  then show ?thesis using h by (auto simp: holding_def expire_def split: option.splits)
next
  case False
  then obtain t where t': "t0 \<le> t" "re_partial r = Some (partial_of m cs S t)" using h by (auto simp: holding_def)
  then have "\<not> now - t \<ge> re_timeout r" using t by linarith
  then have "expire now r = r" using t' by (simp add: expire_def partial_of_def)
  then show ?thesis using h by simp
qed

definition same_limits :: "reassembler \<Rightarrow> reassembler \<Rightarrow> bool" where
  "same_limits r r' \<longleftrightarrow> re_session_id r' = re_session_id r \<and> re_max_payload r' = re_max_payload r \<and> re_timeout r' = re_timeout r"

text \<open>What a run needs of the message \<open>m\<close> with the payloads \<open>cs\<close> and of the reassembler.\<close>

definition carries :: "udp_message \<Rightarrow> bytes list \<Rightarrow> reassembler \<Rightarrow> bool" where
  "carries m cs r \<longleftrightarrow> 1 < length cs \<and> length cs < 256 \<and> um_session_id m = re_session_id r \<and>
     length (concat cs) \<le> re_max_payload r \<and> (\<forall>i < length cs. validate_udp (fragment_at m cs i) = Inr ())"

lemma same_limits_trans: "same_limits a b \<Longrightarrow> same_limits b c \<Longrightarrow> same_limits a c"
  by (simp add: same_limits_def)

lemma carries_same: "same_limits r r' \<Longrightarrow> carries m cs r \<Longrightarrow> carries m cs r'"
  by (simp add: carries_def same_limits_def)

lemma feed_holding:
  assumes c: "carries m cs r" and h: "holding m cs t0 S r" and S: "S \<subseteq> {..<length cs}" and i: "i < length cs"
    and t: "t0 \<le> now" "now < t0 + re_timeout r" and f: "feed (fragment_at m cs i) now r = (x, r')"
  shows "if insert i S = {..<length cs} \<and> i \<notin> S
    then x = Some (Inr (Some \<lparr>rd_session_id = um_session_id m, rd_address = um_address m, rd_payload = concat cs\<rparr>)) \<and> re_partial r' = None
    else x = Some (Inr None) \<and> same_limits r r' \<and> holding m cs t0 (insert i S) r'"
proof -
  have n: "1 < length cs" "length cs < 256" using c by (simp_all add: carries_def)
  obtain t where t': "t0 \<le> t" "partial_for (fragment_at m cs i) now (expire now r) = partial_of m cs S t"
    using partial_for_holding [OF h t n(2)] by blast
  have "length (cs ! i) \<le> length (concat cs)" using i by (metis nth_mem sum_list_map_remove1 length_concat le_add1 map_eq_conv)
  then have small: "length (um_payload (fragment_at m cs i)) \<le> re_max_payload r" using c by (simp add: carries_def)
  have many: "um_fragment_count (fragment_at m cs i) \<noteq> 1"
  proof
    assume "um_fragment_count (fragment_at m cs i) = 1"
    then have "unat (of_nat (length cs) :: u8) = 1" by simp
    then show False using n by simp
  qed
  have v: "validate_udp (fragment_at m cs i) = Inr ()" "um_session_id (fragment_at m cs i) = re_session_id r"
    using c i by (simp_all add: carries_def)
  have "length (concat cs) \<le> re_max_payload (expire now r)" using c by (simp add: carries_def)
  from feed_fragment_partial [OF i n(2) S this, of m t]
  have "feed (fragment_at m cs i) now r = (if insert i S = {..<length cs} \<and> i \<notin> S
     then (Some (Inr (Some \<lparr>rd_session_id = re_session_id r, rd_address = um_address m, rd_payload = concat cs\<rparr>)), clear (expire now r))
     else (Some (Inr None), (expire now r)\<lparr>re_partial := Some (partial_of m cs (insert i S) t)\<rparr>))"
    by (simp only: feed_is_fragment [OF v many small] t'(2) expire_same)
  then show ?thesis
    using f c t'(1) by (auto simp: carries_def clear_def same_limits_def holding_def split: if_splits)
qed

lemma fragment_at_inj:
  assumes "i < length cs" "j < length cs" "length cs < 256" "fragment_at m cs i = fragment_at m cs j"
  shows "i = j"
proof -
  have "(of_nat i :: u8) = of_nat j" using arg_cong [OF assms(4), of um_fragment_id] by simp
  then have "unat (of_nat i :: u8) = unat (of_nat j :: u8)" by simp
  then show ?thesis using assms(1-3) by simp
qed

definition seen :: "udp_message \<Rightarrow> bytes list \<Rightarrow> (udp_message \<times> nat) list \<Rightarrow> nat set" where
  "seen m cs ms = {i. i < length cs \<and> fragment_at m cs i \<in> fst ` set ms}"

lemma feed_all_holding:
  "carries m cs r \<Longrightarrow> holding m cs t0 S r \<Longrightarrow> S \<subseteq> {..<length cs} \<Longrightarrow>
   list_all (\<lambda>(f, t). t0 \<le> t \<and> t < t0 + re_timeout r \<and> (passes_by r f \<or> f \<in> fragment_at m cs ` {..<length cs})) ms \<Longrightarrow>
   j < length cs \<Longrightarrow> j \<notin> S \<union> seen m cs ms \<Longrightarrow> feed_all ms r = (xs, r') \<Longrightarrow>
   same_limits r r' \<and> holding m cs t0 (S \<union> seen m cs ms) r' \<and> length xs = length ms \<and>
   list_all2 (\<lambda>(f, t) x. f \<in> fragment_at m cs ` {..<length cs} \<longrightarrow> x = Some (Inr None)) ms xs"
proof (induction ms arbitrary: S r xs)
  case Nil
  then show ?case by (simp add: seen_def same_limits_def)
next
  case (Cons msg ms)
  obtain f t where msg: "msg = (f, t)" by (cases msg)
  obtain x r1 where x: "feed f t r = (x, r1)" by fastforce
  obtain xs1 where xs: "feed_all ms r1 = (xs1, r')" "xs = x # xs1"
    using Cons.prems(7) by (auto simp: msg x split: prod.splits)
  have t: "t0 \<le> t" "t < t0 + re_timeout r" and f: "passes_by r f \<or> f \<in> fragment_at m cs ` {..<length cs}"
    and ms: "list_all (\<lambda>(f, t). t0 \<le> t \<and> t < t0 + re_timeout r \<and> (passes_by r f \<or> f \<in> fragment_at m cs ` {..<length cs})) ms"
    using Cons.prems(4) by (auto simp: msg)
  have n: "length cs < 256" using Cons.prems(1) by (simp add: carries_def)
  have j: "j \<notin> S" "j \<notin> seen m cs ms" using Cons.prems(6) by (auto simp: seen_def)
  show ?case
  proof (cases "f \<in> fragment_at m cs ` {..<length cs}")
    case True
    then obtain i where i: "i < length cs" "f = fragment_at m cs i" by auto
    have "i \<noteq> j" using Cons.prems(5,6) i by (auto simp: seen_def msg)
    then have ne: "insert i S \<noteq> {..<length cs}" using j(1) Cons.prems(5) by (metis insertE lessThan_iff)
    have x': "x = Some (Inr None)" "same_limits r r1" "holding m cs t0 (insert i S) r1"
      using feed_holding [OF Cons.prems(1-3) i(1) t x [unfolded i(2)]] by (simp_all add: ne)
    have "k = i" if "k < length cs" "fragment_at m cs k = f" for k using fragment_at_inj that i n by metis
    then have sn: "insert i S \<union> seen m cs ms = S \<union> seen m cs (msg # ms)"
      using i by (auto simp: seen_def msg)
    have ms1: "list_all (\<lambda>(f, t). t0 \<le> t \<and> t < t0 + re_timeout r1 \<and> (passes_by r1 f \<or> f \<in> fragment_at m cs ` {..<length cs})) ms"
      using ms x'(2) by (simp add: same_limits_def passes_by_def)
    have "j \<notin> insert i S \<union> seen m cs ms" using j \<open>i \<noteq> j\<close> by auto
    moreover have "insert i S \<subseteq> {..<length cs}" using Cons.prems(3) i(1) by simp
    ultimately show ?thesis
      using Cons.IH [OF carries_same [OF x'(2) Cons.prems(1)] x'(3) _ ms1 Cons.prems(5) _ xs(1)]
        same_limits_trans [OF x'(2)] x'(1) unfolding sn by (simp add: xs(2) msg)
  next
    case False
    then have r1: "r1 = expire t r" using feed_passes_by [of r f t] f x by simp
    have sn: "S \<union> seen m cs ms = S \<union> seen m cs (msg # ms)" using False by (auto simp: seen_def msg)
    have same: "same_limits r r1" by (simp add: r1 same_limits_def)
    have ms1: "list_all (\<lambda>(f, t). t0 \<le> t \<and> t < t0 + re_timeout r1 \<and> (passes_by r1 f \<or> f \<in> fragment_at m cs ` {..<length cs})) ms"
      using ms by (simp add: r1 passes_by_def)
    have "j \<notin> S \<union> seen m cs ms" using j by auto
    moreover have "holding m cs t0 S r1" unfolding r1 by (rule holding_expire [OF Cons.prems(2) t])
    ultimately show ?thesis
      using Cons.IH [OF carries_same [OF same Cons.prems(1)] _ Cons.prems(3) ms1 Cons.prems(5) _ xs(1)]
        same_limits_trans [OF same] False unfolding sn by (simp add: xs(2) msg)
  qed
qed

lemma feed_fragment_limits: "feed_fragment m p r = (x, r') \<Longrightarrow> same_limits r r'"
  by (auto simp: feed_fragment_def Let_def clear_def same_limits_def split: option.splits if_splits)

lemma feed_limits:
  assumes "feed m now r = (x, r')"
  shows "same_limits r r'"
proof -
  have e: "same_limits r (expire now r)" by (simp add: same_limits_def)
  have "same_limits (expire now r) r'"
    using assms feed_fragment_limits [of m "partial_for m now (expire now r)" "expire now r" x r']
    by (auto simp: feed_def Let_def clear_def same_limits_def split: sum.splits if_splits)
  then show ?thesis by (rule same_limits_trans [OF e])
qed

lemma feed_all_limits: "feed_all ms r = (xs, r') \<Longrightarrow> same_limits r r' \<and> length xs = length ms"
proof (induction ms arbitrary: r xs)
  case Nil
  then show ?case by (simp add: same_limits_def)
next
  case (Cons msg ms)
  obtain m now where msg: "msg = (m, now)" by (cases msg)
  obtain x r1 where x: "feed m now r = (x, r1)" by fastforce
  obtain xs1 where xs: "feed_all ms r1 = (xs1, r')" "xs = x # xs1"
    using Cons.prems by (auto simp: msg x split: prod.splits)
  show ?case using Cons.IH [OF xs(1)] same_limits_trans [OF feed_limits [OF x]] xs(2) by simp
qed

lemma feed_all_append:
  "feed_all (ms @ ms') r = (case feed_all ms r of (xs, r) \<Rightarrow> case feed_all ms' r of (ys, r) \<Rightarrow> (xs @ ys, r))"
proof (induction ms arbitrary: r)
  case (Cons msg ms)
  then show ?case by (cases msg) (simp split: prod.splits)
qed simp

section \<open>Arbitrary messages\<close>

text \<open>
  \<open>assembled_from s M d\<close>: the datagram \<open>d\<close> is one message of \<open>M\<close>, or a complete set of fragments of \<open>M\<close> that
  agree on session, packet, address and count.
\<close>

definition assembled_from :: "u32 \<Rightarrow> udp_message set \<Rightarrow> reassembled \<Rightarrow> bool" where
  "assembled_from s M d \<longleftrightarrow>
     (\<exists>fs. fs \<noteq> [] \<and> set fs \<subseteq> M \<and> rd_session_id d = s \<and> rd_payload d = concat (map um_payload fs) \<and>
       (\<forall>i < length fs. um_session_id (fs ! i) = s \<and> um_address (fs ! i) = rd_address d \<and>
          um_packet_id (fs ! i) = um_packet_id (fs ! 0) \<and> unat (um_fragment_count (fs ! i)) = length fs \<and>
          (1 < length fs \<longrightarrow> unat (um_fragment_id (fs ! i)) = i)))"

definition partial_sound :: "u32 \<Rightarrow> nat \<Rightarrow> udp_message set \<Rightarrow> partial_packet \<Rightarrow> bool" where
  "partial_sound s limit M p \<longleftrightarrow>
     1 < length (pp_fragments p) \<and> pp_received p = length (filter (\<lambda>f. f \<noteq> None) (pp_fragments p)) \<and>
     pp_received p < length (pp_fragments p) \<and>
     pp_size p = sum_list (map (\<lambda>f. case f of None \<Rightarrow> 0 | Some b \<Rightarrow> length b) (pp_fragments p)) \<and> pp_size p \<le> limit \<and>
     (\<forall>i < length (pp_fragments p). \<forall>b. pp_fragments p ! i = Some b \<longrightarrow>
       (\<exists>f \<in> M. um_session_id f = s \<and> um_address f = pp_address p \<and> um_packet_id f = pp_packet_id p \<and>
          unat (um_fragment_count f) = length (pp_fragments p) \<and> unat (um_fragment_id f) = i \<and> um_payload f = b))"

definition reassembler_sound :: "udp_message set \<Rightarrow> reassembler \<Rightarrow> bool" where
  "reassembler_sound M r \<longleftrightarrow>
     (case re_partial r of None \<Rightarrow> True | Some p \<Rightarrow> partial_sound (re_session_id r) (re_max_payload r) M p)"

lemma partial_sound_mono: "partial_sound s limit M p \<Longrightarrow> M \<subseteq> M' \<Longrightarrow> partial_sound s limit M' p"
  unfolding partial_sound_def by blast

lemma filter_update_new:
  assumes "i < length xs" "\<not> P (xs ! i)" "P v"
  shows "length (filter P (xs[i := v])) = Suc (length (filter P xs))"
proof -
  have "xs = take i xs @ xs ! i # drop (Suc i) xs" by (rule id_take_nth_drop [OF assms(1)])
  then have "length (filter P xs) = length (filter P (take i xs)) + length (filter P (drop (Suc i) xs))"
    using assms(2) by (metis filter.simps(2) filter_append length_append)
  then show ?thesis using assms by (simp add: upd_conv_take_nth_drop)
qed

lemma all_received:
  assumes "length (filter (\<lambda>f. f \<noteq> None) fs) = length fs"
  shows "None \<notin> set fs"
  using assms length_filter_less [of None fs "\<lambda>f. f \<noteq> None"] by auto

lemma partial_sound_add:
  assumes p: "partial_sound s limit M p" and m: "um_session_id m = s" "um_address m = pp_address p" "um_packet_id m = pp_packet_id p"
      "unat (um_fragment_count m) = length (pp_fragments p)" "unat (um_fragment_id m) = i" and i: "i < length (pp_fragments p)"
    and new: "pp_fragments p ! i = None" and fits: "length (um_payload m) \<le> limit - pp_size p"
    and p': "p' = p\<lparr>pp_fragments := (pp_fragments p)[i := Some (um_payload m)], pp_size := pp_size p + length (um_payload m),
      pp_received := pp_received p + 1\<rparr>"
  shows "pp_received p' = length (filter (\<lambda>f. f \<noteq> None) (pp_fragments p'))"
    and "pp_size p' = sum_list (map (\<lambda>f. case f of None \<Rightarrow> 0 | Some b \<Rightarrow> length b) (pp_fragments p'))" and "pp_size p' \<le> limit"
    and "\<forall>j < length (pp_fragments p'). \<forall>b. pp_fragments p' ! j = Some b \<longrightarrow>
       (\<exists>f \<in> insert m M. um_session_id f = s \<and> um_address f = pp_address p' \<and> um_packet_id f = pp_packet_id p' \<and>
          unat (um_fragment_count f) = length (pp_fragments p') \<and> unat (um_fragment_id f) = j \<and> um_payload f = b)"
proof -
  show "pp_received p' = length (filter (\<lambda>f. f \<noteq> None) (pp_fragments p'))"
    using p filter_update_new [OF i, of "\<lambda>f. f \<noteq> None" "Some (um_payload m)"] new by (simp add: p' partial_sound_def)
  show "pp_size p' = sum_list (map (\<lambda>f. case f of None \<Rightarrow> 0 | Some b \<Rightarrow> length b) (pp_fragments p'))"
    using p i new by (simp add: p' partial_sound_def map_update sum_list_update)
  have "pp_size p \<le> limit" using p unfolding partial_sound_def by blast
  then show "pp_size p' \<le> limit" using fits by (simp add: p')
  show "\<forall>j < length (pp_fragments p'). \<forall>b. pp_fragments p' ! j = Some b \<longrightarrow>
       (\<exists>f \<in> insert m M. um_session_id f = s \<and> um_address f = pp_address p' \<and> um_packet_id f = pp_packet_id p' \<and>
          unat (um_fragment_count f) = length (pp_fragments p') \<and> unat (um_fragment_id f) = j \<and> um_payload f = b)"
  proof (intro allI impI)
    fix j b assume j: "j < length (pp_fragments p')" "pp_fragments p' ! j = Some b"
    show "\<exists>f \<in> insert m M. um_session_id f = s \<and> um_address f = pp_address p' \<and> um_packet_id f = pp_packet_id p' \<and>
          unat (um_fragment_count f) = length (pp_fragments p') \<and> unat (um_fragment_id f) = j \<and> um_payload f = b"
    proof (cases "j = i")
      case True
      then show ?thesis using j i m by (simp add: p')
    next
      case False
      then show ?thesis using j p by (auto simp: p' partial_sound_def)
    qed
  qed
qed

lemma assembled_whole:
  assumes p: "\<forall>j < length (pp_fragments p). \<forall>b. pp_fragments p ! j = Some b \<longrightarrow>
       (\<exists>f \<in> M. um_session_id f = s \<and> um_address f = pp_address p \<and> um_packet_id f = pp_packet_id p \<and>
          unat (um_fragment_count f) = length (pp_fragments p) \<and> unat (um_fragment_id f) = j \<and> um_payload f = b)"
    and all: "None \<notin> set (pp_fragments p)" and n: "1 < length (pp_fragments p)"
  shows "assembled_from s M \<lparr>rd_session_id = s, rd_address = pp_address p, rd_payload = concat (map the (pp_fragments p))\<rparr>"
proof -
  let ?n = "length (pp_fragments p)"
  have "\<forall>j < ?n. \<exists>f. f \<in> M \<and> um_session_id f = s \<and> um_address f = pp_address p \<and> um_packet_id f = pp_packet_id p \<and>
      unat (um_fragment_count f) = ?n \<and> unat (um_fragment_id f) = j \<and> um_payload f = the (pp_fragments p ! j)"
    using p all by (metis nth_mem option.collapse)
  then obtain fs where fs: "length fs = ?n" "\<forall>j < ?n. fs ! j \<in> M \<and> um_session_id (fs ! j) = s \<and>
      um_address (fs ! j) = pp_address p \<and> um_packet_id (fs ! j) = pp_packet_id p \<and>
      unat (um_fragment_count (fs ! j)) = ?n \<and> unat (um_fragment_id (fs ! j)) = j \<and> um_payload (fs ! j) = the (pp_fragments p ! j)"
    unfolding Skolem_list_nth by blast
  have "map um_payload fs = map the (pp_fragments p)" using fs by (intro nth_equalityI) simp_all
  moreover have "um_packet_id (fs ! 0) = pp_packet_id p" using spec [OF fs(2), of 0] n by auto
  ultimately show ?thesis
    unfolding assembled_from_def using fs n by (intro exI [of _ fs]) (auto simp: in_set_conv_nth)
qed

lemma partial_for_sound:
  assumes r: "reassembler_sound M r" and m: "validate_udp m = Inr ()" "um_fragment_count m \<noteq> 1"
  shows "partial_sound (re_session_id r) (re_max_payload r) M (partial_for m now r) \<and>
    pp_packet_id (partial_for m now r) = um_packet_id m \<and> length (pp_fragments (partial_for m now r)) = unat (um_fragment_count m)"
proof -
  have "unat (um_fragment_count m) \<noteq> 0" using m by (simp add: validate_udp_Inr unat_eq_zero)
  moreover have "unat (um_fragment_count m) \<noteq> 1" using m(2) by (metis unat_1 word_unat_eq_iff)
  ultimately have "1 < unat (um_fragment_count m)" by linarith
  then have fresh: "partial_sound (re_session_id r) (re_max_payload r) M
      \<lparr>pp_packet_id = um_packet_id m, pp_address = um_address m, pp_first_seen = now,
       pp_fragments = replicate (unat (um_fragment_count m)) None, pp_received = 0, pp_size = 0\<rparr>"
    by (simp add: partial_sound_def sum_list_replicate)
  then show ?thesis using r by (auto simp: partial_for_def reassembler_sound_def Let_def split: option.splits)
qed

lemma feed_fragment_sound:
  assumes p: "partial_sound (re_session_id r) (re_max_payload r) M p" and m: "validate_udp m = Inr ()" "um_session_id m = re_session_id r"
      "um_packet_id m = pp_packet_id p" "unat (um_fragment_count m) = length (pp_fragments p)"
    and f: "feed_fragment m p r = (x, r')"
  shows "x \<noteq> None \<and> same_limits r r' \<and> reassembler_sound (insert m M) r' \<and>
    (\<forall>d. x = Some (Inr (Some d)) \<longrightarrow> length (rd_payload d) \<le> re_max_payload r \<and> assembled_from (re_session_id r) (insert m M) d)"
proof -
  let ?i = "unat (um_fragment_id m)"
  have n: "1 < length (pp_fragments p)" using p unfolding partial_sound_def by blast
  then have "um_fragment_count m > 1" using m(4) by (simp add: word_less_nat_alt)
  then have i: "?i < length (pp_fragments p)" using m(1,4) by (simp add: validate_udp_Inr word_less_nat_alt)
  have size: "pp_size p \<le> re_max_payload r" using p unfolding partial_sound_def by blast
  have keep: "reassembler_sound (insert m M) (r\<lparr>re_partial := Some p\<rparr>)" "reassembler_sound (insert m M) (clear q)" for q
    using partial_sound_mono [OF p subset_insertI] by (simp_all add: reassembler_sound_def clear_def)
  consider (address) "um_address m \<noteq> pp_address p" | (again) b where "um_address m = pp_address p" "pp_fragments p ! ?i = Some b"
    | (big) "um_address m = pp_address p" "pp_fragments p ! ?i = None" "length (um_payload m) > re_max_payload r - pp_size p"
    | (add) "um_address m = pp_address p" "pp_fragments p ! ?i = None" "length (um_payload m) \<le> re_max_payload r - pp_size p"
    by (metis not_le option.exhaust)
  then show ?thesis
  proof cases
    case address
    then show ?thesis using f keep by (auto simp: feed_fragment_def Let_def same_limits_def clear_def)
  next
    case again
    then show ?thesis
      using f i keep by (auto simp: feed_fragment_def Let_def nth_get_def same_limits_def clear_def split: if_splits)
  next
    case big
    then show ?thesis using f i size keep by (auto simp: feed_fragment_def Let_def nth_get_def same_limits_def clear_def)
  next
    case add
    define p' where p': "p' = p\<lparr>pp_fragments := (pp_fragments p)[?i := Some (um_payload m)], pp_size := pp_size p + length (um_payload m),
      pp_received := pp_received p + 1\<rparr>"
    note ps = partial_sound_add [OF p m(2) add(1) m(3,4) refl i add(2,3) p']
    have n': "1 < length (pp_fragments p')" "pp_address p' = pp_address p" using n by (simp_all add: p')
    have f': "(x, r') = (if pp_received p' \<noteq> length (pp_fragments p') then (Some (Inr None), r\<lparr>re_partial := Some p'\<rparr>)
        else if None \<in> set (pp_fragments p') then (None, clear r)
        else (Some (Inr (Some \<lparr>rd_session_id = re_session_id r, rd_address = pp_address p', rd_payload = concat (map the (pp_fragments p'))\<rparr>)), clear r))"
      using f add i size by (auto simp: feed_fragment_def Let_def nth_get_def clear_def p')
    show ?thesis
    proof (cases "pp_received p' = length (pp_fragments p')")
      case False
      moreover have "pp_received p' \<le> length (pp_fragments p')" unfolding ps(1) by (rule length_filter_le)
      ultimately have "pp_received p' < length (pp_fragments p')" by simp
      then have "partial_sound (re_session_id r) (re_max_payload r) (insert m M) p'"
        unfolding partial_sound_def using ps n'(1) by blast
      then show ?thesis using f' False by (simp add: reassembler_sound_def same_limits_def)
    next
      case True
      then have all: "None \<notin> set (pp_fragments p')" using ps(1) by (intro all_received) simp
      have "length (concat (map the (pp_fragments p'))) = pp_size p'"
        unfolding ps(2) length_concat map_map using all
        by (intro arg_cong [of _ _ sum_list] map_cong) (auto split: option.split)
      then show ?thesis
        using f' True all ps(3) assembled_whole [OF ps(4) all n'(1)] keep(2) by (simp add: same_limits_def clear_def)
    qed
  qed
qed

lemma expire_sound: "reassembler_sound M r \<Longrightarrow> reassembler_sound M (expire now r)"
  by (auto simp: reassembler_sound_def expire_def split: option.splits)

lemma reassembler_sound_mono: "reassembler_sound M r \<Longrightarrow> M \<subseteq> M' \<Longrightarrow> reassembler_sound M' r"
  by (auto simp: reassembler_sound_def intro: partial_sound_mono split: option.splits)

lemma feed_sound:
  assumes r: "reassembler_sound M r" and f: "feed m now r = (x, r')"
  shows "x \<noteq> None \<and> same_limits r r' \<and> reassembler_sound (insert m M) r' \<and>
    (\<forall>d. x = Some (Inr (Some d)) \<longrightarrow> length (rd_payload d) \<le> re_max_payload r \<and> assembled_from (re_session_id r) (insert m M) d)"
proof -
  let ?r = "expire now r"
  have r': "reassembler_sound M ?r" "same_limits r ?r" using expire_sound [OF r] by (simp_all add: same_limits_def)
  have keep: "reassembler_sound (insert m M) ?r" "reassembler_sound (insert m M) (clear ?r)"
    using reassembler_sound_mono [OF r'(1) subset_insertI] by (simp_all add: reassembler_sound_def clear_def)
  consider (bad) e where "validate_udp m = Inl e" | (other) "validate_udp m = Inr ()" "um_session_id m \<noteq> re_session_id r"
    | (whole) "validate_udp m = Inr ()" "um_session_id m = re_session_id r" "um_fragment_count m = 1"
    | (big) "validate_udp m = Inr ()" "um_session_id m = re_session_id r" "um_fragment_count m \<noteq> 1" "length (um_payload m) > re_max_payload r"
    | (part) "validate_udp m = Inr ()" "um_session_id m = re_session_id r" "um_fragment_count m \<noteq> 1" "length (um_payload m) \<le> re_max_payload r"
    by (metis (full_types) not_le old.unit.exhaust sum.exhaust)
  then show ?thesis
  proof cases
    case bad
    then show ?thesis using f keep r'(2) by (auto simp: feed_def Let_def)
  next
    case other
    then show ?thesis using f keep r'(2) by (auto simp: feed_def Let_def)
  next
    case whole
    have "assembled_from (re_session_id r) (insert m M) \<lparr>rd_session_id = re_session_id r, rd_address = um_address m, rd_payload = um_payload m\<rparr>"
      unfolding assembled_from_def by (rule exI [of _ "[m]"]) (use whole in simp)
    then show ?thesis using f keep r'(2) whole by (auto simp: feed_def Let_def split: if_splits)
  next
    case big
    then show ?thesis using f keep r'(2) by (auto simp: feed_def Let_def same_limits_def clear_def)
  next
    case part
    note p = partial_for_sound [OF r'(1) part(1,3), of now]
    have "feed_fragment m (partial_for m now ?r) ?r = (x, r')" using f feed_is_fragment [OF part] by simp
    from feed_fragment_sound [OF conjunct1 [OF p] part(1) _ _ _ this] show ?thesis
      using p part(2) r'(2) by (simp add: same_limits_def)
  qed
qed

lemma feed_all_sound:
  "reassembler_sound M r \<Longrightarrow> feed_all ms r = (xs, r') \<Longrightarrow>
   reassembler_sound (M \<union> fst ` set ms) r' \<and> same_limits r r' \<and> None \<notin> set xs \<and>
   (\<forall>d. Some (Inr (Some d)) \<in> set xs \<longrightarrow>
      length (rd_payload d) \<le> re_max_payload r \<and> assembled_from (re_session_id r) (M \<union> fst ` set ms) d)"
proof (induction ms arbitrary: M r xs)
  case Nil
  then show ?case by (simp add: same_limits_def)
next
  case (Cons msg ms)
  obtain m now where msg: "msg = (m, now)" by (cases msg)
  obtain x r1 where x: "feed m now r = (x, r1)" by fastforce
  obtain xs1 where xs: "feed_all ms r1 = (xs1, r')" "xs = x # xs1"
    using Cons.prems(2) by (auto simp: msg x split: prod.splits)
  note one = feed_sound [OF Cons.prems(1) x]
  have M: "M \<union> fst ` set (msg # ms) = insert m M \<union> fst ` set ms" by (simp add: msg)
  have "assembled_from s (insert m M) d \<Longrightarrow> assembled_from s (insert m M \<union> fst ` set ms) d" for s d
    unfolding assembled_from_def by blast
  then show ?case
    using one Cons.IH [of "insert m M" r1 xs1] xs(1) same_limits_trans unfolding M xs(2)
    by (auto simp: same_limits_def)
qed

section \<open>Properties\<close>

lemma fragments_are:
  assumes "fragment_udp_message m mx = Inr fs"
  obtains cs where "fs = map (fragment_at m cs) [0..<length cs]" "concat cs = um_payload m" "0 < length cs" "length cs < 256"
    "\<forall>i < length cs. validate_udp (fragment_at m cs i) = Inr ()"
proof -
  obtain c cs where m0: "validate_udp m = Inr ()" "um_fragment_count m = 1" "mx = header_length m + c" "0 < c"
      "cs = chunks c (um_payload m)" "length cs < 256"
    and fs0: "fs = map (\<lambda>i. m\<lparr>um_fragment_id := of_nat i, um_fragment_count := of_nat (length cs), um_payload := cs ! i\<rparr>) [0..<length cs]"
    using fragment_udp_Inr [OF assms] .
  note m = m0(1,4,5,6)
  have fs: "fs = map (fragment_at m cs) [0..<length cs]" using fs0 by (simp add: fragment_at_def [abs_def])
  have cc: "concat cs = um_payload m" using chunks_concat [OF m(2)] m(3) by simp
  have pos: "0 < length cs" using cc m(1) by (auto simp: validate_udp_Inr)
  have "validate_udp (fragment_at m cs i) = Inr ()" if i: "i < length cs" for i
  proof -
    have "cs ! i \<noteq> []" using chunks_lengths [of "cs ! i" c "um_payload m"] i m(3) by auto
    moreover have "length (cs ! i) \<le> length (concat cs)" using i by (metis nth_mem sum_list_map_remove1 length_concat le_add1 map_eq_conv)
    moreover have "(of_nat (length cs) :: u8) \<noteq> 0" "(of_nat i :: u8) < of_nat (length cs)"
      using i m(4) by (auto simp: word_less_nat_alt unat_eq_zero [symmetric])
    ultimately show ?thesis using m(1) cc by (auto simp: validate_udp_Inr)
  qed
  then show thesis using that fs cc pos m(4) by blast
qed

definition demo_message :: "u8 \<Rightarrow> u8 \<Rightarrow> bytes \<Rightarrow> udp_message" where
  "demo_message i n p = \<lparr>um_session_id = 7, um_packet_id = 3, um_fragment_id = i, um_fragment_count = n, um_address = [97], um_payload = p\<rparr>"

lemma demo_fragments:
  "fragment_udp_message (demo_message 0 1 [1, 2, 3]) 12 = Inr [demo_message 0 2 [1, 2], demo_message 1 2 [3]]"
  by (simp add: demo_message_def fragment_udp_message_def validate_udp_def validate_address_def header_length_def varint_length_def
      HY_MAX_ADDRESS_def HY_MAX_UDP_PAYLOAD_def Let_def try_u8_def chunks.simps)

text \<open>
  C39: a datagram is split into fragments that each fit the QUIC datagram size, decode to what was
  encoded, and carry the payload between them in the order of their numbers.
\<close>

theorem hysteria_fragments_round_trip:
  assumes "fragment_udp_message m max_datagram_size = Inr fs" "utf8_valid (um_address m)"
  shows "concat (map um_payload fs) = um_payload m \<and> map um_fragment_id fs = map of_nat [0..<length fs] \<and>
    list_all (\<lambda>f. unat (um_fragment_count f) = length fs \<and>
      (\<exists>w. encode_udp_message f = Inr w \<and> length w \<le> max_datagram_size \<and> decode_udp_message w = Inr f)) fs"
proof -
  obtain cs where fs: "fs = map (fragment_at m cs) [0..<length cs]" and cs: "concat cs = um_payload m" "length cs < 256"
    using fragments_are [OF assms(1)] by metis
  have "map um_payload fs = cs" by (rule nth_equalityI) (simp_all add: fs)
  moreover have "map um_fragment_id fs = map of_nat [0..<length fs]" by (simp add: fs)
  moreover have "\<exists>w. encode_udp_message f = Inr w \<and> length w \<le> max_datagram_size \<and> decode_udp_message w = Inr f" if "f \<in> set fs" for f
    using udp_message_round_trip fragments_ok [OF assms that] by metis
  moreover have "unat (um_fragment_count f) = length fs" if "f \<in> set fs" for f using that cs(2) by (auto simp: fs)
  ultimately show ?thesis using cs(1) by (simp add: list_all_iff)
qed

theorem hysteria_fragments_round_trip_witness:
  "concat (map um_payload [demo_message 0 2 [1, 2], demo_message 1 2 [3]]) = [1, 2, 3]"
  using hysteria_fragments_round_trip [OF demo_fragments] by (simp add: demo_message_def utf8_valid_def)


definition demo_reassembler :: reassembler where
  "demo_reassembler = \<lparr>re_session_id = 7, re_max_payload = 100, re_timeout = 50, re_partial = None\<rparr>"


text \<open>
  C15: whatever messages arrive, the reassembler never panics, buffers no more than its limit, and every
  datagram it returns is one message that arrived, or the concatenation of a complete set of fragments that arrived, all of
  the session, of one packet and with one address.
\<close>

theorem hysteria_reassembly_sound:
  assumes "reassembler_new s limit timeout = Inr r0" "feed_all ms r0 = (xs, r)"
  shows "None \<notin> set xs \<and> buffered_payload_bytes r \<le> limit \<and>
    (\<forall>d. Some (Inr (Some d)) \<in> set xs \<longrightarrow> length (rd_payload d) \<le> limit \<and> assembled_from s (fst ` set ms) d)"
proof -
  have r0: "r0 = \<lparr>re_session_id = s, re_max_payload = limit, re_timeout = timeout, re_partial = None\<rparr>"
    using assms(1) by (auto simp: reassembler_new_def split: if_splits)
  have "reassembler_sound {} r0" by (simp add: r0 reassembler_sound_def)
  note all = feed_all_sound [OF this assms(2)]
  then have "buffered_payload_bytes r \<le> limit"
    by (auto simp: reassembler_sound_def buffered_payload_bytes_def partial_sound_def same_limits_def r0 split: option.splits)
  then show ?thesis using all by (simp add: r0)
qed

theorem hysteria_reassembly_sound_witness:
  "None \<notin> set (fst (feed_all [(demo_message 1 2 [3], 10), (demo_message 0 2 [1, 2], 20)] demo_reassembler))"
proof -
  obtain xs r' where run: "feed_all [(demo_message 1 2 [3], 10), (demo_message 0 2 [1, 2], 20)] demo_reassembler = (xs, r')" by fastforce
  have "reassembler_new 7 100 50 = Inr demo_reassembler"
    by (simp add: reassembler_new_def demo_reassembler_def HY_MAX_UDP_PAYLOAD_def)
  from hysteria_reassembly_sound [OF this run] show ?thesis unfolding run by simp
qed

end
