(* ===== verification/Xr_WebSocket_Frame.thy ===== *)
theory Xr_WebSocket_Frame
  imports Xr_Codec
begin

text \<open>
  The frames of the WebSocket transport, \<open>xray-transport/src/stream/websocket_frame.rs\<close>: masking, client frames and the frame
  decoder. A masking key is a 32-bit value; the keys of a write come from a generator \<open>rng\<close>. The frames a server sends and the
  masked frames the client sends are stream codecs: a peer that reads them finds their ends, whatever comes behind.
\<close>

section \<open>Frames\<close>

definition MAX_FRAME_PAYLOAD :: nat where "MAX_FRAME_PAYLOAD = 4096"
definition OPCODE_CONTINUATION :: u8 where "OPCODE_CONTINUATION = 0x0"
definition OPCODE_TEXT :: u8 where "OPCODE_TEXT = 0x1"
definition OPCODE_BINARY :: u8 where "OPCODE_BINARY = 0x2"
definition OPCODE_CLOSE :: u8 where "OPCODE_CLOSE = 0x8"
definition OPCODE_PING :: u8 where "OPCODE_PING = 0x9"
definition OPCODE_PONG :: u8 where "OPCODE_PONG = 0xa"
definition FIN :: u8 where "FIN = 0x80"
definition RSV_MASK :: u8 where "RSV_MASK = 0x70"
definition OPCODE_MASK :: u8 where "OPCODE_MASK = 0x0f"
definition MASKED :: u8 where "MASKED = 0x80"
definition LENGTH_MASK :: u8 where "LENGTH_MASK = 0x7f"
definition MAX_CONTROL_PAYLOAD :: nat where "MAX_CONTROL_PAYLOAD = 125"
definition MAX_INBOUND_PAYLOAD :: nat where "MAX_INBOUND_PAYLOAD = 64 * 1024 * 1024"

text \<open>\<open>u64::from_ne_bytes\<close> and \<open>to_ne_bytes\<close> on a little- or big-endian machine.\<close>

definition from_ne :: "bool \<Rightarrow> bytes \<Rightarrow> u64" where
  "from_ne little bs = from_be (if little then rev bs else bs)"

definition to_ne :: "bool \<Rightarrow> u64 \<Rightarrow> bytes" where
  "to_ne little w = (if little then rev (be_bytes 8 w) else be_bytes 8 w)"

function mask_words :: "bool \<Rightarrow> u64 \<Rightarrow> bytes \<Rightarrow> bytes \<Rightarrow> bytes" where
  "mask_words little word key payload =
     (if length payload < 8 then map (\<lambda>(i, b). b XOR key ! (i mod 4)) (List.enumerate 0 payload)
      else to_ne little (from_ne little (take 8 payload) XOR word) @ mask_words little word key (drop 8 payload))"
  by pat_completeness auto
termination
  by (relation "measure (\<lambda>(_, _, _, payload). length payload)") auto

definition apply_mask :: "bool \<Rightarrow> bytes \<Rightarrow> bytes \<Rightarrow> bytes" where
  "apply_mask little payload key = mask_words little (from_ne little (key @ key)) key payload"

definition encode_frame :: "bool \<Rightarrow> u32 \<Rightarrow> u8 \<Rightarrow> bool \<Rightarrow> bytes \<Rightarrow> bytes" where
  "encode_frame little key opcode fin payload =
     [if fin then FIN OR opcode else opcode] @
     (let len = length payload
      in if len < 126 then [MASKED OR of_nat len]
         else (case try_u16 len of
             Some len \<Rightarrow> [MASKED OR 126] @ be16 len
           | None \<Rightarrow> [MASKED OR 127] @ be_bytes 8 (of_nat len :: u64))) @
     be32 key @ apply_mask little payload (be32 key)"

fun encode_chunks :: "bool \<Rightarrow> (nat \<Rightarrow> u32) \<Rightarrow> nat \<Rightarrow> bool \<Rightarrow> bytes list \<Rightarrow> bytes" where
  "encode_chunks little rng k first [] = []"
| "encode_chunks little rng k first (c # cs) =
     encode_frame little (rng k) (if first then OPCODE_BINARY else OPCODE_CONTINUATION) (cs = []) c @
     encode_chunks little rng (Suc k) False cs"

text \<open>The frames of one write and the number of keys they take.\<close>

definition encode_client_frames :: "bool \<Rightarrow> (nat \<Rightarrow> u32) \<Rightarrow> nat \<Rightarrow> bytes \<Rightarrow> bytes \<times> nat" where
  "encode_client_frames little rng k payload =
     (if payload = [] then (encode_frame little (rng k) OPCODE_BINARY True [], k + 1)
      else
        let cs = chunks MAX_FRAME_PAYLOAD payload
        in (encode_chunks little rng k True cs, k + length cs))"

datatype frame_event = PayloadEvent bytes | PongEvent bytes | CloseEvent

record frame_decoder =
  fd_buffer :: bytes
  fd_consumed :: nat

definition decoder_new :: frame_decoder where
  "decoder_new = \<lparr>fd_buffer = [], fd_consumed = 0\<rparr>"

definition decoder_extend :: "bytes \<Rightarrow> frame_decoder \<Rightarrow> frame_decoder" where
  "decoder_extend bytes d = d\<lparr>fd_buffer := fd_buffer d @ bytes\<rparr>"

definition decoder_compact :: "frame_decoder \<Rightarrow> frame_decoder" where
  "decoder_compact d =
     (if fd_consumed d = 0 then d else d\<lparr>fd_buffer := drop (fd_consumed d) (fd_buffer d), fd_consumed := 0\<rparr>)"

text \<open>
  The next frame of \<open>bytes\<close>, the unread part of the buffer: the length of its payload and of its header, then the checks,
  the payload and the length of the whole.
\<close>

definition frame_lengths :: "bytes \<Rightarrow> (nat \<times> nat) option" where
  "frame_lengths bytes =
     (let short_length = unat (bytes ! 1 AND LENGTH_MASK)
      in if short_length = 126 then
           if length bytes < 4 then None else Some (unat (from_be16 [bytes ! 2, bytes ! 3]), 4)
         else if short_length = 127 then
           if length bytes < 10 then None else Some (unat (from_be (take 8 (drop 2 bytes)) :: u64), 10)
         else Some (short_length, 2))"

definition frame_body :: "bytes \<Rightarrow> u8 \<Rightarrow> nat \<Rightarrow> nat \<Rightarrow> string + (u8 \<times> bytes \<times> nat) option" where
  "frame_body bytes opcode payload_length header =
     (let is_control = (opcode AND 0x8 \<noteq> 0)
      in if is_control \<and> payload_length > MAX_CONTROL_PAYLOAD then Inl ''control frame payload exceeds 125 bytes''
         else if is_control \<and> bytes ! 0 AND FIN = 0 then Inl ''control frames must not be fragmented''
         else if \<not> is_control \<and> payload_length > MAX_INBOUND_PAYLOAD
         then Inl (''frame payload of '' @ show_nat payload_length @ '' bytes exceeds the 64 MiB limit'')
         else
           let total = header + payload_length
           in if length bytes < total then Inr None
              else Inr (Some (opcode, take payload_length (drop header bytes), total)))"

definition parse_frame :: "bytes \<Rightarrow> string + (u8 \<times> bytes \<times> nat) option" where
  "parse_frame bytes =
     (if length bytes < 2 then Inr None
      else if bytes ! 0 AND RSV_MASK \<noteq> 0 then Inl ''reserved bit set with no extension negotiated''
      else if bytes ! 1 AND MASKED \<noteq> 0 then Inl ''server frames must not be masked''
      else (case frame_lengths bytes of
          None \<Rightarrow> Inr None
        | Some (payload_length, header) \<Rightarrow> frame_body bytes (bytes ! 0 AND OPCODE_MASK) payload_length header))"

lemma parse_frame_bounds: "parse_frame bs = Inr (Some (op, p, n)) \<Longrightarrow> 0 < n \<and> n \<le> length bs"
  by (auto simp: parse_frame_def frame_lengths_def frame_body_def Let_def split: if_splits)

function next_event :: "frame_decoder \<Rightarrow> (string + frame_event option) \<times> frame_decoder" where
  "next_event d =
     (case parse_frame (drop (fd_consumed d) (fd_buffer d)) of
        Inl e \<Rightarrow> (Inl e, d)
      | Inr None \<Rightarrow> (Inr None, decoder_compact d)
      | Inr (Some (opcode, payload, len)) \<Rightarrow>
          let d = d\<lparr>fd_consumed := fd_consumed d + len\<rparr>
          in if opcode = OPCODE_CLOSE then (Inr (Some CloseEvent), d)
             else if opcode = OPCODE_PING then (Inr (Some (PongEvent payload)), d)
             else if opcode = OPCODE_PONG then next_event d
             else if opcode = OPCODE_TEXT \<or> opcode = OPCODE_BINARY \<or> opcode = OPCODE_CONTINUATION then
               if payload = [] then next_event d else (Inr (Some (PayloadEvent payload)), d)
             else (Inl (''unknown opcode 0x'' @ [''0123456789abcdef'' ! unat opcode]), d))"
  by pat_completeness auto
termination
  by (relation "measure (\<lambda>d. length (fd_buffer d) - fd_consumed d)") (auto dest!: parse_frame_bounds)

section \<open>Masking\<close>

lemma from_be_xor:
  assumes "length a = length b"
  shows "(from_be a XOR from_be b :: u64) = from_be (map2 (XOR) a b)"
  by (rule bit_word_eqI) (use assms in \<open>auto simp: bit_xor_iff bit_from_be\<close>)

lemma ne_xor:
  assumes "length a = 8" "length b = 8"
  shows "to_ne little (from_ne little a XOR from_ne little b) = map2 (XOR) a b"
proof -
  have "be_bytes 8 (from_be c :: u64) = c" if "length c = 8" for c using that by (intro be_bytes_from_be) simp_all
  then show ?thesis using assms by (simp add: to_ne_def from_ne_def from_be_xor zip_rev flip: rev_map)
qed

text \<open>Word by word or byte by byte, the mask is the key repeated from its start.\<close>

definition mask_bytes :: "bytes \<Rightarrow> bytes \<Rightarrow> bytes" where
  "mask_bytes key payload = map (\<lambda>i. payload ! i XOR key ! (i mod 4)) [0..<length payload]"

lemma mask_bytes_split:
  assumes "8 \<le> length p" "length key = 4"
  shows "mask_bytes key p = map2 (XOR) (take 8 p) (key @ key) @ mask_bytes key (drop 8 p)"
proof (rule nth_equalityI)
  show "length (mask_bytes key p) = length (map2 (XOR) (take 8 p) (key @ key) @ mask_bytes key (drop 8 p))"
    using assms by (simp add: mask_bytes_def)
next
  fix i assume "i < length (mask_bytes key p)"
  then have i: "i < length p" by (simp add: mask_bytes_def)
  show "mask_bytes key p ! i = (map2 (XOR) (take 8 p) (key @ key) @ mask_bytes key (drop 8 p)) ! i"
  proof (cases "i < 8")
    case True
    have "i mod 4 = (if i < 4 then i else i - 4)"
    proof (cases "i < 4")
      case False
      then have "i mod 4 = (i - 4) mod 4" by (intro le_mod_geq) simp
      then show ?thesis using True False by simp
    qed simp
    then show ?thesis using True i assms by (simp add: mask_bytes_def nth_append)
  next
    case False
    have "(i - 8 + 2 * 4) mod 4 = (i - 8) mod 4" by (rule mod_mult_self1)
    then have "(i - 8) mod 4 = i mod 4" using False by simp
    then show ?thesis using False i assms by (simp add: mask_bytes_def nth_append)
  qed
qed

declare mask_words.simps [simp del]

lemma mask_words_bytes:
  assumes "length key = 4"
  shows "mask_words little (from_ne little (key @ key)) key p = mask_bytes key p"
proof (induction "length p" arbitrary: p rule: less_induct)
  case less
  show ?case
  proof (cases "length p < 8")
    case True
    have "map (\<lambda>(i, b). b XOR key ! (i mod 4)) (List.enumerate 0 p) = mask_bytes key p"
      by (rule nth_equalityI) (simp_all add: mask_bytes_def nth_enumerate_eq)
    then show ?thesis using True by (subst mask_words.simps) simp
  next
    case False
    have "to_ne little (from_ne little (take 8 p) XOR from_ne little (key @ key)) = map2 (XOR) (take 8 p) (key @ key)"
      using False assms by (intro ne_xor) simp_all
    then show ?thesis using False less [of "drop 8 p"] mask_bytes_split [of p key] assms by (subst mask_words.simps) simp
  qed
qed

lemma apply_mask_bytes: "length key = 4 \<Longrightarrow> apply_mask little p key = mask_bytes key p"
  by (simp add: apply_mask_def mask_words_bytes)

lemma mask_bytes_twice: "mask_bytes key (mask_bytes key p) = p"
  by (rule nth_equalityI) (simp_all add: mask_bytes_def xor.assoc)

lemma length_mask_bytes [simp]: "length (mask_bytes key p) = length p"
  by (simp add: mask_bytes_def)

section \<open>Frames on the wire\<close>

text \<open>A frame: whether it is final, its opcode and its payload.\<close>

type_synonym ws_frame = "bool \<times> u8 \<times> bytes"

definition opcodes :: "u8 list" where
  "opcodes = [OPCODE_CONTINUATION, OPCODE_TEXT, OPCODE_BINARY, OPCODE_CLOSE, OPCODE_PING, OPCODE_PONG]"

definition is_data :: "u8 \<Rightarrow> bool" where
  "is_data op \<longleftrightarrow> op = OPCODE_CONTINUATION \<or> op = OPCODE_TEXT \<or> op = OPCODE_BINARY"

definition first_byte :: "bool \<Rightarrow> u8 \<Rightarrow> u8" where
  "first_byte fin op = (if fin then FIN OR op else op)"

definition length_field :: "u8 \<Rightarrow> nat \<Rightarrow> bytes" where
  "length_field m len =
     (if len < 126 then [m OR of_nat len]
      else if len < 65536 then [m OR 126] @ be16 (of_nat len)
      else [m OR 127] @ be_bytes 8 (of_nat len :: u64))"

lemmas ws_consts = OPCODE_CONTINUATION_def OPCODE_TEXT_def OPCODE_BINARY_def OPCODE_CLOSE_def OPCODE_PING_def OPCODE_PONG_def
  FIN_def RSV_MASK_def OPCODE_MASK_def MASKED_def LENGTH_MASK_def

lemma first_byte_facts:
  assumes "op \<in> set opcodes"
  shows "first_byte fin op AND RSV_MASK = 0" "first_byte fin op AND OPCODE_MASK = op" "(first_byte fin op AND FIN \<noteq> 0) = fin"
    "(op AND 0x8 \<noteq> 0) = (\<not> is_data op)"
  using assms by (cases fin; force simp: opcodes_def first_byte_def is_data_def ws_consts)+

lemma low_length:
  fixes m :: u8
  assumes "len < 128" "m = 0 \<or> m = MASKED"
  shows "unat ((m OR of_nat len) AND LENGTH_MASK) = len" "(m OR of_nat len) AND MASKED = m"
proof -
  obtain g :: u8 where g: "m = push_bit 7 g" "take_bit 1 g = g" "g = 0 \<or> g = 1"
    using assms(2) that [of 0] that [of 1] by (auto simp: MASKED_def)
  have f: "drop_bit 7 (of_nat len OR m) = g" "take_bit 7 (of_nat len OR m) = of_nat len"
    by (rule flagged [where g = g]; use assms g in simp)+
  have lm: "LENGTH_MASK = mask 7" by (simp add: LENGTH_MASK_def mask_eq_exp_minus_1)
  show "unat ((m OR of_nat len) AND LENGTH_MASK) = len"
    using f(2) assms(1) by (simp add: lm or.commute flip: take_bit_eq_mask)
  have "bit ((m OR of_nat len) AND MASKED) k = bit m k" if "k < 8" for k
  proof -
    have m7: "MASKED = 2 ^ 7" by (simp add: MASKED_def)
    have mb: "bit MASKED k \<longleftrightarrow> 7 = k" unfolding m7 using that by (simp only: bit_exp_iff) simp
    have mm: "bit m k \<Longrightarrow> 7 = k" using assms(2) mb by auto
    have "\<not> bit (of_nat len :: u8) 7" by (rule not_bit_small [of len 7]) (use assms(1) in simp_all)
    then show ?thesis using mb mm by (auto simp: bit_and_iff bit_or_iff)
  qed
  then show "(m OR of_nat len) AND MASKED = m" by (intro bit_word_eqI) simp
qed

text \<open>What a server sends: frames without a mask.\<close>

definition server_frame_ok :: "ws_frame \<Rightarrow> bool" where
  "server_frame_ok f = (case f of (fin, op, p) \<Rightarrow> op \<in> set opcodes \<and>
     (if is_data op then length p \<le> MAX_INBOUND_PAYLOAD else fin \<and> length p \<le> MAX_CONTROL_PAYLOAD))"

definition server_wire :: "ws_frame \<Rightarrow> bytes" where
  "server_wire f = (case f of (fin, op, p) \<Rightarrow> [first_byte fin op] @ length_field 0 (length p) @ p)"

definition server_dec :: "bytes \<Rightarrow> (ws_frame \<times> nat) option" where
  "server_dec bs = (case parse_frame bs of Inr (Some (op, p, n)) \<Rightarrow> Some ((bs ! 0 AND FIN \<noteq> 0, op, p), n) | _ \<Rightarrow> None)"

definition server_need :: "bytes \<Rightarrow> bool" where
  "server_need bs \<longleftrightarrow> parse_frame bs = Inr None"

lemma length_field_length: "length (length_field m len) = (if len < 126 then 1 else if len < 65536 then 3 else 9)"
  by (simp add: length_field_def)

lemma length_field_first:
  assumes "len < 2 ^ 63" "m = 0 \<or> m = MASKED"
  obtains b bs where "length_field m len = b # bs" "b AND MASKED = m"
    "unat (b AND LENGTH_MASK) = (if len < 126 then len else if len < 65536 then 126 else 127)"
    "bs = (if len < 126 then [] else if len < 65536 then be16 (of_nat len) else be_bytes 8 (of_nat len :: u64))"
proof (rule that)
  let ?b = "m OR of_nat (if len < 126 then len else if len < 65536 then 126 else 127)"
  show "length_field m len = ?b # (if len < 126 then [] else if len < 65536 then be16 (of_nat len) else be_bytes 8 (of_nat len :: u64))"
    by (simp add: length_field_def)
qed (use low_length [OF _ assms(2)] in auto)

lemma be8_back: "len < 2 ^ 63 \<Longrightarrow> unat (from_be (be_bytes 8 (of_nat len :: u64)) :: u64) = len"
  by (simp add: from_be_be_bytes unat_of_nat take_bit_nat_eq_self)

lemma frame_lengths_field:
  assumes len: "len < 2 ^ 63" and m: "m = 0 \<or> m = MASKED"
  shows "frame_lengths (b0 # length_field m len @ r) = Some (len, 1 + length (length_field m len))"
proof -
  obtain b bs where f: "length_field m len = b # bs" "b AND MASKED = m"
    "unat (b AND LENGTH_MASK) = (if len < 126 then len else if len < 65536 then 126 else 127)"
    "bs = (if len < 126 then [] else if len < 65536 then be16 (of_nat len) else be_bytes 8 (of_nat len :: u64))"
    using length_field_first [OF len m] .
  consider "len < 126" | "126 \<le> len" "len < 65536" | "65536 \<le> len" by linarith
  then show ?thesis
  proof cases
    case 1
    then show ?thesis using f by (simp add: frame_lengths_def)
  next
    case 2
    obtain x y where xy: "be16 (of_nat len :: u16) = [x, y]" "from_be16 [x, y] = of_nat len" by (rule be16_split)
    then show ?thesis using f 2 by (simp add: frame_lengths_def numeral_2_eq_2 numeral_3_eq_3)
  next
    case 3
    then show ?thesis using f be8_back [OF len] by (simp add: frame_lengths_def)
  qed
qed

lemma frame_lengths_short:
  assumes len: "len < 2 ^ 63" and m: "m = 0 \<or> m = MASKED" and q: "prefix q (b0 # length_field m len)" "2 \<le> length q"
    "length q < 1 + length (length_field m len)"
  shows "frame_lengths q = None"
proof -
  obtain b bs where f: "length_field m len = b # bs" "b AND MASKED = m"
    "unat (b AND LENGTH_MASK) = (if len < 126 then len else if len < 65536 then 126 else 127)"
    "bs = (if len < 126 then [] else if len < 65536 then be16 (of_nat len) else be_bytes 8 (of_nat len :: u64))"
    using length_field_first [OF len m] .
  obtain b' q' where q': "q = b0 # b # q'"
    using q(1,2) f(1) by (cases q; cases "tl q") auto
  have l: "length q' < length bs" using q(3) by (simp add: q' f(1))
  consider "len < 126" | "126 \<le> len" "len < 65536" | "65536 \<le> len" by linarith
  then show ?thesis by cases (use l f q' in \<open>auto simp: frame_lengths_def\<close>)
qed

lemma frame_body_ok:
  assumes "server_frame_ok (fin, op, p)"
  shows "frame_body bs op (length p) h = (if bs ! 0 AND FIN = 0 \<and> \<not> is_data op then Inl ''control frames must not be fragmented''
     else if length bs < h + length p then Inr None else Inr (Some (op, take (length p) (drop h bs), h + length p)))"
  using assms first_byte_facts(4) [of op] by (auto simp: frame_body_def server_frame_ok_def Let_def split: if_splits)

lemma server_wire_parses:
  assumes ok: "server_frame_ok (fin, op, p)"
  shows "parse_frame (server_wire (fin, op, p) @ rest) = Inr (Some (op, p, length (server_wire (fin, op, p))))"
    and "strict_prefix q (server_wire (fin, op, p)) \<Longrightarrow> parse_frame q = Inr None"
proof -
  have op: "op \<in> set opcodes" and len: "length p < 2 ^ 63" and fin: "\<not> is_data op \<Longrightarrow> fin"
    using ok by (auto simp: server_frame_ok_def MAX_INBOUND_PAYLOAD_def MAX_CONTROL_PAYLOAD_def split: if_splits)
  let ?lf = "length_field 0 (length p)"
  obtain b bs where f: "?lf = b # bs" "b AND MASKED = 0" using length_field_first [OF len, of 0] by metis
  have fl: "frame_lengths (first_byte fin op # ?lf @ r) = Some (length p, 1 + length ?lf)" for r
    using frame_lengths_field [OF len, of 0] by simp
  have fb: "first_byte fin op AND FIN = 0 \<and> \<not> is_data op \<longleftrightarrow> False" using first_byte_facts(3) [OF op, of fin] fin by auto
  have start: "parse_frame (first_byte fin op # ?lf @ r) = frame_body (first_byte fin op # ?lf @ r) op (length p) (1 + length ?lf)" for r
    using fl [of r] f first_byte_facts(1,2) [OF op, of fin] by (simp add: parse_frame_def)
  show "parse_frame (server_wire (fin, op, p) @ rest) = Inr (Some (op, p, length (server_wire (fin, op, p))))"
    using start [of "p @ rest"] by (simp add: server_wire_def frame_body_ok [OF ok] fb)
  assume q: "strict_prefix q (server_wire (fin, op, p))"
  then have q': "prefix q (first_byte fin op # ?lf @ p)" "length q < 1 + length ?lf + length p"
    using prefix_length_less [OF q] by (auto simp: server_wire_def strict_prefix_def)
  show "parse_frame q = Inr None"
  proof (cases "length q < 2")
    case True
    then show ?thesis by (simp add: parse_frame_def)
  next
    case two: False
    show ?thesis
    proof (cases "length q < 1 + length ?lf")
      case True
      have pq: "prefix q (first_byte fin op # ?lf)"
        using q'(1) True by (metis append_Cons length_Cons less_imp_le_nat plus_1_eq_Suc prefixI prefix_length_prefix)
      then have "frame_lengths q = None" using frame_lengths_short [OF len, of 0] two True by auto
      moreover have "q ! 0 = first_byte fin op" "q ! 1 = b" using pq two f(1) by (auto simp: prefix_def nth_append Cons_eq_append_conv)
      ultimately show ?thesis using f(2) first_byte_facts(1) [OF op, of fin] by (simp add: parse_frame_def)
    next
      case False
      then obtain r where "q = first_byte fin op # ?lf @ r"
        using q'(1) by (metis append_Cons length_Cons linorder_not_less plus_1_eq_Suc prefixI prefix_def prefix_length_prefix append_assoc)
      then show ?thesis using start [of r] q'(2) by (simp add: frame_body_ok [OF ok] fb)
    qed
  qed
qed

interpretation wss: incremental_codec server_frame_ok server_wire server_dec server_need
proof
  fix f rest assume ok: "server_frame_ok f"
  obtain fin op p where f: "f = (fin, op, p)" by (cases f)
  have "op \<in> set opcodes" using ok by (auto simp: f server_frame_ok_def)
  then have "(server_wire f @ rest) ! 0 AND FIN \<noteq> 0 \<longleftrightarrow> fin"
    using first_byte_facts(3) by (simp add: f server_wire_def)
  then show "server_dec (server_wire f @ rest) = Some (f, length (server_wire f))"
    using server_wire_parses(1) ok by (simp add: server_dec_def f)
next
  fix f assume "server_frame_ok f"
  then show "server_wire f \<noteq> []" by (cases f) (simp add: server_wire_def)
next
  fix p assume "server_need p"
  then show "server_dec p = None" by (simp add: server_need_def server_dec_def)
next
  fix f p assume "server_frame_ok f" "strict_prefix p (server_wire f)"
  then show "server_need p" using server_wire_parses(2) by (cases f) (simp add: server_need_def)
qed

section \<open>Frames the client sends\<close>

text \<open>A client frame with its key, and how a server reads it (RFC 6455): it must be masked, and the mask is taken off.\<close>

type_synonym client_frame = "u32 \<times> ws_frame"

definition client_frame_ok :: "client_frame \<Rightarrow> bool" where
  "client_frame_ok f = (case f of (key, fin, op, p) \<Rightarrow> op \<in> set opcodes \<and> length p < 2 ^ 63)"

definition client_wire :: "bool \<Rightarrow> client_frame \<Rightarrow> bytes" where
  "client_wire little f = (case f of (key, fin, op, p) \<Rightarrow> encode_frame little key op fin p)"

definition client_dec :: "bytes \<Rightarrow> (client_frame \<times> nat) option" where
  "client_dec bs =
     (if length bs < 2 \<or> bs ! 1 AND MASKED = 0 then None
      else (case frame_lengths bs of
          None \<Rightarrow> None
        | Some (len, h) \<Rightarrow>
            if length bs < h + 4 + len then None
            else
              let key = take 4 (drop h bs)
              in Some ((from_be key, bs ! 0 AND FIN \<noteq> 0, bs ! 0 AND OPCODE_MASK, mask_bytes key (take len (drop (h + 4) bs))),
                   h + 4 + len)))"

lemma encode_frame_wire:
  "encode_frame little key op fin p =
     first_byte fin op # length_field MASKED (length p) @ be32 key @ mask_bytes (be32 key) p"
  by (simp add: encode_frame_def first_byte_def length_field_def apply_mask_bytes try_u16_def Let_def)

lemma client_wire_decodes:
  assumes ok: "client_frame_ok (key, fin, op, p)"
  shows "client_dec (encode_frame little key op fin p @ rest) = Some ((key, fin, op, p), length (encode_frame little key op fin p))"
    and "strict_prefix q (encode_frame little key op fin p) \<Longrightarrow> client_dec q = None"
proof -
  have op: "op \<in> set opcodes" and len: "length p < 2 ^ 63" using ok by (simp_all add: client_frame_ok_def)
  let ?lf = "length_field MASKED (length p)"
  obtain b bs where f: "?lf = b # bs" "b AND MASKED = MASKED" using length_field_first [OF len, of MASKED] by metis
  have m: "MASKED \<noteq> 0" by (simp add: MASKED_def)
  have fl: "frame_lengths (first_byte fin op # ?lf @ r) = Some (length p, 1 + length ?lf)" for r
    using frame_lengths_field [OF len, of MASKED] by simp
  have k: "from_be (be32 key) = key" by (simp add: be32_def from_be_be_bytes)
  show "client_dec (encode_frame little key op fin p @ rest) = Some ((key, fin, op, p), length (encode_frame little key op fin p))"
    using fl [of "be32 key @ mask_bytes (be32 key) p @ rest"] f m first_byte_facts(2,3) [OF op, of fin] k
    by (simp add: client_dec_def encode_frame_wire mask_bytes_twice Let_def drop_Cons')
  assume q: "strict_prefix q (encode_frame little key op fin p)"
  let ?r = "be32 key @ mask_bytes (be32 key) p"
  have q': "prefix q (first_byte fin op # ?lf @ ?r)" "length q < 1 + length ?lf + 4 + length p"
    using q prefix_length_less [OF q] by (auto simp: encode_frame_wire strict_prefix_def)
  show "client_dec q = None"
  proof (cases "length q < 1 + length ?lf")
    case True
    have "prefix q (first_byte fin op # ?lf)"
      using q'(1) True by (metis append_Cons length_Cons less_imp_le_nat plus_1_eq_Suc prefixI prefix_length_prefix)
    then show ?thesis using frame_lengths_short [OF len, of MASKED] True by (simp add: client_dec_def)
  next
    case False
    then obtain r where "q = first_byte fin op # ?lf @ r"
      using q'(1) by (metis append_Cons length_Cons linorder_not_less plus_1_eq_Suc prefixI prefix_def prefix_length_prefix append_assoc)
    then show ?thesis using fl [of r] q'(2) by (simp add: client_dec_def)
  qed
qed

interpretation wsc: incremental_codec client_frame_ok "client_wire little" client_dec "\<lambda>bs. client_dec bs = None"
  for little
proof
  fix f rest assume "client_frame_ok f"
  then show "client_dec (client_wire little f @ rest) = Some (f, length (client_wire little f))"
    using client_wire_decodes(1) by (cases f) (simp add: client_wire_def)
next
  fix f show "client_wire little f \<noteq> []" by (cases f) (simp add: client_wire_def encode_frame_wire)
next
  fix f p assume "client_frame_ok f" "strict_prefix p (client_wire little f)"
  then show "client_dec p = None" using client_wire_decodes(2) by (cases f) (simp add: client_wire_def)
qed

text \<open>The frames of one write, and the payload of the data frames of a list of frames.\<close>

fun chunk_frames :: "(nat \<Rightarrow> u32) \<Rightarrow> nat \<Rightarrow> bool \<Rightarrow> bytes list \<Rightarrow> client_frame list" where
  "chunk_frames rng k first [] = []"
| "chunk_frames rng k first (c # cs) =
     (rng k, cs = [], if first then OPCODE_BINARY else OPCODE_CONTINUATION, c) # chunk_frames rng (Suc k) False cs"

fun frames_data :: "ws_frame list \<Rightarrow> bytes" where
  "frames_data [] = []"
| "frames_data ((fin, op, p) # fs) = (if is_data op then p else []) @ frames_data fs"

lemma frames_data_append [simp]: "frames_data (fs @ gs) = frames_data fs @ frames_data gs"
  by (induction fs rule: frames_data.induct) simp_all

lemma encode_chunks_frames: "encode_chunks little rng k first cs = concat (map (client_wire little) (chunk_frames rng k first cs))"
  by (induction rng k first cs rule: chunk_frames.induct) (simp_all add: client_wire_def)

lemma chunk_frames_data: "frames_data (map snd (chunk_frames rng k first cs)) = concat cs"
  by (induction rng k first cs rule: chunk_frames.induct) (simp_all add: is_data_def)

lemma chunk_frames_ok:
  "(\<And>c. c \<in> set cs \<Longrightarrow> length c < 2 ^ 63) \<Longrightarrow> list_all client_frame_ok (chunk_frames rng k first cs)"
  by (induction rng k first cs rule: chunk_frames.induct) (auto simp: client_frame_ok_def opcodes_def)

lemma encode_client_frames_wire:
  assumes "encode_client_frames little rng k p = (out, k')" "p \<noteq> []"
  obtains fs where "list_all client_frame_ok fs" "out = concat (map (client_wire little) fs)" "frames_data (map snd fs) = p"
proof (rule that)
  let ?cs = "chunks MAX_FRAME_PAYLOAD p"
  have "length c < 2 ^ 63" if "c \<in> set ?cs" for c
    using chunks_lengths [OF that] by (simp add: MAX_FRAME_PAYLOAD_def)
  then show "list_all client_frame_ok (chunk_frames rng k True ?cs)" by (rule chunk_frames_ok)
  show "out = concat (map (client_wire little) (chunk_frames rng k True ?cs))"
    using assms by (auto simp: encode_client_frames_def encode_chunks_frames Let_def)
  show "frames_data (map snd (chunk_frames rng k True ?cs)) = p"
    by (simp add: chunk_frames_data chunks_concat MAX_FRAME_PAYLOAD_def)
qed

text \<open>
  C40. Masking eight bytes at a time with the doubled key, on a little- or a big-endian machine, is the masking of
  RFC 6455 byte by byte, for every payload length; masking twice gives the payload back.
\<close>

theorem mask_by_words_is_mask_by_bytes:
  "apply_mask little p (be32 key) = map (\<lambda>i. p ! i XOR be32 key ! (i mod 4)) [0..<length p] \<and>
   apply_mask little (apply_mask little p (be32 key)) (be32 key) = p"
  by (simp add: apply_mask_bytes mask_bytes_twice flip: mask_bytes_def)

end
