(* ===== verification/Xr_WebSocket.thy ===== *)
theory Xr_WebSocket
  imports Xr_Vision_Write Xr_WebSocket_Frame
begin

text \<open>
  The framed stream of the WebSocket transport, \<open>WebSocketStream\<close> of \<open>xray-transport/src/stream/websocket.rs\<close>, over a transport
  of the record \<open>vision_io\<close>, the development's model of \<open>TransportStream\<close>. Reading gives the payloads of the frames the server sent;
  what is written is always a sequence of whole masked frames, whatever polls are interleaved.
\<close>

section \<open>The framed stream\<close>

definition READ_CHUNK :: nat where "READ_CHUNK = 16 * 1024"

record 's ws_stream =
  ws_inner :: 's
  ws_decoder :: frame_decoder
  ws_pending :: bytes
  ws_pending_pos :: nat
  ws_out :: bytes
  ws_out_pos :: nat
  ws_heartbeat :: "nat list option"
  ws_peer_closed :: bool
  ws_close_queued :: bool
  ws_keys :: nat

text \<open>The interval of the heartbeat is the number of its ticks that are ready at each of the coming polls.\<close>

definition ws_new :: "'s \<Rightarrow> bytes \<Rightarrow> u32 \<Rightarrow> nat list \<Rightarrow> 's ws_stream" where
  "ws_new inner leftover heartbeat_period_secs ticks =
     \<lparr>ws_inner = inner, ws_decoder = decoder_extend leftover decoder_new, ws_pending = [], ws_pending_pos = 0,
      ws_out = [], ws_out_pos = 0, ws_heartbeat = (if heartbeat_period_secs > 0 then Some ticks else None), ws_peer_closed = False,
      ws_close_queued = False, ws_keys = 0\<rparr>"

text \<open>\<open>deliver\<close> with room for \<open>n\<close> bytes: what it puts, empty for \<open>false\<close>.\<close>

definition deliver :: "nat \<Rightarrow> 's ws_stream \<Rightarrow> bytes \<times> 's ws_stream" where
  "deliver n s =
     (let remaining = drop (ws_pending_pos s) (ws_pending s);
          len = min (length remaining) n
      in if len = 0 then ([], s)
         else
           let s = s\<lparr>ws_pending_pos := ws_pending_pos s + len\<rparr>
           in (take len remaining,
               if ws_pending_pos s = length (ws_pending s) then s\<lparr>ws_pending := [], ws_pending_pos := 0\<rparr> else s))"

function poll_flush_out :: "'s vision_io \<Rightarrow> 's ws_stream \<Rightarrow> (io_error + unit) poll \<times> 's ws_stream" where
  "poll_flush_out io s =
     (if ws_out_pos s < length (ws_out s) then
        (case io_write io (drop (ws_out_pos s) (ws_out s)) (ws_inner s) of
           (Pending, i) \<Rightarrow> (Pending, s\<lparr>ws_inner := i\<rparr>)
         | (Ready (Inl e), i) \<Rightarrow> (Ready (Inl e), s\<lparr>ws_inner := i\<rparr>)
         | (Ready (Inr written), i) \<Rightarrow>
             if written = 0 then (Ready (Inl (Io WriteZero '''')), s\<lparr>ws_inner := i\<rparr>)
             else poll_flush_out io (s\<lparr>ws_inner := i, ws_out_pos := ws_out_pos s + written\<rparr>))
      else (Ready (Inr ()), s\<lparr>ws_out := [], ws_out_pos := 0\<rparr>))"
  by pat_completeness auto
termination
  by (relation "measure (\<lambda>(io, s). length (ws_out s) - ws_out_pos s)") auto

definition queue_frame :: "bool \<Rightarrow> (nat \<Rightarrow> u32) \<Rightarrow> u8 \<Rightarrow> bytes \<Rightarrow> 's ws_stream \<Rightarrow> 's ws_stream" where
  "queue_frame little rng opcode payload s =
     s\<lparr>ws_out := ws_out s @ encode_frame little (rng (ws_keys s)) opcode True payload, ws_keys := ws_keys s + 1\<rparr>"

definition queue_due_pings :: "bool \<Rightarrow> (nat \<Rightarrow> u32) \<Rightarrow> 's ws_stream \<Rightarrow> 's ws_stream" where
  "queue_due_pings little rng s =
     (case ws_heartbeat s of
        None \<Rightarrow> s
      | Some [] \<Rightarrow> s
      | Some (due # ticks) \<Rightarrow> (queue_frame little rng OPCODE_PING [] ^^ due) (s\<lparr>ws_heartbeat := Some ticks\<rparr>))"

definition protocol_io_error :: "string \<Rightarrow> io_error" where
  "protocol_io_error e = Io OtherKind (''websocket protocol error: '' @ e)"

partial_function (option) ws_read_loop ::
    "'s vision_io \<Rightarrow> bool \<Rightarrow> (nat \<Rightarrow> u32) \<Rightarrow> nat \<Rightarrow> 's ws_stream \<Rightarrow> ((io_error + bytes) poll \<times> 's ws_stream) option" where
  "ws_read_loop io little rng n s =
     (case deliver n s of
        (c, s) \<Rightarrow>
          if c \<noteq> [] then Some (Ready (Inr c), s)
          else if ws_peer_closed s then Some (Ready (Inr []), s)
          else
            (case next_event (ws_decoder s) of
               (Inl e, d) \<Rightarrow> Some (Ready (Inl (protocol_io_error e)), s\<lparr>ws_decoder := d\<rparr>)
             | (Inr (Some (PayloadEvent payload)), d) \<Rightarrow>
                 ws_read_loop io little rng n (s\<lparr>ws_decoder := d, ws_pending := payload, ws_pending_pos := 0\<rparr>)
             | (Inr (Some (PongEvent payload)), d) \<Rightarrow>
                 (case poll_flush_out io (queue_frame little rng OPCODE_PONG payload (s\<lparr>ws_decoder := d\<rparr>)) of
                    (Ready (Inl e), s) \<Rightarrow> Some (Ready (Inl e), s)
                  | (_, s) \<Rightarrow> ws_read_loop io little rng n s)
             | (Inr (Some CloseEvent), d) \<Rightarrow> Some (Ready (Inr []), s\<lparr>ws_decoder := d, ws_peer_closed := True\<rparr>)
             | (Inr None, d) \<Rightarrow>
                 (case io_read io READ_CHUNK (ws_inner s) of
                    (Pending, i) \<Rightarrow> Some (Pending, s\<lparr>ws_decoder := d, ws_inner := i\<rparr>)
                  | (Ready (Inl e), i) \<Rightarrow> Some (Ready (Inl e), s\<lparr>ws_decoder := d, ws_inner := i\<rparr>)
                  | (Ready (Inr filled), i) \<Rightarrow>
                      if filled = [] then Some (Ready (Inr []), s\<lparr>ws_decoder := d, ws_inner := i, ws_peer_closed := True\<rparr>)
                      else ws_read_loop io little rng n (s\<lparr>ws_decoder := decoder_extend filled d, ws_inner := i\<rparr>))))"

definition ws_poll_read ::
    "'s vision_io \<Rightarrow> bool \<Rightarrow> (nat \<Rightarrow> u32) \<Rightarrow> nat \<Rightarrow> 's ws_stream \<Rightarrow> ((io_error + bytes) poll \<times> 's ws_stream) option" where
  "ws_poll_read io little rng n s =
     (if n = 0 then Some (Ready (Inr []), s)
      else (case poll_flush_out io (queue_due_pings little rng s) of
          (Ready (Inl e), s) \<Rightarrow> Some (Ready (Inl e), s)
        | (_, s) \<Rightarrow> ws_read_loop io little rng n s))"

definition ws_poll_write ::
    "'s vision_io \<Rightarrow> bool \<Rightarrow> (nat \<Rightarrow> u32) \<Rightarrow> bytes \<Rightarrow> 's ws_stream \<Rightarrow> (io_error + nat) poll \<times> 's ws_stream" where
  "ws_poll_write io little rng input s =
     (case poll_flush_out io s of
        (Pending, s) \<Rightarrow> (Pending, s)
      | (Ready (Inl e), s) \<Rightarrow> (Ready (Inl e), s)
      | (Ready (Inr _), s) \<Rightarrow>
          if input = [] then (Ready (Inr 0), s)
          else
            let (out, k) = encode_client_frames little rng (ws_keys s) input;
                s = s\<lparr>ws_out := out, ws_out_pos := 0, ws_keys := k\<rparr>
            in (case poll_flush_out io s of
                  (Ready (Inl e), s) \<Rightarrow> (Ready (Inl e), s)
                | (_, s) \<Rightarrow> (Ready (Inr (length input)), s)))"

text \<open>A poll of the transport below, once everything queued is out.\<close>

definition after_flush ::
    "'s vision_io \<Rightarrow> ('s \<Rightarrow> (io_error + unit) poll \<times> 's) \<Rightarrow> 's ws_stream \<Rightarrow> (io_error + unit) poll \<times> 's ws_stream" where
  "after_flush io f s =
     (case poll_flush_out io s of
        (Ready (Inr _), s) \<Rightarrow> (case f (ws_inner s) of (r, i) \<Rightarrow> (r, s\<lparr>ws_inner := i\<rparr>))
      | (r, s) \<Rightarrow> (r, s))"

definition ws_poll_flush :: "'s vision_io \<Rightarrow> 's ws_stream \<Rightarrow> (io_error + unit) poll \<times> 's ws_stream" where
  "ws_poll_flush io s = after_flush io (io_flush io) s"

definition CLOSE_NORMAL :: u16 where "CLOSE_NORMAL = 1000"

definition ws_poll_shutdown ::
    "'s vision_io \<Rightarrow> bool \<Rightarrow> (nat \<Rightarrow> u32) \<Rightarrow> 's ws_stream \<Rightarrow> (io_error + unit) poll \<times> 's ws_stream" where
  "ws_poll_shutdown io little rng s =
     after_flush io (io_shutdown io)
       (if ws_close_queued s then s
        else (queue_frame little rng OPCODE_CLOSE (be16 CLOSE_NORMAL) s)\<lparr>ws_close_queued := True\<rparr>)"

section \<open>Events of a server's frames\<close>

abbreviation unread :: "frame_decoder \<Rightarrow> bytes" where
  "unread d \<equiv> drop (fd_consumed d) (fd_buffer d)"

lemma unread_compact [simp]: "unread (decoder_compact d) = unread d"
  by (simp add: decoder_compact_def)

lemma unread_extend: "fd_consumed d \<le> length (fd_buffer d) \<Longrightarrow> unread (decoder_extend bs d) = unread d @ bs"
  by (simp add: decoder_extend_def)

declare next_event.simps [simp del]

lemma next_event_error: "parse_frame (unread d) = Inl e \<Longrightarrow> next_event d = (Inl e, d)"
  by (subst next_event.simps) simp

lemma next_event_none: "parse_frame (unread d) = Inr None \<Longrightarrow> next_event d = (Inr None, decoder_compact d)"
  by (subst next_event.simps) simp

lemma next_event_some:
  "parse_frame (unread d) = Inr (Some (op, p, n)) \<Longrightarrow> next_event d =
     (let d = d\<lparr>fd_consumed := fd_consumed d + n\<rparr>
      in if op = OPCODE_CLOSE then (Inr (Some CloseEvent), d)
         else if op = OPCODE_PING then (Inr (Some (PongEvent p)), d)
         else if op = OPCODE_PONG \<or> is_data op \<and> p = [] then next_event d
         else if is_data op then (Inr (Some (PayloadEvent p)), d)
         else (Inl (''unknown opcode 0x'' @ [''0123456789abcdef'' ! unat op]), d))"
  by (subst next_event.simps) (auto simp: Let_def is_data_def)

text \<open>The decoder stays in its buffer, an event takes some of it, and the payload of a ping is short.\<close>

definition event_bounds :: "frame_decoder \<Rightarrow> (string + frame_event option) \<times> frame_decoder \<Rightarrow> bool" where
  "event_bounds d rd = (case rd of (r, d') \<Rightarrow>
     fd_consumed d' \<le> length (fd_buffer d') \<and> length (unread d') \<le> length (unread d) \<and>
     (\<forall>e. r = Inr (Some e) \<longrightarrow> length (unread d') < length (unread d)) \<and>
     (\<forall>p. r = Inr (Some (PongEvent p)) \<longrightarrow> length p \<le> MAX_CONTROL_PAYLOAD))"

lemma next_event_bounds: "fd_consumed d \<le> length (fd_buffer d) \<Longrightarrow> event_bounds d (next_event d)"
proof (induction "length (unread d)" arbitrary: d rule: less_induct)
  case less
  show ?case
  proof (cases "parse_frame (unread d)")
    case (Inl e)
    then show ?thesis using less.prems by (simp add: event_bounds_def next_event_error)
  next
    case (Inr o1)
    show ?thesis
    proof (cases o1)
      case None
      then show ?thesis using less.prems Inr by (simp add: event_bounds_def next_event_none) (simp add: decoder_compact_def)
    next
      case (Some a)
      obtain op p n where a: "a = (op, p, n)" by (cases a)
      have b: "0 < n" "n \<le> length (unread d)" using parse_frame_bounds [OF Inr [unfolded Some a]] by simp_all
      have short: "op = OPCODE_PING \<Longrightarrow> length p \<le> MAX_CONTROL_PAYLOAD"
        using Inr Some a by (auto simp: parse_frame_def frame_body_def Let_def OPCODE_PING_def split: if_splits option.splits)
      let ?d = "d\<lparr>fd_consumed := fd_consumed d + n\<rparr>"
      have le: "fd_consumed ?d \<le> length (fd_buffer ?d)" "length (unread ?d) < length (unread d)" using b less.prems by auto
      have "event_bounds d (next_event ?d)"
        using less.hyps [OF le(2,1)] le(2) unfolding event_bounds_def by (auto split: prod.splits)
      then show ?thesis
        using le short by (auto simp: next_event_some [OF Inr [unfolded Some a]] event_bounds_def Let_def split: prod.splits)
    qed
  qed
qed

text \<open>What the frames of a server carry: the payload of its data frames up to the first close frame.\<close>

fun ws_content :: "ws_frame list \<Rightarrow> bytes" where
  "ws_content [] = []"
| "ws_content ((fin, op, p) # fs) = (if op = OPCODE_CLOSE then [] else (if is_data op then p else []) @ ws_content fs)"

abbreviation server_bytes :: "ws_frame list \<Rightarrow> bytes" where
  "server_bytes fs \<equiv> concat (map server_wire fs)"

fun event_outcome :: "bytes \<Rightarrow> ws_frame list \<Rightarrow> (string + frame_event option) \<Rightarrow> ws_frame list \<Rightarrow> bool" where
  "event_outcome tail fs (Inl e) fs' \<longleftrightarrow> False"
| "event_outcome tail fs (Inr None) fs' \<longleftrightarrow> ws_content fs = ws_content fs' \<and> (tail = [] \<longrightarrow> fs' = [])"
| "event_outcome tail fs (Inr (Some (PayloadEvent p))) fs' \<longleftrightarrow> p \<noteq> [] \<and> ws_content fs = p @ ws_content fs' \<and>
     length p + length (server_bytes fs') < length (server_bytes fs)"
| "event_outcome tail fs (Inr (Some (PongEvent p))) fs' \<longleftrightarrow> ws_content fs = ws_content fs'"
| "event_outcome tail fs (Inr (Some CloseEvent)) fs' \<longleftrightarrow> ws_content fs = []"

lemma next_event_frames:
  assumes "fd_consumed d \<le> length (fd_buffer d)" "unread d @ tail = server_bytes fs" "list_all server_frame_ok fs"
  obtains r d' fs' where "next_event d = (r, d')" "unread d' @ tail = server_bytes fs'" "list_all server_frame_ok fs'"
    "event_outcome tail fs r fs'"
  using assms
proof (induction fs arbitrary: d thesis)
  case Nil
  then have "parse_frame (unread d) = Inr None" by (simp add: parse_frame_def)
  then show ?case using Nil.prems(1) [of "Inr None" "decoder_compact d" "[]"] Nil.prems(3) by (simp add: next_event_none)
next
  case (Cons f fs)
  obtain fin op p where f: "f = (fin, op, p)" by (cases f)
  have ok: "server_frame_ok (fin, op, p)" using Cons.prems(4) f by simp
  have pre: "prefix (unread d) (server_wire f @ server_bytes fs)" using Cons.prems(3) by (metis concat.simps(2) list.simps(9) prefixI)
  show ?case
  proof (cases "length (unread d) < length (server_wire f)")
    case True
    then have "parse_frame (unread d) = Inr None"
      using wss.need_iff_short [OF _ pre] Cons.prems(4) by (simp add: server_need_def)
    moreover have "tail \<noteq> []"
    proof
      assume "tail = []"
      then have "unread d = server_wire f @ server_bytes fs" using Cons.prems(3) by simp
      from arg_cong [OF this, of length] show False using True by simp
    qed
    ultimately show ?thesis using Cons.prems(1) [of "Inr None" "decoder_compact d" "f # fs"] Cons.prems(3,4)
      by (simp add: next_event_none)
  next
    case False
    then obtain q where q: "unread d = server_wire f @ q"
      using pre by (metis linorder_not_less prefixI prefix_def prefix_length_prefix)
    let ?n = "length (server_wire f)"
    let ?d = "d\<lparr>fd_consumed := fd_consumed d + ?n\<rparr>"
    have pf: "parse_frame (unread d) = Inr (Some (op, p, ?n))" using server_wire_parses(1) [OF ok, of q] by (simp add: q f)
    have d1: "unread ?d = q" using arg_cong [OF q, of "drop ?n"] by (simp add: add.commute)
    have d2: "fd_consumed ?d \<le> length (fd_buffer ?d)" using arg_cong [OF q, of length] Cons.prems(2) by simp
    have t: "unread ?d @ tail = server_bytes fs" "list_all server_frame_ok fs"
      using Cons.prems(3,4) q d1 by simp_all
    have op: "op \<in> set opcodes" using ok by (simp add: server_frame_ok_def)
    have len: "length p < ?n" by (simp add: f server_wire_def length_field_length)
    note ne = next_event_some [OF pf, unfolded Let_def]
    consider "op = OPCODE_CLOSE" | "op = OPCODE_PING" | "op = OPCODE_PONG \<or> is_data op \<and> p = []" | "is_data op" "p \<noteq> []"
      using op by (auto simp: opcodes_def is_data_def)
    then show ?thesis
    proof cases
      case 3
      obtain r d' fs' where "next_event ?d = (r, d')" "unread d' @ tail = server_bytes fs'" "list_all server_frame_ok fs'"
        "event_outcome tail fs r fs'"
        using Cons.IH [OF _ d2 t] .
      moreover have "ws_content (f # fs) = ws_content fs" using 3 f by (auto simp: is_data_def ws_consts)
      moreover have "next_event d = next_event ?d" using 3 ne by (auto simp: is_data_def ws_consts)
      ultimately show ?thesis using Cons.prems(1) [of r d' fs'] by (cases "(tail, fs, r, fs')" rule: event_outcome.cases) auto
    qed (use Cons.prems(1) [OF _ t] ne f len in \<open>auto simp: is_data_def ws_consts\<close>)
  qed
qed

section \<open>The queue of frames\<close>

declare poll_flush_out.simps [simp del]

text \<open>The transport a stream runs on: a write takes a prefix of its input or nothing, and only so many reads give bytes.\<close>

locale ws_transport =
  fixes io :: "'s vision_io" and sent :: "'s \<Rightarrow> bytes" and work :: "'s \<Rightarrow> nat"
  assumes wr: "io_write io bs s = (r, s') \<Longrightarrow> work s' \<le> work s \<and>
      (case r of Ready (Inr n) \<Rightarrow> n \<le> length bs \<and> sent s' = sent s @ take n bs | _ \<Rightarrow> sent s' = sent s)"
    and rd: "io_read io n s = (q, s') \<Longrightarrow> sent s' = sent s \<and> (\<forall>c. q = Ready (Inr c) \<longrightarrow> c \<noteq> [] \<longrightarrow> work s' < work s)"
    and fl: "sent (snd (io_flush io s)) = sent s"
    and sh: "sent (snd (io_shutdown io s)) = sent s"

text \<open>The bytes sent and the bytes queued.\<close>

definition ws_sent :: "('s \<Rightarrow> bytes) \<Rightarrow> 's ws_stream \<Rightarrow> bytes" where
  "ws_sent sent s = sent (ws_inner s) @ drop (ws_out_pos s) (ws_out s)"

definition ws_queue_ok :: "bool \<Rightarrow> ('s \<Rightarrow> bytes) \<Rightarrow> bytes \<Rightarrow> bytes \<Rightarrow> 's ws_stream \<Rightarrow> bool" where
  "ws_queue_ok little sent base acc s \<longleftrightarrow>
     ws_out_pos s \<le> length (ws_out s) \<and> fd_consumed (ws_decoder s) \<le> length (fd_buffer (ws_decoder s)) \<and>
     (\<exists>fs. list_all client_frame_ok fs \<and> ws_sent sent s = base @ concat (map (client_wire little) fs) \<and>
           frames_data (map snd fs) = acc)"

lemma ws_queue_okI:
  "ws_out_pos s \<le> length (ws_out s) \<Longrightarrow> fd_consumed (ws_decoder s) \<le> length (fd_buffer (ws_decoder s)) \<Longrightarrow>
   list_all client_frame_ok fs \<Longrightarrow> ws_sent sent s = base @ concat (map (client_wire little) fs) \<Longrightarrow>
   frames_data (map snd fs) = acc \<Longrightarrow> ws_queue_ok little sent base acc s"
  unfolding ws_queue_ok_def by blast

lemma ws_queue_ok_other [simp]:
  "ws_queue_ok little sent base acc (s\<lparr>ws_pending := x\<rparr>) = ws_queue_ok little sent base acc s"
  "ws_queue_ok little sent base acc (s\<lparr>ws_pending_pos := y\<rparr>) = ws_queue_ok little sent base acc s"
  "ws_queue_ok little sent base acc (s\<lparr>ws_heartbeat := h\<rparr>) = ws_queue_ok little sent base acc s"
  "ws_queue_ok little sent base acc (s\<lparr>ws_peer_closed := b\<rparr>) = ws_queue_ok little sent base acc s"
  "ws_queue_ok little sent base acc (s\<lparr>ws_close_queued := b\<rparr>) = ws_queue_ok little sent base acc s"
  by (simp_all add: ws_queue_ok_def ws_sent_def)

lemma ws_queue_ok_inner:
  "ws_queue_ok little sent base acc s \<Longrightarrow> sent i = sent (ws_inner s) \<Longrightarrow> ws_queue_ok little sent base acc (s\<lparr>ws_inner := i\<rparr>)"
  by (simp add: ws_queue_ok_def ws_sent_def)

lemma ws_queue_ok_decoder:
  "ws_queue_ok little sent base acc s \<Longrightarrow> fd_consumed d \<le> length (fd_buffer d) \<Longrightarrow>
   ws_queue_ok little sent base acc (s\<lparr>ws_decoder := d\<rparr>)"
  by (simp add: ws_queue_ok_def ws_sent_def)

lemma deliver_keeps:
  assumes "deliver n s = (c, t)"
  shows "ws_queue_ok little sent base acc t = ws_queue_ok little sent base acc s" "c = [] \<Longrightarrow> t = s"
  using assms by (auto simp: deliver_def Let_def split: if_splits)

lemma event_cases:
  obtains (error) e where "r = Inl e" | (payload) p where "r = Inr (Some (PayloadEvent p))"
  | (pong) p where "r = Inr (Some (PongEvent p))" | (close) "r = Inr (Some CloseEvent)" | (none) "r = Inr None"
  by (metis frame_event.exhaust option.exhaust sum.exhaust)

lemma read_cases:
  obtains (pending) "q = Pending" | (error) e where "q = Ready (Inl e)" | (eof) "q = Ready (Inr [])"
  | (bytes) c where "q = Ready (Inr c)" "c \<noteq> ([] :: bytes)"
  by (metis poll.exhaust sum.exhaust)

text \<open>A flush of the queue, in whatever way it ends.\<close>

definition flush_result :: "(io_error + unit) poll \<Rightarrow> 's ws_stream \<Rightarrow> 's ws_stream \<Rightarrow> bool" where
  "flush_result r s s' \<longleftrightarrow>
     s' = s\<lparr>ws_inner := ws_inner s', ws_out := ws_out s', ws_out_pos := ws_out_pos s'\<rparr> \<and> ws_out_pos s' \<le> length (ws_out s') \<and>
     (r = Ready (Inr ()) \<longrightarrow> ws_out s' = [] \<and> ws_out_pos s' = 0)"

context ws_transport
begin

lemma flush_out_keeps:
  assumes "poll_flush_out io s = (r, s')" "ws_out_pos s \<le> length (ws_out s)"
  shows "flush_result r s s' \<and> ws_sent sent s' = ws_sent sent s \<and> work (ws_inner s') \<le> work (ws_inner s)"
  using assms
proof (induction "length (ws_out s) - ws_out_pos s" arbitrary: s rule: less_induct)
  case less
  let ?q = "drop (ws_out_pos s) (ws_out s)"
  note e = less.prems(1) [unfolded poll_flush_out.simps [of io s]]
  show ?case
  proof (cases "ws_out_pos s < length (ws_out s)")
    case False
    then show ?thesis using e by (auto simp: flush_result_def ws_sent_def)
  next
    case True
    obtain q i where w: "io_write io ?q (ws_inner s) = (q, i)" by force
    note keeps = wr [OF w]
    show ?thesis
    proof (cases "\<forall>n. q = Ready (Inr n) \<longrightarrow> n = 0")
      case none: True
      then have "s' = s\<lparr>ws_inner := i\<rparr> \<and> sent i = sent (ws_inner s) \<and> r \<noteq> Ready (Inr ())"
        using e w True keeps by (auto split: poll.splits sum.splits if_splits)
      then show ?thesis using keeps less.prems(2) by (auto simp: flush_result_def ws_sent_def)
    next
      case False
      then obtain n where n: "q = Ready (Inr n)" "0 < n" by blast
      let ?s = "s\<lparr>ws_inner := i, ws_out_pos := ws_out_pos s + n\<rparr>"
      have le: "n \<le> length ?q" "sent i = sent (ws_inner s) @ take n ?q" using keeps n by simp_all
      have "poll_flush_out io ?s = (r, s')" using e w True n by simp
      then have "flush_result r ?s s' \<and> ws_sent sent s' = ws_sent sent ?s \<and> work (ws_inner s') \<le> work (ws_inner ?s)"
        using less.hyps [of ?s] n le True by simp
      moreover have "ws_sent sent ?s = ws_sent sent s"
        using le(2) by (simp add: ws_sent_def drop_drop [symmetric] add.commute del: drop_drop)
      ultimately show ?thesis using keeps by (auto simp: flush_result_def)
    qed
  qed
qed

lemma flush_out_ok:
  assumes "poll_flush_out io s = (r, s')" "ws_queue_ok little sent base acc s"
  shows "ws_queue_ok little sent base acc s'" "ws_decoder s' = ws_decoder s" "work (ws_inner s') \<le> work (ws_inner s)"
    "r = Ready (Inr ()) \<Longrightarrow> ws_out s' = [] \<and> ws_out_pos s' = 0"
proof -
  have f: "flush_result r s s'" "ws_sent sent s' = ws_sent sent s" "work (ws_inner s') \<le> work (ws_inner s)"
    using flush_out_keeps [OF assms(1)] assms(2) by (simp_all add: ws_queue_ok_def)
  then show d: "ws_decoder s' = ws_decoder s" "work (ws_inner s') \<le> work (ws_inner s)"
    "r = Ready (Inr ()) \<Longrightarrow> ws_out s' = [] \<and> ws_out_pos s' = 0"
    by (simp_all add: flush_result_def) (metis (no_types, lifting) ws_stream.select_convs(2) ws_stream.surjective ws_stream.update_convs)
  show "ws_queue_ok little sent base acc s'"
    using assms(2) f d by (simp add: ws_queue_ok_def flush_result_def)
qed

lemma queue_frame_ok:
  assumes "ws_queue_ok little sent base acc s" "op \<in> set opcodes" "\<not> is_data op" "length p \<le> MAX_CONTROL_PAYLOAD"
  shows "ws_queue_ok little sent base acc (queue_frame little rng op p s)"
proof -
  obtain fs where fs: "list_all client_frame_ok fs" "ws_sent sent s = base @ concat (map (client_wire little) fs)"
    "frames_data (map snd fs) = acc"
    using assms(1) by (auto simp: ws_queue_ok_def)
  let ?f = "(rng (ws_keys s), True, op, p)"
  have "ws_sent sent (queue_frame little rng op p s) = base @ concat (map (client_wire little) (fs @ [?f]))"
    using fs(2) assms(1) by (simp add: ws_sent_def queue_frame_def client_wire_def ws_queue_ok_def)
  moreover have "list_all client_frame_ok (fs @ [?f])"
    using fs(1) assms(2,4) by (simp add: client_frame_ok_def MAX_CONTROL_PAYLOAD_def)
  moreover have "frames_data (map snd (fs @ [?f])) = acc" using fs(3) assms(3) by simp
  ultimately show ?thesis using assms(1)
    by (intro ws_queue_okI [where fs = "fs @ [?f]"]) (simp_all add: ws_queue_ok_def queue_frame_def)
qed

lemma queue_due_pings_ok:
  assumes "ws_queue_ok little sent base acc s"
  shows "ws_queue_ok little sent base acc (queue_due_pings little rng s)"
proof -
  have ping: "OPCODE_PING \<in> set opcodes" "\<not> is_data OPCODE_PING" by (simp_all add: opcodes_def is_data_def ws_consts)
  have "ws_queue_ok little sent base acc ((queue_frame little rng OPCODE_PING [] ^^ k) (s\<lparr>ws_heartbeat := h\<rparr>))" for k h
    using assms ping by (induction k) (simp_all add: queue_frame_ok)
  then show ?thesis using assms by (simp add: queue_due_pings_def split: option.split list.split)
qed

text \<open>The two ways the loop goes on after an event: a pong is queued, more bytes are read.\<close>

lemma pong_ok:
  assumes "ws_queue_ok little sent base acc s" "length p \<le> MAX_CONTROL_PAYLOAD"
    and "poll_flush_out io (queue_frame little rng OPCODE_PONG p s) = (q, u)"
  shows "ws_queue_ok little sent base acc u" "ws_decoder u = ws_decoder s" "work (ws_inner u) \<le> work (ws_inner s)"
proof -
  have "ws_queue_ok little sent base acc (queue_frame little rng OPCODE_PONG p s)"
    by (rule queue_frame_ok [OF assms(1)]) (use assms(2) in \<open>simp_all add: opcodes_def is_data_def ws_consts\<close>)
  from flush_out_ok [OF assms(3) this] show "ws_queue_ok little sent base acc u" "ws_decoder u = ws_decoder s"
    "work (ws_inner u) \<le> work (ws_inner s)"
    by (simp_all add: queue_frame_def)
qed

lemma read_more_ok:
  assumes "ws_queue_ok little sent base acc s" "io_read io n (ws_inner s) = (q, i)"
  shows "ws_queue_ok little sent base acc (s\<lparr>ws_inner := i\<rparr>)"
    "ws_queue_ok little sent base acc (s\<lparr>ws_decoder := decoder_extend c (ws_decoder s), ws_inner := i\<rparr>)"
    "q = Ready (Inr c) \<Longrightarrow> c \<noteq> [] \<Longrightarrow> work i < work (ws_inner s)"
  using assms(1) rd [OF assms(2)] by (simp_all add: ws_queue_ok_def ws_sent_def decoder_extend_def)

lemma read_loop_ok:
  assumes "ws_queue_ok little sent base acc s"
  shows "\<exists>r s'. ws_read_loop io little rng n s = Some (r, s') \<and> ws_queue_ok little sent base acc s'"
  using assms
proof (induction s rule: wf_induct_rule [OF wf_measures [of "[\<lambda>s. work (ws_inner s), \<lambda>s. length (unread (ws_decoder s))]"]])
  case (1 s)
  note ok = 1(2)
  obtain c t where ct: "deliver n s = (c, t)" by force
  note loop = ws_read_loop.simps [of io little rng n s, unfolded ct prod.case]
  show ?case
  proof (cases "c \<noteq> [] \<or> ws_peer_closed t")
    case True
    then show ?thesis using loop deliver_keeps(1) [OF ct] ok by auto
  next
    case False
    then have t: "t = s" "c = []" "\<not> ws_peer_closed s" using deliver_keeps(2) [OF ct] by auto
    obtain r d where e: "next_event (ws_decoder s) = (r, d)" by force
    have b: "fd_consumed d \<le> length (fd_buffer d)" "\<And>x. r = Inr (Some x) \<Longrightarrow> length (unread d) < length (unread (ws_decoder s))"
      "\<And>p. r = Inr (Some (PongEvent p)) \<Longrightarrow> length p \<le> MAX_CONTROL_PAYLOAD"
      using next_event_bounds [of "ws_decoder s"] ok e by (auto simp: event_bounds_def ws_queue_ok_def)
    have okd: "ws_queue_ok little sent base acc (s\<lparr>ws_decoder := d\<rparr>)" by (rule ws_queue_ok_decoder [OF ok b(1)])
    have again: "\<exists>r s'. ws_read_loop io little rng n u = Some (r, s') \<and> ws_queue_ok little sent base acc s'"
      if "ws_queue_ok little sent base acc u" "work (ws_inner u) < work (ws_inner s) \<or>
        work (ws_inner u) \<le> work (ws_inner s) \<and> length (unread (ws_decoder u)) < length (unread (ws_decoder s))" for u
      by (rule 1(1)) (use that in auto)
    note loop = loop [unfolded t e prod.case, simplified t, simplified]
    show ?thesis
    proof (cases r rule: event_cases)
      case (payload p)
      then show ?thesis
        using loop again [of "s\<lparr>ws_decoder := d, ws_pending := p, ws_pending_pos := 0\<rparr>"] okd b(2) by simp
    next
      case (pong p)
      obtain q u where f: "poll_flush_out io (queue_frame little rng OPCODE_PONG p (s\<lparr>ws_decoder := d\<rparr>)) = (q, u)" by force
      note u = pong_ok [OF okd b(3) [OF pong] f]
      then show ?thesis using loop pong f again [of u] b(2) [OF pong] by (auto split: poll.split sum.split)
    next
      case none
      obtain q i where q: "io_read io READ_CHUNK (ws_inner (s\<lparr>ws_decoder := d\<rparr>)) = (q, i)" by force
      note more = read_more_ok [OF okd q, simplified]
      show ?thesis
        using loop none q more(1) more(3) again [OF more(2)]
        by (cases q rule: read_cases) auto
    qed (use loop okd in simp_all)
  qed
qed

lemma poll_read_ok:
  assumes "ws_queue_ok little sent base acc s"
  shows "\<exists>r s'. ws_poll_read io little rng n s = Some (r, s') \<and> ws_queue_ok little sent base acc s'"
proof (cases "n = 0")
  case False
  obtain q u where f: "poll_flush_out io (queue_due_pings little rng s) = (q, u)" by force
  have "ws_queue_ok little sent base acc u" using flush_out_ok(1) [OF f] queue_due_pings_ok [OF assms] .
  then show ?thesis using False f read_loop_ok [of little base acc u rng n] by (auto simp: ws_poll_read_def split: poll.split sum.split)
qed (use assms in \<open>simp add: ws_poll_read_def\<close>)

lemma poll_write_ok:
  assumes "ws_queue_ok little sent base acc s" "ws_poll_write io little rng input s = (r, s')"
  shows "case r of
      Pending \<Rightarrow> ws_queue_ok little sent base acc s'
    | Ready (Inl e) \<Rightarrow> ws_queue_ok little sent base acc s' \<or> ws_queue_ok little sent base (acc @ input) s'
    | Ready (Inr n) \<Rightarrow> n = length input \<and> ws_queue_ok little sent base (acc @ input) s'"
proof -
  obtain q u where f: "poll_flush_out io s = (q, u)" by force
  note u = flush_out_ok [OF f assms(1)]
  show ?thesis
  proof (cases "q = Ready (Inr ()) \<and> input \<noteq> []")
    case False
    then show ?thesis using assms(2) f u(1) by (auto simp: ws_poll_write_def split: poll.splits sum.splits if_splits)
  next
    case True
    obtain out k where k: "encode_client_frames little rng (ws_keys u) input = (out, k)" by force
    obtain fs where fs: "list_all client_frame_ok fs" "out = concat (map (client_wire little) fs)" "frames_data (map snd fs) = input"
      using encode_client_frames_wire [OF k] True by blast
    obtain gs where gs: "list_all client_frame_ok gs" "ws_sent sent u = base @ concat (map (client_wire little) gs)"
      "frames_data (map snd gs) = acc"
      using u(1) by (auto simp: ws_queue_ok_def)
    let ?v = "u\<lparr>ws_out := out, ws_out_pos := 0, ws_keys := k\<rparr>"
    have v: "ws_queue_ok little sent base (acc @ input) ?v"
      using fs gs u(1,4) True by (intro ws_queue_okI [where fs = "gs @ fs"]) (simp_all add: ws_queue_ok_def ws_sent_def)
    obtain q' w where f': "poll_flush_out io ?v = (q', w)" by force
    then show ?thesis using flush_out_ok(1) [OF f' v] assms(2) f True k
      by (auto simp: ws_poll_write_def split: poll.splits sum.splits)
  qed
qed

lemma after_flush_ok:
  assumes "ws_queue_ok little sent base acc s" "after_flush io f s = (r, s')" "\<And>i. sent (snd (f i)) = sent i"
  shows "ws_queue_ok little sent base acc s'" "r = Ready (Inr ()) \<Longrightarrow> ws_sent sent s' = sent (ws_inner s')"
proof -
  obtain q u where f: "poll_flush_out io s = (q, u)" by force
  note u = flush_out_ok [OF f assms(1)]
  obtain x i where x: "f (ws_inner u) = (x, i)" by force
  have i: "sent i = sent (ws_inner u)" using assms(3) [of "ws_inner u"] x by simp
  show "ws_queue_ok little sent base acc s'" "r = Ready (Inr ()) \<Longrightarrow> ws_sent sent s' = sent (ws_inner s')"
    using assms(2) f u(1,4) x i ws_queue_ok_inner [OF u(1), of i]
    by (auto simp: after_flush_def ws_sent_def split: poll.splits sum.splits)
qed

lemma poll_shutdown_ok:
  assumes "ws_queue_ok little sent base acc s" "ws_poll_shutdown io little rng s = (r, s')"
  shows "ws_queue_ok little sent base acc s'"
proof -
  have "ws_queue_ok little sent base acc (queue_frame little rng OPCODE_CLOSE (be16 CLOSE_NORMAL) s)"
    by (rule queue_frame_ok [OF assms(1)]) (simp_all add: opcodes_def is_data_def ws_consts MAX_CONTROL_PAYLOAD_def)
  then show ?thesis
    using assms after_flush_ok(1) [OF _ assms(2) [unfolded ws_poll_shutdown_def] sh] by simp
qed

end

section \<open>Any order of polls\<close>

text \<open>
  The polls of a stream one after the other until one fails: the bytes its writes accepted, the input of the write that failed,
  if it was a write, and the stream.
\<close>

datatype ws_op = ReadOp nat | WriteOp bytes | FlushOp | ShutdownOp

fun ws_run ::
    "'s vision_io \<Rightarrow> bool \<Rightarrow> (nat \<Rightarrow> u32) \<Rightarrow> ws_op list \<Rightarrow> 's ws_stream \<Rightarrow> (bytes \<times> bytes \<times> 's ws_stream) option" where
  "ws_run io little rng [] s = Some ([], [], s)"
| "ws_run io little rng (ReadOp n # ops) s =
     (case ws_poll_read io little rng n s of
        None \<Rightarrow> None
      | Some (Ready (Inl e), s) \<Rightarrow> Some ([], [], s)
      | Some (_, s) \<Rightarrow> ws_run io little rng ops s)"
| "ws_run io little rng (WriteOp input # ops) s =
     (case ws_poll_write io little rng input s of
        (Ready (Inl e), s) \<Rightarrow> Some ([], input, s)
      | (Ready (Inr n), s) \<Rightarrow> map_option (map_prod ((@) (take n input)) id) (ws_run io little rng ops s)
      | (Pending, s) \<Rightarrow> ws_run io little rng ops s)"
| "ws_run io little rng (FlushOp # ops) s =
     (case ws_poll_flush io s of
        (Ready (Inl e), s) \<Rightarrow> Some ([], [], s)
      | (_, s) \<Rightarrow> ws_run io little rng ops s)"
| "ws_run io little rng (ShutdownOp # ops) s =
     (case ws_poll_shutdown io little rng s of
        (Ready (Inl e), s) \<Rightarrow> Some ([], [], s)
      | (_, s) \<Rightarrow> ws_run io little rng ops s)"

text \<open>What a server makes of the bytes it got: the payload of the data frames that have arrived in full.\<close>

definition server_data :: "bytes \<Rightarrow> bytes" where
  "server_data bs = frames_data (map snd (decode_all client_dec bs))"

lemma frames_data_prefix: "prefix fs gs \<Longrightarrow> prefix (frames_data (map snd fs)) (frames_data (map snd gs))"
  by (auto simp: prefix_def)

lemma server_data_queue:
  assumes "ws_queue_ok little sent base acc s"
  shows "prefix (server_data (drop (length base) (sent (ws_inner s)))) acc"
    "ws_sent sent s = sent (ws_inner s) \<Longrightarrow> server_data (drop (length base) (sent (ws_inner s))) = acc"
proof -
  obtain fs where fs: "list_all client_frame_ok fs" "ws_sent sent s = base @ concat (map (client_wire little) fs)"
    "frames_data (map snd fs) = acc"
    using assms by (auto simp: ws_queue_ok_def)
  have "prefix (sent (ws_inner s)) (base @ concat (map (client_wire little) fs))" using fs(2) by (metis prefixI ws_sent_def)
  then have "prefix (drop (length base) (sent (ws_inner s))) (concat (map (client_wire little) fs))"
    by (auto simp: prefix_append dest: prefix_length_le)
  then show "prefix (server_data (drop (length base) (sent (ws_inner s)))) acc"
    using frames_data_prefix [OF wsc.decode_all_prefix [OF fs(1)]] fs(3) by (simp add: server_data_def)
  assume "ws_sent sent s = sent (ws_inner s)"
  then have "drop (length base) (sent (ws_inner s)) = concat (map (client_wire little) fs)" using fs(2) by (metis append_eq_conv_conj)
  then show "server_data (drop (length base) (sent (ws_inner s))) = acc"
    using wsc.decode_all_whole [OF fs(1), of little] fs(3) by (simp add: server_data_def)
qed

context ws_transport
begin

lemma ws_run_ok:
  assumes "ws_queue_ok little sent base acc s"
  shows "\<exists>a d s'. ws_run io little rng ops s = Some (a, d, s') \<and>
    (ws_queue_ok little sent base (acc @ a) s' \<or> ws_queue_ok little sent base (acc @ a @ d) s')"
  using assms
proof (induction ops arbitrary: acc s)
  case (Cons op ops)
  show ?case
  proof (cases op)
    case (ReadOp n)
    obtain r u where u: "ws_poll_read io little rng n s = Some (r, u)" "ws_queue_ok little sent base acc u"
      using poll_read_ok [OF Cons.prems] by blast
    then show ?thesis using Cons.IH [OF u(2)] ReadOp by (auto split: poll.split sum.split)
  next
    case (WriteOp input)
    obtain r u where u: "ws_poll_write io little rng input s = (r, u)" by force
    note ok = poll_write_ok [OF Cons.prems u]
    show ?thesis
    proof (cases r)
      case Pending
      then show ?thesis using ok Cons.IH [of acc u] WriteOp u by simp
    next
      case (Ready x)
      show ?thesis
      proof (cases x)
        case (Inr k)
        then show ?thesis using ok Cons.IH [of "acc @ input" u] WriteOp u Ready by fastforce
      qed (use ok WriteOp u Ready in simp)
    qed
  next
    case FlushOp
    obtain r u where u: "ws_poll_flush io s = (r, u)" by force
    have "ws_queue_ok little sent base acc u" by (rule after_flush_ok(1) [OF Cons.prems u [unfolded ws_poll_flush_def] fl])
    then show ?thesis using Cons.IH [of acc u] FlushOp u by (auto split: poll.split sum.split)
  next
    case ShutdownOp
    obtain r u where u: "ws_poll_shutdown io little rng s = (r, u)" by force
    have "ws_queue_ok little sent base acc u" by (rule poll_shutdown_ok [OF Cons.prems u])
    then show ?thesis using Cons.IH [of acc u] ShutdownOp u by (auto split: poll.split sum.split)
  qed
qed auto

end

section \<open>Reading to the end\<close>

text \<open>A transport that also delivers: its reads are a source, and its writes neither fail nor touch what it will deliver.\<close>

locale ws_duplex = ws_transport io sent work + poll_source "io_read io" good rest work
  for io :: "'s vision_io" and sent :: "'s \<Rightarrow> bytes" and good :: "'s \<Rightarrow> bool" and rest :: "'s \<Rightarrow> bytes" and work :: "'s \<Rightarrow> nat" +
  assumes wr_good: "good s \<Longrightarrow> bs \<noteq> [] \<Longrightarrow> io_write io bs s = (r, s') \<Longrightarrow>
    good s' \<and> rest s' = rest s \<and> (r = Pending \<or> (\<exists>n > 0. r = Ready (Inr n)))"

definition ws_read_good :: "('s \<Rightarrow> bool) \<Rightarrow> ('s \<Rightarrow> bytes) \<Rightarrow> 's ws_stream \<Rightarrow> bool" where
  "ws_read_good good rest s \<longleftrightarrow>
     good (ws_inner s) \<and> ws_out_pos s \<le> length (ws_out s) \<and> fd_consumed (ws_decoder s) \<le> length (fd_buffer (ws_decoder s)) \<and>
     (ws_peer_closed s \<or> (\<exists>fs. list_all server_frame_ok fs \<and> unread (ws_decoder s) @ rest (ws_inner s) = server_bytes fs))"

definition ws_read_rest :: "('s \<Rightarrow> bytes) \<Rightarrow> 's ws_stream \<Rightarrow> bytes" where
  "ws_read_rest rest s =
     drop (ws_pending_pos s) (ws_pending s) @
     (if ws_peer_closed s then [] else ws_content (decode_all server_dec (unread (ws_decoder s) @ rest (ws_inner s))))"

definition ws_read_work :: "('s \<Rightarrow> nat) \<Rightarrow> ('s \<Rightarrow> bytes) \<Rightarrow> 's ws_stream \<Rightarrow> nat" where
  "ws_read_work work rest s =
     work (ws_inner s) + length (unread (ws_decoder s) @ rest (ws_inner s)) + length (drop (ws_pending_pos s) (ws_pending s))"

lemma take_drop_rest: "take n (drop p xs) @ drop (p + n) xs = drop p xs"
  by (metis add.commute append_take_drop_id drop_drop)

lemma deliver_outcome:
  assumes "deliver n s = (c, t)" "0 < n" "ws_read_good good rest s"
  shows "c = [] \<Longrightarrow> drop (ws_pending_pos s) (ws_pending s) = [] \<and> t = s"
    "c \<noteq> [] \<Longrightarrow> poll_outcome (ws_read_good good rest) (ws_read_rest rest) (ws_read_work work rest) n s (Ready (Inr c), t)"
  using assms
  by (auto simp: deliver_def Let_def ws_read_good_def ws_read_rest_def ws_read_work_def take_drop_rest split: if_splits)

text \<open>Queueing and flushing leave alone what will be read, and a flush does not fail.\<close>

definition ws_read_same :: "('s \<Rightarrow> bool) \<Rightarrow> ('s \<Rightarrow> bytes) \<Rightarrow> ('s \<Rightarrow> nat) \<Rightarrow> 's ws_stream \<Rightarrow> 's ws_stream \<Rightarrow> bool" where
  "ws_read_same good rest work s s' \<longleftrightarrow> good (ws_inner s') \<and> rest (ws_inner s') = rest (ws_inner s) \<and> work (ws_inner s') \<le> work (ws_inner s) \<and>
     ws_out_pos s' \<le> length (ws_out s') \<and>
     ws_decoder s' = ws_decoder s \<and> ws_pending s' = ws_pending s \<and> ws_pending_pos s' = ws_pending_pos s \<and>
     ws_peer_closed s' = ws_peer_closed s"

context ws_duplex
begin

abbreviation wr_ok :: "'s ws_stream \<Rightarrow> bool" where
  "wr_ok \<equiv> ws_read_good good rest"

abbreviation wr_outcome :: "nat \<Rightarrow> 's ws_stream \<Rightarrow> (io_error + bytes) poll \<times> 's ws_stream \<Rightarrow> bool" where
  "wr_outcome \<equiv> poll_outcome wr_ok (ws_read_rest rest) (ws_read_work work rest)"

abbreviation read_same :: "'s ws_stream \<Rightarrow> 's ws_stream \<Rightarrow> bool" where
  "read_same \<equiv> ws_read_same good rest work"

lemma read_same_ok:
  assumes "read_same s s'" "wr_ok s"
  shows "wr_ok s'" "ws_read_rest rest s' = ws_read_rest rest s" "ws_read_work work rest s' \<le> ws_read_work work rest s"
  using assms by (auto simp: ws_read_same_def ws_read_good_def ws_read_rest_def ws_read_work_def)

lemma flush_out_good:
  assumes "poll_flush_out io s = (r, s')" "wr_ok s"
  shows "read_same s s'" "r = Pending \<or> r = Ready (Inr ())"
proof -
  have "good (ws_inner s') \<and> rest (ws_inner s') = rest (ws_inner s) \<and> (r = Pending \<or> r = Ready (Inr ()))"
    using assms(1) assms(2) [unfolded ws_read_good_def, THEN conjunct1]
  proof (induction "length (ws_out s) - ws_out_pos s" arbitrary: s rule: less_induct)
    case less
    let ?q = "drop (ws_out_pos s) (ws_out s)"
    note e = less.prems(1) [unfolded poll_flush_out.simps [of io s]]
    show ?case
    proof (cases "ws_out_pos s < length (ws_out s)")
      case True
      obtain q i where w: "io_write io ?q (ws_inner s) = (q, i)" by force
      have g: "good i \<and> rest i = rest (ws_inner s) \<and> (q = Pending \<or> (\<exists>n > 0. q = Ready (Inr n)))"
        using wr_good [OF less.prems(2) _ w] True by simp
      show ?thesis
      proof (cases q)
        case (Ready x)
        then obtain n where n: "q = Ready (Inr n)" "0 < n" using g by auto
        then show ?thesis
          using less.hyps [of "s\<lparr>ws_inner := i, ws_out_pos := ws_out_pos s + n\<rparr>"] e w True g by simp
      qed (use e w True g in auto)
    qed (use e less.prems(2) in auto)
  qed
  moreover have "flush_result r s s' \<and> work (ws_inner s') \<le> work (ws_inner s)"
    using flush_out_keeps [OF assms(1)] assms(2) by (simp add: ws_read_good_def)
  ultimately show "read_same s s'" "r = Pending \<or> r = Ready (Inr ())"
    by (cases s; cases s'; simp add: ws_read_same_def flush_result_def)+
qed

lemma queue_frame_same: "wr_ok s \<Longrightarrow> read_same s (queue_frame little rng op p s)"
  by (simp add: ws_read_same_def queue_frame_def ws_read_good_def)

lemma queue_due_pings_same:
  assumes "wr_ok s"
  shows "read_same s (queue_due_pings little rng s)"
proof -
  have "read_same s ((queue_frame little rng OPCODE_PING [] ^^ k) (s\<lparr>ws_heartbeat := h\<rparr>))" for k h
    using assms by (induction k) (simp_all add: ws_read_same_def queue_frame_def ws_read_good_def)
  then show ?thesis using assms
    by (auto simp: queue_due_pings_def ws_read_same_def ws_read_good_def split: option.split list.split)
qed

text \<open>The state after an event of the frames \<open>fs\<close> that leaves the frames \<open>fs'\<close>, with \<open>p\<close> to deliver.\<close>

lemma event_state:
  assumes "wr_ok s" "\<not> ws_peer_closed s" "drop (ws_pending_pos s) (ws_pending s) = []"
    and "unread (ws_decoder s) @ rest (ws_inner s) = server_bytes fs" "list_all server_frame_ok fs"
    and "unread d @ rest (ws_inner s) = server_bytes fs'" "list_all server_frame_ok fs'" "fd_consumed d \<le> length (fd_buffer d)"
    and "ws_content fs = p @ ws_content fs'"
  shows "wr_ok (s\<lparr>ws_decoder := d, ws_pending := p, ws_pending_pos := 0\<rparr>)"
    "ws_read_rest rest (s\<lparr>ws_decoder := d, ws_pending := p, ws_pending_pos := 0\<rparr>) = ws_read_rest rest s"
    "ws_read_rest rest s = p @ ws_content fs'"
    "ws_read_work work rest s = work (ws_inner s) + length (server_bytes fs)"
  using assms wss.decode_all_whole [OF assms(5)] wss.decode_all_whole [OF assms(7)]
  by (auto simp: ws_read_good_def ws_read_rest_def ws_read_work_def simp flip: length_append)

lemma event_state_same:
  assumes "wr_ok s" "\<not> ws_peer_closed s" "drop (ws_pending_pos s) (ws_pending s) = []"
    and "unread (ws_decoder s) @ rest (ws_inner s) = server_bytes fs" "list_all server_frame_ok fs"
    and "unread d @ rest (ws_inner s) = server_bytes fs'" "list_all server_frame_ok fs'" "fd_consumed d \<le> length (fd_buffer d)"
    and "ws_content fs = ws_content fs'"
  shows "wr_ok (s\<lparr>ws_decoder := d\<rparr>)" "ws_read_rest rest (s\<lparr>ws_decoder := d\<rparr>) = ws_read_rest rest s"
    "ws_read_work work rest (s\<lparr>ws_decoder := d\<rparr>) = work (ws_inner s) + length (server_bytes fs')"
  using assms wss.decode_all_whole [OF assms(5)] wss.decode_all_whole [OF assms(7)]
  by (auto simp: ws_read_good_def ws_read_rest_def ws_read_work_def simp flip: length_append)

lemma read_more_outcome:
  assumes "wr_ok s" "\<not> ws_peer_closed s" "drop (ws_pending_pos s) (ws_pending s) = []"
    and fs: "unread (ws_decoder s) @ rest (ws_inner s) = server_bytes fs" "list_all server_frame_ok fs" "rest (ws_inner s) = [] \<longrightarrow> fs = []"
    and q: "io_read io READ_CHUNK (ws_inner s) = (q, i)"
  shows "q = Pending \<Longrightarrow> wr_outcome n s (Pending, s\<lparr>ws_inner := i\<rparr>)"
    "q = Ready (Inr []) \<Longrightarrow> wr_outcome n s (Ready (Inr []), s\<lparr>ws_inner := i, ws_peer_closed := True\<rparr>)"
    "q = Ready (Inl e) \<Longrightarrow> False"
    "q = Ready (Inr c) \<Longrightarrow> c \<noteq> [] \<Longrightarrow> wr_ok (s\<lparr>ws_decoder := decoder_extend c (ws_decoder s), ws_inner := i\<rparr>) \<and>
       ws_read_rest rest (s\<lparr>ws_decoder := decoder_extend c (ws_decoder s), ws_inner := i\<rparr>) = ws_read_rest rest s \<and>
       ws_read_work work rest (s\<lparr>ws_decoder := decoder_extend c (ws_decoder s), ws_inner := i\<rparr>) < ws_read_work work rest s"
proof -
  have good: "good (ws_inner s)" and le: "fd_consumed (ws_decoder s) \<le> length (fd_buffer (ws_decoder s))"
    and pos: "ws_out_pos s \<le> length (ws_out s)" using assms(1) by (simp_all add: ws_read_good_def)
  have room: "0 < READ_CHUNK" by (simp add: READ_CHUNK_def)
  note dec = wss.decode_all_whole [OF fs(2)]
  note defs = ws_read_good_def ws_read_rest_def ws_read_work_def
  show "q = Pending \<Longrightarrow> wr_outcome n s (Pending, s\<lparr>ws_inner := i\<rparr>)"
    "q = Ready (Inr []) \<Longrightarrow> wr_outcome n s (Ready (Inr []), s\<lparr>ws_inner := i, ws_peer_closed := True\<rparr>)"
    "q = Ready (Inl e) \<Longrightarrow> False"
    using good room assms(1-3) fs dec q le pos
    by (cases rule: poll_cases; auto simp: defs)+
  show "wr_ok (s\<lparr>ws_decoder := decoder_extend c (ws_decoder s), ws_inner := i\<rparr>) \<and>
       ws_read_rest rest (s\<lparr>ws_decoder := decoder_extend c (ws_decoder s), ws_inner := i\<rparr>) = ws_read_rest rest s \<and>
       ws_read_work work rest (s\<lparr>ws_decoder := decoder_extend c (ws_decoder s), ws_inner := i\<rparr>) < ws_read_work work rest s"
    if "q = Ready (Inr c)" "c \<noteq> []"
    using good room
  proof (cases rule: poll_cases)
    case (bytes c' i')
    then have c: "c' = c" "i' = i" using q that by simp_all
    have "unread (decoder_extend c (ws_decoder s)) @ rest i = unread (ws_decoder s) @ rest (ws_inner s)"
      using bytes c unread_extend [OF le] by simp
    moreover have "fd_consumed (decoder_extend c (ws_decoder s)) \<le> length (fd_buffer (decoder_extend c (ws_decoder s)))"
      using le by (simp add: decoder_extend_def)
    ultimately show ?thesis using bytes c assms(1-3) pos by (auto simp: defs simp del: length_append length_drop)
  qed (use q that in auto)
qed

text \<open>The end of the loop, when the decoder has no event.\<close>

abbreviation read_more where
  "read_more little rng n s \<equiv>
     (case io_read io READ_CHUNK (ws_inner s) of
        (Pending, i) \<Rightarrow> Some (Pending, s\<lparr>ws_inner := i\<rparr>)
      | (Ready (Inl e), i) \<Rightarrow> Some (Ready (Inl e), s\<lparr>ws_inner := i\<rparr>)
      | (Ready (Inr filled), i) \<Rightarrow>
          if filled = [] then Some (Ready (Inr []), s\<lparr>ws_inner := i, ws_peer_closed := True\<rparr>)
          else ws_read_loop io little rng n (s\<lparr>ws_decoder := decoder_extend filled (ws_decoder s), ws_inner := i\<rparr>))"

lemma read_more_loop:
  assumes "wr_ok s" "\<not> ws_peer_closed s" "drop (ws_pending_pos s) (ws_pending s) = []"
    and "unread (ws_decoder s) @ rest (ws_inner s) = server_bytes fs" "list_all server_frame_ok fs" "rest (ws_inner s) = [] \<longrightarrow> fs = []"
    and again: "\<And>u. ws_read_work work rest u < ws_read_work work rest s \<Longrightarrow> wr_ok u \<Longrightarrow>
      \<exists>r. ws_read_loop io little rng n u = Some r \<and> wr_outcome n u r"
  shows "\<exists>r. read_more little rng n s = Some r \<and> wr_outcome n s r"
proof -
  obtain q i where q: "io_read io READ_CHUNK (ws_inner s) = (q, i)" by force
  note more = read_more_outcome [OF assms(1-6) q]
  show ?thesis
  proof (cases q rule: read_cases)
    case (bytes c)
    let ?u = "s\<lparr>ws_decoder := decoder_extend c (ws_decoder s), ws_inner := i\<rparr>"
    have u: "wr_ok ?u" "ws_read_rest rest ?u = ws_read_rest rest s" "ws_read_work work rest ?u < ws_read_work work rest s"
      using more(4) [OF bytes] by blast+
    obtain x where x: "ws_read_loop io little rng n ?u = Some x" "wr_outcome n ?u x" using again [OF u(3,1)] by blast
    have "wr_outcome n s x" by (rule poll_outcome_trans [OF x(2) u(2)]) (use u(3) in simp)
    then show ?thesis using q bytes x(1) by simp
  qed (use q more in auto)
qed

lemma pong_outcome:
  assumes "wr_ok s" "poll_flush_out io (queue_frame little rng OPCODE_PONG p s) = (q, u)"
  shows "wr_ok u" "ws_read_rest rest u = ws_read_rest rest s" "ws_read_work work rest u \<le> ws_read_work work rest s"
    "q = Pending \<or> q = Ready (Inr ())"
proof -
  note same = read_same_ok [OF queue_frame_same [OF assms(1)] assms(1), of little rng OPCODE_PONG p]
  note flush = flush_out_good [OF assms(2) same(1)]
  note u = read_same_ok [OF flush(1) same(1)]
  show "wr_ok u" "ws_read_rest rest u = ws_read_rest rest s" "ws_read_work work rest u \<le> ws_read_work work rest s"
    "q = Pending \<or> q = Ready (Inr ())"
    using same u flush(2) by simp_all
qed

lemma read_loop_outcome:
  assumes "wr_ok s" "0 < n"
  shows "\<exists>r. ws_read_loop io little rng n s = Some r \<and> wr_outcome n s r"
  using assms(1)
proof (induction "ws_read_work work rest s" arbitrary: s rule: less_induct)
  case less
  obtain c t where ct: "deliver n s = (c, t)" by force
  note loop = ws_read_loop.simps [of io little rng n s, unfolded ct prod.case]
  note out = deliver_outcome [OF ct assms(2) less.prems]
  show ?case
  proof (cases "c = []")
    case False
    then show ?thesis using loop out(2) by simp
  next
    case empty: True
    then have t: "t = s" "drop (ws_pending_pos s) (ws_pending s) = []" using out(1) by auto
    show ?thesis
    proof (cases "ws_peer_closed s")
      case True
      then show ?thesis using loop empty t less.prems by (simp add: ws_read_rest_def)
    next
      case open': False
      note loop = loop [unfolded t empty, simplified open', simplified]
      obtain fs where fs: "unread (ws_decoder s) @ rest (ws_inner s) = server_bytes fs" "list_all server_frame_ok fs"
        and le: "fd_consumed (ws_decoder s) \<le> length (fd_buffer (ws_decoder s))"
        using less.prems open' by (auto simp: ws_read_good_def)
      obtain r d fs' where e: "next_event (ws_decoder s) = (r, d)" "unread d @ rest (ws_inner s) = server_bytes fs'"
        "list_all server_frame_ok fs'" "event_outcome (rest (ws_inner s)) fs r fs'"
        using next_event_frames [OF le fs] .
      have b: "event_bounds (ws_decoder s) (r, d)" using next_event_bounds [OF le] e(1) by simp
      have d: "fd_consumed d \<le> length (fd_buffer d)" "length (server_bytes fs') \<le> length (server_bytes fs)"
        "\<And>x. r = Inr (Some x) \<Longrightarrow> length (server_bytes fs') < length (server_bytes fs)"
        using b by (auto simp: event_bounds_def simp flip: fs(1) e(2))
      have again: "\<exists>r. ws_read_loop io little rng n u = Some r \<and> wr_outcome n s r"
        if l: "wr_ok u" "ws_read_rest rest u = ws_read_rest rest s" "ws_read_work work rest u < ws_read_work work rest s" for u
      proof -
        obtain r where r: "ws_read_loop io little rng n u = Some r" "wr_outcome n u r" using less.hyps [OF l(3,1)] by blast
        have "wr_outcome n s r" by (rule poll_outcome_trans [OF r(2)]) (use l in simp_all)
        then show ?thesis using r(1) by blast
      qed
      note st = event_state [OF less.prems open' t(2) fs e(2,3) d(1)]
      note same = event_state_same [OF less.prems open' t(2) fs e(2,3) d(1)]
      have w: "ws_read_work work rest s = work (ws_inner s) + length (server_bytes fs)"
        using t(2) by (simp add: ws_read_work_def flip: fs(1))
      show ?thesis
      proof (cases r rule: event_cases)
        case (payload p)
        then have p: "ws_content fs = p @ ws_content fs'" "length p + length (server_bytes fs') < length (server_bytes fs)"
          using e(4) by simp_all
        show ?thesis using loop payload e(1) again [OF st(1,2) [OF p(1)]] p(2) w
          by (simp add: ws_read_work_def flip: e(2))
      next
        case (pong p)
        then have p: "ws_content fs = ws_content fs'" using e(4) by simp
        obtain q u where u: "poll_flush_out io (queue_frame little rng OPCODE_PONG p (s\<lparr>ws_decoder := d\<rparr>)) = (q, u)" by force
        note po = pong_outcome [OF same(1) [OF p] u]
        show ?thesis using loop pong e(1) u po again [of u] same(2,3) [OF p] d(3) [OF pong] w by auto
      next
        case close
        then show ?thesis using loop e(1,4) less.prems t(2) d(1) wss.decode_all_whole [OF fs(2)]
          by (simp add: ws_read_good_def ws_read_rest_def fs(1))
      next
        case none
        then have p: "ws_content fs = ws_content fs'" "rest (ws_inner s) = [] \<longrightarrow> fs' = []" using e(4) by simp_all
        let ?s = "s\<lparr>ws_decoder := d\<rparr>"
        have pre: "\<not> ws_peer_closed ?s" "drop (ws_pending_pos ?s) (ws_pending ?s) = []"
          "unread (ws_decoder ?s) @ rest (ws_inner ?s) = server_bytes fs'" "rest (ws_inner ?s) = [] \<longrightarrow> fs' = []"
          using open' t(2) e(2) p(2) by simp_all
        have le: "ws_read_work work rest ?s \<le> ws_read_work work rest s" using same(3) [OF p(1)] d(2) w by simp
        have ag: "\<exists>r. ws_read_loop io little rng n u = Some r \<and> wr_outcome n u r"
          if l: "ws_read_work work rest u < ws_read_work work rest ?s" "wr_ok u" for u
          by (rule less.hyps [OF less_le_trans [OF l(1) le] l(2)])
        have "\<exists>r. read_more little rng n ?s = Some r \<and> wr_outcome n ?s r"
          by (rule read_more_loop [OF same(1) [OF p(1)] pre(1-3) e(3) pre(4) ag])
        then obtain x where x: "read_more little rng n ?s = Some x" "wr_outcome n ?s x" by blast
        have "wr_outcome n s x" by (rule poll_outcome_trans [OF x(2) same(2) [OF p(1)] le])
        moreover obtain q i where "io_read io READ_CHUNK (ws_inner s) = (q, i)" by force
        then have "ws_read_loop io little rng n s = read_more little rng n ?s"
          using loop none e(1) by (cases q rule: read_cases) simp_all
        ultimately show ?thesis using x(1) by simp
      qed (use e(4) in simp)
    qed
  qed
qed

lemma ws_read_source: "poll_source (returning (ws_poll_read io little rng)) wr_ok (ws_read_rest rest) (ws_read_work work rest)"
proof
  fix s n assume s: "wr_ok s" and n: "0 < (n :: nat)"
  let ?p = "queue_due_pings little rng s"
  obtain q u where f: "poll_flush_out io ?p = (q, u)" by force
  note p = read_same_ok [OF queue_due_pings_same [OF s] s, of little rng]
  note fl = flush_out_good [OF f p(1)]
  note u = read_same_ok [OF fl(1) p(1)]
  obtain x where x: "ws_read_loop io little rng n u = Some x" "wr_outcome n u x" using read_loop_outcome [OF u(1) n] by blast
  have "wr_outcome n s x" by (rule poll_outcome_trans [OF x(2)]) (use p u in simp_all)
  then show "wr_outcome n s (returning (ws_poll_read io little rng) n s)"
    using f fl(2) x(1) n by (auto simp: returning_def ws_poll_read_def)
qed

lemma ws_read_all:
  assumes "good i" "leftover @ rest i = server_bytes fs" "list_all server_frame_ok fs" "0 < n"
    and "work i + length (leftover @ rest i) < polls"
  shows "poll_to_end (returning (ws_poll_read io little rng)) n polls (ws_new i leftover heartbeat ticks) = Some (Inr (ws_content fs))"
proof -
  let ?s = "ws_new i leftover heartbeat ticks"
  have "wr_ok ?s" "ws_read_rest rest ?s = ws_content fs" "ws_read_work work rest ?s < polls"
    using assms wss.decode_all_whole [OF assms(3)]
    by (auto simp: ws_new_def ws_read_good_def ws_read_rest_def ws_read_work_def decoder_extend_def decoder_new_def)
  then show ?thesis using poll_source.poll_to_end_rest [OF ws_read_source _ assms(4)] by metis
qed

end

interpretation wsp: ws_duplex pipe_io p_written "\<lambda>p. polls_ok (p_reads p)" "\<lambda>p. polls_bytes (p_reads p)"
  "\<lambda>p. polls_work (p_reads p)"
proof (rule ws_duplex.intro)
  show "ws_transport pipe_io p_written (\<lambda>p. polls_work (p_reads p))"
  proof
    fix bs s r s' assume "io_write pipe_io bs s = (r, s')"
    then show "polls_work (p_reads s') \<le> polls_work (p_reads s) \<and>
       (case r of Ready (Inr n) \<Rightarrow> n \<le> length bs \<and> p_written s' = p_written s @ take n bs | _ \<Rightarrow> p_written s' = p_written s)"
      by (auto simp: pipe_io_def pipe_write_def min_def split: list.splits poll.splits if_splits)
  next
    fix n s q s' assume "io_read pipe_io n s = (q, s')"
    then show "p_written s' = p_written s \<and> (\<forall>c. q = Ready (Inr c) \<longrightarrow> c \<noteq> [] \<longrightarrow> polls_work (p_reads s') < polls_work (p_reads s))"
      by (cases "(n, p_reads s)" rule: poll_chunk.cases)
        (auto simp: pipe_io_def pipe_read_def polls_work_def split: if_splits)
  qed (simp_all add: pipe_io_def)
  show "poll_source (io_read pipe_io) (\<lambda>p. polls_ok (p_reads p)) (\<lambda>p. polls_bytes (p_reads p)) (\<lambda>p. polls_work (p_reads p))"
    using pipe_source by (simp add: pipe_io_def)
  show "ws_duplex_axioms pipe_io (\<lambda>p. polls_ok (p_reads p)) (\<lambda>p. polls_bytes (p_reads p))"
  proof
    fix s bs r s' assume "bs \<noteq> []" "io_write pipe_io bs s = (r, s')" "polls_ok (p_reads s)"
    then show "polls_ok (p_reads s') \<and> polls_bytes (p_reads s') = polls_bytes (p_reads s) \<and>
        (r = Pending \<or> (\<exists>n > 0. r = Ready (Inr n)))"
      by (auto simp: pipe_io_def pipe_write_def split: list.splits poll.splits)
  qed
qed

section \<open>Properties\<close>

text \<open>
  C8. Reading a WebSocket stream to its end gives the payloads of the server's data frames up to its first close
  frame, with the bytes that came behind the handshake in front: however the transport splits the frames and whenever it is
  not ready, with pings and pongs in between that are answered on the way, and without more polls than the transport has
  work and bytes.
\<close>

theorem websocket_reads_payloads:
  assumes "ws_duplex io sent good rest work"
    and "good i" "leftover @ rest i = concat (map server_wire fs)" "list_all server_frame_ok fs"
    and "0 < n" "work i + length (leftover @ rest i) < polls"
  shows "poll_to_end (returning (ws_poll_read io little rng)) n polls (ws_new i leftover heartbeat ticks) = Some (Inr (ws_content fs))"
  using ws_duplex.ws_read_all [OF assms] .

definition demo_server :: "ws_frame list" where
  "demo_server = [(False, OPCODE_TEXT, [65]), (True, OPCODE_PING, [1]), (True, OPCODE_CONTINUATION, [66, 67]),
     (True, OPCODE_CLOSE, []), (True, OPCODE_BINARY, [9])]"

definition demo_pipe :: pipe where
  "demo_pipe = \<lparr>p_reads = [Pending, Ready (Inr [65, 0x89]), Pending, Ready (Inr [1, 1, 0x80, 2, 66, 67, 0x88, 0, 0x82]), Ready (Inr [1, 9])],
     p_accepts = [Pending, Ready 2], p_written = []\<rparr>"

theorem websocket_reads_payloads_witness:
  "poll_to_end (returning (ws_poll_read pipe_io True (\<lambda>k. of_nat k))) 2 40 (ws_new demo_pipe [1, 1] 1 [0, 1]) =
     Some (Inr (ws_content demo_server)) \<and> ws_content demo_server = [65, 66, 67]"
proof -
  have w: "[1, 1] @ polls_bytes (p_reads demo_pipe) = concat (map server_wire demo_server)" "list_all server_frame_ok demo_server"
    by (simp_all add: demo_pipe_def demo_server_def server_wire_def first_byte_def length_field_def server_frame_ok_def
        opcodes_def is_data_def ws_consts MAX_INBOUND_PAYLOAD_def MAX_CONTROL_PAYLOAD_def)
  have p: "polls_ok (p_reads demo_pipe)" "0 < (2 :: nat)"
    "polls_work (p_reads demo_pipe) + length ([1, 1] @ polls_bytes (p_reads demo_pipe)) < 40"
    by (simp_all add: demo_pipe_def polls_work_def)
  show ?thesis
    using websocket_reads_payloads [OF wsp.ws_duplex_axioms p(1) w p(2,3)]
    by (simp add: demo_server_def is_data_def ws_consts)
qed

text \<open>
  C7. In whatever order a stream is read, written, flushed and shut down, and however the transport takes its bytes,
  waits or fails: every poll returns; what a server decodes from the bytes sent so far, masked frames only, is a prefix of what the
  writes accepted, up to the input of a write that failed; and after a flush it is exactly that, pings, pongs and the close frame
  between the data notwithstanding.
\<close>

theorem websocket_sends_accepted:
  assumes "ws_transport io sent work"
  shows "\<exists>acc failed s. ws_run io little rng ops (ws_new i leftover heartbeat ticks) = Some (acc, failed, s) \<and>
    prefix (server_data (drop (length (sent i)) (sent (ws_inner s)))) (acc @ failed) \<and>
    (\<forall>s'. failed = [] \<and> ws_poll_flush io s = (Ready (Inr ()), s') \<longrightarrow>
      server_data (drop (length (sent i)) (sent (ws_inner s'))) = acc)"
proof -
  have "ws_queue_ok little sent (sent i) [] (ws_new i leftover heartbeat ticks)"
    by (rule ws_queue_okI [where fs = "[]"]) (simp_all add: ws_new_def ws_sent_def decoder_extend_def decoder_new_def)
  from ws_transport.ws_run_ok [OF assms this, of rng ops]
  obtain a d s where s: "ws_run io little rng ops (ws_new i leftover heartbeat ticks) = Some (a, d, s)"
    "ws_queue_ok little sent (sent i) a s \<or> ws_queue_ok little sent (sent i) (a @ d) s"
    by auto
  have pre: "prefix (server_data (drop (length (sent i)) (sent (ws_inner s)))) (a @ d)"
    using s(2) server_data_queue(1) by (metis prefix_order.trans prefixI)
  have whole: "server_data (drop (length (sent i)) (sent (ws_inner s'))) = a"
    if f: "d = []" "ws_poll_flush io s = (Ready (Inr ()), s')" for s'
  proof -
    have "ws_queue_ok little sent (sent i) a s" using s(2) f(1) by simp
    note ok = ws_transport.after_flush_ok [OF assms this f(2) [unfolded ws_poll_flush_def] ws_transport.fl [OF assms]]
    show ?thesis using server_data_queue(2) [OF ok(1) ok(2)] by simp
  qed
  show ?thesis using s(1) pre whole by blast
qed

theorem websocket_sends_accepted_witness:
  "\<exists>acc failed s. ws_run pipe_io True (\<lambda>k. of_nat k) [WriteOp [65, 66], ReadOp 4, WriteOp [67], FlushOp, ShutdownOp]
      (ws_new demo_pipe [1, 1] 1 [0, 1]) = Some (acc, failed, s) \<and>
    prefix (server_data (drop (length (p_written demo_pipe)) (p_written (ws_inner s)))) (acc @ failed)"
  using websocket_sends_accepted [OF wsp.ws_transport_axioms, of True "\<lambda>k. of_nat k"
      "[WriteOp [65, 66], ReadOp 4, WriteOp [67], FlushOp, ShutdownOp]" demo_pipe "[1, 1]" 1 "[0, 1]"]
  by blast

end
