(* ===== verification/Spec2Isabelle.thy ===== *)
theory Spec2Isabelle
  imports Xr_Prelude Xr_Text Xr_Net Xr_IpSet Xr_Domain Xr_Codec Xr_Mux Xr_Trojan Xr_Vless Xr_Vision_Write Xr_Kcp_Driver Xr_FakeIp Xr_Hysteria Xr_WebSocket
begin

text \<open>
  A verification development for \<^bold>\<open>xray-rust\<close>, a proxy core (routing, proxy protocols, transports).

  \<^item> \<open>Xr_Prelude\<close>, \<open>Xr_Text\<close>, \<open>Xr_Net\<close>: bytes, results, big-endian codecs, UTF-8 text, addresses.
  \<^item> \<open>Xr_IpSet\<close>: \<open>crates/xray-routing/src/ip_range_set.rs\<close> and \<open>ip_filter.rs\<close>.
\<close>

end
